(* ===== verification/Prelude.thy ===== *)
theory Prelude
  imports Main "HOL-Library.Word"
begin

text \<open>
  Shared vocabulary of the development: machine integer types, the outcome type of code that
  may abort, reads and writes of memory with bounds, byte order, and the bit-counting builtins.

  \<^item> A \<open>VERIFY(...)\<close> that fails, a read or write outside the memory that belongs to an
    object, and a builtin called where its result is undefined are values of \<open>fault\<close>;
    an operation that may end so returns \<open>fault + 'a\<close>, abbreviated \<open>'a res\<close>.
  \<^item> \<open>size_t\<close> is the 32-bit type of the i686 target; a sum that the code computes in
    \<open>size_t\<close> is written \<open>usz (a + b)\<close>.
\<close>

unbundle bit_operations_syntax

named_theorems res_simps \<open>unfolding of the outcome combinators in success statements\<close>

type_synonym u8 = "8 word"
type_synonym u16 = "16 word"
type_synonym u32 = "32 word"
type_synonym u64 = "64 word"

section \<open>Outcomes\<close>

datatype fault = Verify_Failed | Out_Of_Bounds | Undefined_Behaviour

type_synonym 'a res = "fault + 'a"

definition rbind :: "'a res \<Rightarrow> ('a \<Rightarrow> 'b res) \<Rightarrow> 'b res" where
  "rbind m f = (case m of Inl e \<Rightarrow> Inl e | Inr x \<Rightarrow> f x)"

definition verify :: "bool \<Rightarrow> 'a res \<Rightarrow> 'a res" where
  "verify b k = (if b then k else Inl Verify_Failed)"

definition read_at :: "'a list \<Rightarrow> nat \<Rightarrow> 'a res" where
  "read_at xs i = (if i < length xs then Inr (xs ! i) else Inl Out_Of_Bounds)"

definition write_at :: "'a list \<Rightarrow> nat \<Rightarrow> 'a \<Rightarrow> 'a list res" where
  "write_at xs i x = (if i < length xs then Inr (xs[i := x]) else Inl Out_Of_Bounds)"

text \<open>Element access of \<open>Vector\<close>, \<open>Span\<close> and \<open>Array\<close>, which \<open>VERIFY\<close> the index.\<close>

definition vec_at :: "'a list \<Rightarrow> nat \<Rightarrow> 'a res" where
  "vec_at xs i = verify (i < length xs) (Inr (xs ! i))"

definition vec_set :: "'a list \<Rightarrow> nat \<Rightarrow> 'a \<Rightarrow> 'a list res" where
  "vec_set xs i x = verify (i < length xs) (Inr (xs[i := x]))"

lemma rbind_simps [simp]:
  "rbind (Inl e) f = Inl e"
  "rbind (Inr x) f = f x"
  by (simp_all add: rbind_def)

lemma rbind_Inr_iff [res_simps]: "rbind m f = Inr y \<longleftrightarrow> (\<exists>x. m = Inr x \<and> f x = Inr y)"
  by (cases m) simp_all

lemma verify_Inr_iff [res_simps]: "verify b k = Inr y \<longleftrightarrow> b \<and> k = Inr y"
  by (simp add: verify_def)

lemma verify_True [simp]: "verify True k = k"
  by (simp add: verify_def)

lemma verify_False [simp]: "verify False k = Inl Verify_Failed"
  by (simp add: verify_def)

lemma verify_holds: "b \<Longrightarrow> verify b k = k"
  by (simp add: verify_def)

lemma read_at_Inr_iff [res_simps]: "read_at xs i = Inr x \<longleftrightarrow> i < length xs \<and> xs ! i = x"
  by (simp add: read_at_def)

lemma write_at_Inr_iff [res_simps]: "write_at xs i x = Inr ys \<longleftrightarrow> i < length xs \<and> ys = xs[i := x]"
  by (auto simp: write_at_def)

lemma read_at_ok: "i < length xs \<Longrightarrow> read_at xs i = Inr (xs ! i)"
  by (simp add: read_at_def)

lemma write_at_ok: "i < length xs \<Longrightarrow> write_at xs i x = Inr (xs[i := x])"
  by (simp add: write_at_def)

lemma vec_at_ok: "i < length xs \<Longrightarrow> vec_at xs i = Inr (xs ! i)"
  by (simp add: vec_at_def)

lemma vec_set_ok: "i < length xs \<Longrightarrow> vec_set xs i x = Inr (xs[i := x])"
  by (simp add: vec_set_def)

section \<open>Sizes\<close>

definition usz :: "nat \<Rightarrow> nat" where
  "usz n = n mod 2 ^ 32"

lemma usz_small [simp]: "n < 2 ^ 32 \<Longrightarrow> usz n = n"
  by (simp add: usz_def)

lemma usz_less [simp]: "usz n < 2 ^ 32"
  by (simp add: usz_def)

text \<open>A \<open>size_t\<close> difference.\<close>

definition usub :: "nat \<Rightarrow> nat \<Rightarrow> nat" where
  "usub a b = usz (a + (2 ^ 32 - usz b))"

lemma usub_le [simp]: "b \<le> a \<Longrightarrow> a < 2 ^ 32 \<Longrightarrow> usub a b = a - b"
proof -
  assume "b \<le> a" "a < 2 ^ 32"
  then have "a + (2 ^ 32 - usz b) = (a - b) + 2 ^ 32" by simp
  then show "usub a b = a - b"
    unfolding usub_def usz_def using \<open>a < 2 ^ 32\<close> by (simp only: mod_add_self2) simp
qed

text \<open>\<open>ceil_div\<close> of \<open>base/StdLibExtras.h\<close>.\<close>

definition ceil_div :: "nat \<Rightarrow> nat \<Rightarrow> nat" where
  "ceil_div a b = (let result = a div b in if a mod b \<noteq> 0 then result + 1 else result)"

lemma ceil_div_eq:
  assumes b: "0 < b"
  shows "ceil_div a b = (a + b - 1) div b"
proof -
  define q r where "q = a div b" and "r = a mod b"
  have a: "a = q * b + r" and r: "r < b" using b by (simp_all add: q_def r_def)
  show ?thesis
  proof (cases "r = 0")
    case True
    have "(a + b - 1) div b = ((b - 1) + q * b) div b"
      using a b True by (simp add: add.commute)
    also have "\<dots> = q" using b by (subst div_mult_self1) simp_all
    finally show ?thesis using True by (simp add: ceil_div_def q_def r_def)
  next
    case False
    have "a + b - 1 = (r - 1) + Suc q * b" using a False by simp
    then have "(a + b - 1) div b = Suc q"
      using b r by (simp only: div_mult_self1) simp
    then show ?thesis using False by (simp add: ceil_div_def q_def r_def)
  qed
qed

lemma less_ceil_div_iff:
  assumes "0 < b"
  shows "k < ceil_div a b \<longleftrightarrow> k * b < a"
proof -
  have "k < ceil_div a b \<longleftrightarrow> Suc k \<le> (a + b - 1) div b" using assms by (simp add: ceil_div_eq Suc_le_eq)
  also have "\<dots> \<longleftrightarrow> Suc k * b \<le> a + b - 1" using assms by (rule less_eq_div_iff_mult_less_eq)
  also have "\<dots> \<longleftrightarrow> k * b < a" using assms by (cases b) auto
  finally show ?thesis .
qed

lemma div_mod_8: "(x::nat) = x div 8 * 8 + x mod 8" "x mod 8 < 8"
  by simp_all

lemma round_up_8: "x + (8 - x mod 8) = (x div 8 + 1) * (8::nat)"
proof -
  define q r where "q = x div 8" and "r = x mod 8"
  have "x = q * 8 + r" "r < 8" by (simp_all add: q_def r_def)
  then show ?thesis by (simp flip: q_def r_def)
qed

lemma aligned_step:
  assumes "p mod k = 0" "l mod k = 0" "p < (l::nat)"
  shows "p + k \<le> l"
proof -
  have "k dvd l - p" using assms(1,2) by (intro dvd_diff_nat) auto
  then have "k \<le> l - p" using assms(3) by (intro dvd_imp_le) auto
  then show ?thesis using assms(3) by simp
qed

section \<open>Blocks of memory\<close>

text \<open>\<open>__builtin_memset\<close> and \<open>__builtin_memcpy\<close> on a block, faulting outside it.\<close>

definition memset_at :: "'a list \<Rightarrow> nat \<Rightarrow> 'a \<Rightarrow> nat \<Rightarrow> 'a list res" where
  "memset_at xs i x n =
     (if i + n \<le> length xs then Inr (take i xs @ replicate n x @ drop (i + n) xs) else Inl Out_Of_Bounds)"

definition memcpy_at :: "'a list \<Rightarrow> nat \<Rightarrow> 'a list \<Rightarrow> nat \<Rightarrow> 'a list res" where
  "memcpy_at dst i src n =
     (if i + n \<le> length dst \<and> n \<le> length src
      then Inr (take i dst @ take n src @ drop (i + n) dst) else Inl Out_Of_Bounds)"

lemma memset_at_Inr_iff [res_simps]:
  "memset_at xs i x n = Inr ys \<longleftrightarrow> i + n \<le> length xs \<and> ys = take i xs @ replicate n x @ drop (i + n) xs"
  by (auto simp: memset_at_def)

lemma memset_at_ok:
  "i + n \<le> length xs \<Longrightarrow> memset_at xs i x n = Inr (take i xs @ replicate n x @ drop (i + n) xs)"
  by (simp add: memset_at_def)

lemma length_memset: "i + n \<le> length xs \<Longrightarrow> length (take i xs @ replicate n x @ drop (i + n) xs) = length xs"
  by simp

lemma nth_memset:
  "i + n \<le> length xs \<Longrightarrow> j < length xs \<Longrightarrow>
   (take i xs @ replicate n x @ drop (i + n) xs) ! j = (if i \<le> j \<and> j < i + n then x else xs ! j)"
  by (auto simp: nth_append not_less)

lemma memcpy_at_ok:
  "i + n \<le> length dst \<Longrightarrow> n \<le> length src \<Longrightarrow>
   memcpy_at dst i src n = Inr (take i dst @ take n src @ drop (i + n) dst)"
  by (simp add: memcpy_at_def)

lemma nth_memcpy:
  "i + n \<le> length dst \<Longrightarrow> n \<le> length src \<Longrightarrow> j < length dst \<Longrightarrow>
   (take i dst @ take n src @ drop (i + n) dst) ! j = (if i \<le> j \<and> j < i + n then src ! (j - i) else dst ! j)"
  by (auto simp: nth_append not_less min_absorb2)

section \<open>Bits\<close>

text \<open>\<open>__builtin_ctz\<close>, undefined at 0, \<open>__builtin_ffs\<close> and \<open>__builtin_popcount\<close>.\<close>

definition low_zeros :: "'a::len word \<Rightarrow> nat" where
  "low_zeros w = length (takeWhile (\<lambda>k. \<not> bit w k) [0..<LENGTH('a)])"

definition ctz :: "'a::len word \<Rightarrow> nat res" where
  "ctz w = (if w = 0 then Inl Undefined_Behaviour else Inr (low_zeros w))"

definition ffs :: "'a::len word \<Rightarrow> nat" where
  "ffs w = (if w = 0 then 0 else low_zeros w + 1)"

definition popcount :: "'a::len word \<Rightarrow> nat" where
  "popcount w = length (filter (bit w) [0..<LENGTH('a)])"

lemma takeWhile_upt_props:
  assumes "k < length (takeWhile P [0..<n])"
  shows "P k"
proof -
  have "takeWhile P [0..<n] ! k = k"
    using assms length_takeWhile_le [of P "[0..<n]"] by (simp add: takeWhile_nth)
  moreover have "takeWhile P [0..<n] ! k \<in> set (takeWhile P [0..<n])"
    using assms by (rule nth_mem)
  ultimately show ?thesis by (metis set_takeWhileD)
qed

lemma low_zeros_le: "low_zeros (w::'a::len word) \<le> LENGTH('a)"
  unfolding low_zeros_def using length_takeWhile_le [of _ "[0..<LENGTH('a)]"] by simp

lemma low_zeros_0 [simp]: "low_zeros (0::'a::len word) = LENGTH('a)"
proof -
  have "takeWhile (\<lambda>k. \<not> bit (0::'a word) k) [0..<LENGTH('a)] = [0..<LENGTH('a)]"
    by (simp add: takeWhile_eq_all_conv)
  then show ?thesis by (simp only: low_zeros_def) simp
qed

lemma bit_below_low_zeros: "k < low_zeros w \<Longrightarrow> \<not> bit w k"
  unfolding low_zeros_def using takeWhile_upt_props by fast

lemma low_zeros_less: "w \<noteq> 0 \<Longrightarrow> low_zeros (w::'a::len word) < LENGTH('a)"
proof (rule ccontr)
  assume w: "w \<noteq> 0" and "\<not> low_zeros w < LENGTH('a)"
  then have "low_zeros w = LENGTH('a)" using low_zeros_le [of w] by simp
  then have "\<not> bit w k" for k
    using bit_below_low_zeros [of k w] bit_imp_le_length [of w k] by linarith
  then have "w = 0" by (simp add: bit_eq_iff)
  with w show False by simp
qed

lemma bit_at_low_zeros: "w \<noteq> 0 \<Longrightarrow> bit w (low_zeros (w::'a::len word))"
proof -
  assume w: "w \<noteq> 0"
  have less: "length (takeWhile (\<lambda>k. \<not> bit w k) [0..<LENGTH('a)]) < length [0..<LENGTH('a)]"
    using low_zeros_less [OF w] by (simp add: low_zeros_def)
  from nth_length_takeWhile [OF less] show ?thesis
    using less by (simp add: low_zeros_def)
qed

lemma ctz_Inr_iff [res_simps]: "ctz w = Inr n \<longleftrightarrow> w \<noteq> 0 \<and> n = low_zeros w"
  by (auto simp: ctz_def)

text \<open>A statement on small words, by evaluation.\<close>

lemma small_word_cases:
  assumes "\<forall>k\<in>set [0..<n]. P (of_nat k :: 'a::len word)" "unat w < n"
  shows "P w"
proof -
  have "P (of_nat (unat w))" using assms by (intro bspec [OF assms(1)]) simp
  then show ?thesis by simp
qed

lemma unat_drop_bit: "unat (drop_bit n w) = unat w div 2 ^ n"
  by (rule trans [OF unat_drop_bit_eq]) (simp add: drop_bit_eq_div)

lemma sint_small: "unat c < 128 \<Longrightarrow> sint (c :: u8) = int (unat c)"
proof -
  define n where "n = unat c"
  assume "unat c < 128"
  then have "signed_take_bit 7 (int n) = int n"
    unfolding n_def [symmetric] by (intro signed_take_bit_int_eq_self) simp_all
  moreover have "sint c = signed_take_bit 7 (uint c)" by (simp only: sint_uint) simp
  ultimately show ?thesis by (simp only: n_def uint_nat)
qed

section \<open>Control flow\<close>

text \<open>
  A loop body that may return from the enclosing function yields \<open>Return r\<close>; one that
  falls through to the code after the loop yields \<open>Continue s\<close> with the loop's state.
\<close>

datatype ('r, 's) flow = Return 'r | Continue 's

lemma rbind_cong [fundef_cong]:
  "m = m' \<Longrightarrow> (\<And>x. m' = Inr x \<Longrightarrow> f x = f' x) \<Longrightarrow> rbind m f = rbind m' f'"
  by (cases m') simp_all

lemma verify_cong [fundef_cong]: "b = b' \<Longrightarrow> (b' \<Longrightarrow> k = k') \<Longrightarrow> verify b k = verify b' k'"
  by (simp add: verify_def)

text \<open>
  A loop that may not end returns \<open>'a res option\<close>, with \<open>None\<close> for not returning;
  \<open>xbind\<close> sequences such computations and \<open>lift_res\<close> enters one from an outcome.
\<close>

definition lift_res :: "'a res \<Rightarrow> ('a \<Rightarrow> 'b res option) \<Rightarrow> 'b res option" where
  "lift_res r f = (case r of Inl e \<Rightarrow> Some (Inl e) | Inr x \<Rightarrow> f x)"

definition xbind :: "'a res option \<Rightarrow> ('a \<Rightarrow> 'b res option) \<Rightarrow> 'b res option" where
  "xbind m f = Option.bind m (\<lambda>r. lift_res r f)"

lemma lift_res_simps [simp]:
  "lift_res (Inl e) f = Some (Inl e)"
  "lift_res (Inr x) f = f x"
  by (simp_all add: lift_res_def)

lemma xbind_simps [simp]:
  "xbind None f = None"
  "xbind (Some r) f = lift_res r f"
  by (simp_all add: xbind_def)

lemma lift_res_mono [partial_function_mono]:
  "(\<And>x. mono_option (\<lambda>f. C x f)) \<Longrightarrow> mono_option (\<lambda>f. lift_res r (\<lambda>x. C x f))"
  by (cases r) (simp_all add: option.const_mono)

lemma xbind_mono [partial_function_mono]:
  "mono_option B \<Longrightarrow> (\<And>x. mono_option (\<lambda>f. C x f)) \<Longrightarrow> mono_option (\<lambda>f. xbind (B f) (\<lambda>x. C x f))"
  unfolding xbind_def by (intro bind_mono lift_res_mono)

section \<open>Byte order\<close>

text \<open>The target is little-endian: a \<open>u32\<close> read through a byte pointer.\<close>

definition le32 :: "u8 \<Rightarrow> u8 \<Rightarrow> u8 \<Rightarrow> u8 \<Rightarrow> u32" where
  "le32 b0 b1 b2 b3 = ucast b0 OR push_bit 8 (ucast b1) OR push_bit 16 (ucast b2) OR push_bit 24 (ucast b3)"

definition load_le32 :: "u8 list \<Rightarrow> nat \<Rightarrow> u32 res" where
  "load_le32 xs i =
     rbind (read_at xs i) (\<lambda>b0. rbind (read_at xs (i + 1)) (\<lambda>b1.
     rbind (read_at xs (i + 2)) (\<lambda>b2. rbind (read_at xs (i + 3)) (\<lambda>b3. Inr (le32 b0 b1 b2 b3)))))"

definition bytes_le32 :: "u32 \<Rightarrow> u8 list" where
  "bytes_le32 w = [ucast w, ucast (drop_bit 8 w), ucast (drop_bit 16 w), ucast (drop_bit 24 w)]"

lemma bit_le32:
  "bit (le32 b0 b1 b2 b3) k \<longleftrightarrow>
     (if k < 8 then bit b0 k else if k < 16 then bit b1 (k - 8)
      else if k < 24 then bit b2 (k - 16) else bit b3 (k - 24))"
  by (auto simp: le32_def bit_or_iff bit_push_bit_iff bit_ucast_iff not_less dest: bit_imp_le_length)

lemma bit_le32_nth:
  assumes "k < 32"
  shows "bit (le32 (xs ! j) (xs ! (j + 1)) (xs ! (j + 2)) (xs ! (j + 3))) k \<longleftrightarrow> bit (xs ! (j + k div 8)) (k mod 8)"
proof -
  consider "k < 8" | "8 \<le> k" "k < 16" | "16 \<le> k" "k < 24" | "24 \<le> k" by linarith
  then show ?thesis
  proof cases
    case 1
    then show ?thesis by (simp add: bit_le32)
  next
    case 2
    then have "k div 8 = 1" "k mod 8 = k - 8" by arith+
    with 2 show ?thesis by (simp add: bit_le32)
  next
    case 3
    then have "k div 8 = 2" "k mod 8 = k - 16" by arith+
    with 3 show ?thesis by (simp add: bit_le32)
  next
    case 4
    with assms have "k div 8 = 3" "k mod 8 = k - 24" by arith+
    with 4 show ?thesis by (simp add: bit_le32)
  qed
qed

lemma load_le32_ok:
  "i + 3 < length xs \<Longrightarrow>
     load_le32 xs i = Inr (le32 (xs ! i) (xs ! (i + 1)) (xs ! (i + 2)) (xs ! (i + 3)))"
  by (simp add: load_le32_def read_at_ok)

lemma le32_bytes_le32:
  "le32 (ucast w) (ucast (drop_bit 8 w)) (ucast (drop_bit 16 w)) (ucast (drop_bit 24 w)) = w"
  by (rule bit_word_eqI) (auto simp: bit_le32 bit_ucast_iff bit_drop_bit_eq)

text \<open>A \<open>u32\<close> stored through a byte pointer.\<close>

definition store_le32 :: "u8 list \<Rightarrow> nat \<Rightarrow> u32 \<Rightarrow> u8 list res" where
  "store_le32 xs i w = memcpy_at xs i (bytes_le32 w) 4"

lemma store_le32_ok:
  assumes "i + 3 < length xs"
  shows "\<exists>ys. store_le32 xs i w = Inr ys \<and> length ys = length xs \<and> load_le32 ys i = Inr w \<and>
    (\<forall>j<length xs. j < i \<or> i + 4 \<le> j \<longrightarrow> ys ! j = xs ! j)"
proof -
  define ys where "ys = take i xs @ take 4 (bytes_le32 w) @ drop (i + 4) xs"
  have l: "length (bytes_le32 w) = 4" by (simp add: bytes_le32_def)
  have s: "store_le32 xs i w = Inr ys" "length ys = length xs"
    using assms l by (simp_all add: store_le32_def memcpy_at_ok ys_def)
  have nth: "ys ! j = (if i \<le> j \<and> j < i + 4 then bytes_le32 w ! (j - i) else xs ! j)" if "j < length xs" for j
    unfolding ys_def using that assms l by (intro nth_memcpy) simp_all
  have "load_le32 ys i = Inr (le32 (ys ! i) (ys ! (i + 1)) (ys ! (i + 2)) (ys ! (i + 3)))"
    using assms s(2) by (intro load_le32_ok) simp
  also have "\<dots> = Inr w"
    using assms nth [of i] nth [of "i + 1"] nth [of "i + 2"] nth [of "i + 3"]
    by (simp add: bytes_le32_def le32_bytes_le32)
  finally show ?thesis using s nth by auto
qed

lemma load_le32_cong:
  assumes "length ys = length xs" "\<And>j. i \<le> j \<Longrightarrow> j < i + 4 \<Longrightarrow> j < length xs \<Longrightarrow> ys ! j = xs ! j"
  shows "load_le32 ys i = load_le32 xs i"
  using assms by (simp add: load_le32_def read_at_def)

end
