(* ===== verification/Bitmap_View.thy ===== *)
theory Bitmap_View
  imports Prelude
begin

text \<open>
  \<open>base/BitmapView.h\<close>: a view of a bit array stored in bytes. The view keeps the address of
  its first byte (the code rounds addresses to multiples of 4), the bytes that may be accessed
  from there on, and the number of bits.
\<close>

section \<open>State\<close>

record bitmap_view =
  bm_addr :: nat
  bm_data :: "u8 list"
  bm_size :: nat

definition bitmask_first_byte :: "u8 list" where
  "bitmask_first_byte = [0xFF, 0xFE, 0xFC, 0xF8, 0xF0, 0xE0, 0xC0, 0x80]"

definition bitmask_last_byte :: "u8 list" where
  "bitmask_last_byte = [0x00, 0x1, 0x3, 0x7, 0xF, 0x1F, 0x3F, 0x7F]"

definition max_size :: nat where
  "max_size = 0xffffffff"

definition BitmapView_size_in_bytes :: "'a bitmap_view_scheme \<Rightarrow> nat" where
  "BitmapView_size_in_bytes v = ceil_div (bm_size v) 8"

definition BitmapView_is_null :: "'a bitmap_view_scheme \<Rightarrow> bool" where
  "BitmapView_is_null v \<longleftrightarrow> bm_addr v = 0"

section \<open>Single bits\<close>

definition BitmapView_get :: "'a bitmap_view_scheme \<Rightarrow> nat \<Rightarrow> bool res" where
  "BitmapView_get v index =
     verify (index < bm_size v)
       (rbind (read_at (bm_data v) (index div 8)) (\<lambda>byte.
          Inr (0 \<noteq> (ucast byte :: u32) AND push_bit (index mod 8) 1)))"

definition BitmapView_set :: "'a bitmap_view_scheme \<Rightarrow> nat \<Rightarrow> bool \<Rightarrow> 'a bitmap_view_scheme res" where
  "BitmapView_set v index value =
     verify (index < bm_size v)
       (rbind (read_at (bm_data v) (index div 8)) (\<lambda>byte.
        rbind (write_at (bm_data v) (index div 8)
          (if value then byte OR ucast (push_bit (index mod 8) (1::u32))
           else byte AND ucast (NOT (push_bit (index mod 8) (1::u32))))) (\<lambda>data.
        Inr (v\<lparr>bm_data := data\<rparr>))))"

section \<open>Counting\<close>

text \<open>Reads through a byte or word pointer given by its address.\<close>

definition read_addr :: "'a bitmap_view_scheme \<Rightarrow> nat \<Rightarrow> u8 res" where
  "read_addr v a =
     (if bm_addr v \<le> a then read_at (bm_data v) (a - bm_addr v) else Inl Out_Of_Bounds)"

definition read_addr32 :: "'a bitmap_view_scheme \<Rightarrow> nat \<Rightarrow> u32 res" where
  "read_addr32 v a =
     (if bm_addr v \<le> a then load_le32 (bm_data v) (a - bm_addr v) else Inl Out_Of_Bounds)"

text \<open>\<open>p & ~(sizeof(u32) - 1)\<close> on an address.\<close>

definition align_down4 :: "nat \<Rightarrow> nat" where
  "align_down4 a = a div 4 * 4"

function count_bytes :: "'a bitmap_view_scheme \<Rightarrow> nat \<Rightarrow> nat \<Rightarrow> nat \<Rightarrow> nat res" where
  "count_bytes v first last_p count =
     (if first < last_p
      then rbind (read_addr v first) (\<lambda>b. count_bytes v (first + 1) last_p (count + popcount b))
      else Inr count)"
  by pat_completeness auto
termination
  by (relation "measure (\<lambda>(v, first, last_p, count). last_p - first)") auto

function count_words :: "'a bitmap_view_scheme \<Rightarrow> nat \<Rightarrow> nat \<Rightarrow> nat \<Rightarrow> (nat \<times> nat) res" where
  "count_words v ptr32 last32 count =
     (if ptr32 < last32
      then rbind (read_addr32 v ptr32) (\<lambda>w. count_words v (ptr32 + 4) last32 (count + popcount w))
      else Inr (ptr32, count))"
  by pat_completeness auto
termination
  by (relation "measure (\<lambda>(v, p, l, count). l - p)") auto

text \<open>The bytes strictly between the first and the last one: byte-wise up to the first aligned
  word, word-wise up to the last one, byte-wise again.\<close>

definition count_middle :: "'a bitmap_view_scheme \<Rightarrow> nat \<Rightarrow> nat \<Rightarrow> nat \<Rightarrow> nat res" where
  "count_middle v first last_p count =
     (let up = align_down4 (first + 3);
          ptr32 = (if up > last_p then last_p else up)
      in rbind (count_bytes v first ptr32 count) (\<lambda>count.
         rbind (count_words v ptr32 (align_down4 last_p) count) (\<lambda>(ptr32, count).
         count_bytes v ptr32 last_p count)))"

definition BitmapView_count_in_range ::
  "'a bitmap_view_scheme \<Rightarrow> nat \<Rightarrow> nat \<Rightarrow> bool \<Rightarrow> nat res" where
  "BitmapView_count_in_range v start len value =
     verify (start < bm_size v) (verify (usz (start + len) \<le> bm_size v)
     (if len = 0 then Inr 0
      else let first = bm_addr v + start div 8;
               last_p = bm_addr v + usz (start + len) div 8
           in rbind (read_addr v first) (\<lambda>byte0.
              let byte = byte0 AND bitmask_first_byte ! (start mod 8) in
              rbind
                (if first = last_p
                 then Inr (popcount (byte AND bitmask_last_byte ! (usz (start + len) mod 8)))
                 else rbind
                   (if last_p < bm_addr v + BitmapView_size_in_bytes v
                    then rbind (read_addr v last_p) (\<lambda>byte1.
                           Inr (popcount byte
                              + popcount (byte1 AND bitmask_last_byte ! (usz (start + len) mod 8))))
                    else Inr (popcount byte)) (\<lambda>count.
                   if first + 1 < last_p then count_middle v (first + 1) last_p count
                   else Inr count)) (\<lambda>count.
              Inr (if \<not> value then len - count else count)))))"

definition BitmapView_count_slow :: "'a bitmap_view_scheme \<Rightarrow> bool \<Rightarrow> nat res" where
  "BitmapView_count_slow v value = BitmapView_count_in_range v 0 (bm_size v) value"

section \<open>Searching for one bit\<close>

text \<open>\<open>while (i < n && m_data[i] == byte) i++\<close> and the same on 32-bit words.\<close>

function scan_bytes :: "'a bitmap_view_scheme \<Rightarrow> u8 \<Rightarrow> nat \<Rightarrow> nat \<Rightarrow> nat res" where
  "scan_bytes v byte i n =
     (if i < n
      then rbind (read_at (bm_data v) i) (\<lambda>b. if b = byte then scan_bytes v byte (i + 1) n else Inr i)
      else Inr i)"
  by pat_completeness auto
termination
  by (relation "measure (\<lambda>(v, byte, i, n). n - i)") auto

function scan_words :: "'a bitmap_view_scheme \<Rightarrow> u32 \<Rightarrow> nat \<Rightarrow> nat \<Rightarrow> nat res" where
  "scan_words v val32 ptr32 end32 =
     (if ptr32 < end32
      then rbind (read_addr32 v ptr32)
             (\<lambda>w. if w = val32 then scan_words v val32 (ptr32 + 4) end32 else Inr ptr32)
      else Inr ptr32)"
  by pat_completeness auto
termination
  by (relation "measure (\<lambda>(v, val32, p, e). e - p)") auto

text \<open>
  The tail shared by the searches: take byte \<open>i\<close>, complement it when looking for an unset
  bit, and return the position of its lowest set bit.
\<close>

definition found_in_byte :: "bool \<Rightarrow> 'a bitmap_view_scheme \<Rightarrow> nat \<Rightarrow> nat res" where
  "found_in_byte VALUE v i =
     rbind (read_at (bm_data v) i) (\<lambda>b.
       let byte = (if VALUE then b else NOT b) in
       verify (byte \<noteq> 0) (Inr (i * 8 + ffs byte - 1)))"

definition BitmapView_find_first :: "bool \<Rightarrow> 'a bitmap_view_scheme \<Rightarrow> nat option res" where
  "BitmapView_find_first VALUE v =
     (let byte_count = bm_size v div 8 in
      rbind (scan_bytes v (if VALUE then 0x00 else 0xff) 0 byte_count) (\<lambda>i.
        if i = byte_count then Inr None
        else rbind (found_in_byte VALUE v i) (\<lambda>r. Inr (Some r))))"

text \<open>The bytes before the first aligned word, when the data does not start on one.\<close>

definition find_one_head ::
  "bool \<Rightarrow> 'a bitmap_view_scheme \<Rightarrow> nat \<Rightarrow> (nat, nat) flow res" where
  "find_one_head VALUE v ptr32 =
     (if ptr32 < bm_addr v
      then let start_ptr32 = ptr32 + 4 - bm_addr v in
           rbind (scan_bytes v (if VALUE then 0x00 else 0xff) 0 start_ptr32) (\<lambda>i.
             if i < start_ptr32 then rbind (found_in_byte VALUE v i) (\<lambda>r. Inr (Return r))
             else Inr (Continue (ptr32 + 4)))
      else Inr (Continue ptr32))"

function find_one_loop ::
  "bool \<Rightarrow> 'a bitmap_view_scheme \<Rightarrow> nat \<Rightarrow> nat \<Rightarrow> nat option res" where
  "find_one_loop VALUE v end hint =
     rbind (find_one_head VALUE v (align_down4 (bm_addr v + hint div 8))) (\<lambda>fl.
       case fl of
         Return r \<Rightarrow> Inr (Some r)
       | Continue ptr32 \<Rightarrow>
           rbind (scan_words v (if VALUE then 0x0 else 0xffffffff) ptr32 (align_down4 end)) (\<lambda>ptr32.
             if ptr32 = align_down4 end
             then let i = ptr32 - bm_addr v; byte_count = bm_size v div 8 in
                  verify (i \<le> byte_count)
                    (rbind (scan_bytes v (if VALUE then 0x00 else 0xff) i byte_count) (\<lambda>i.
                       if i = byte_count
                       then if hint \<le> 8 then Inr None
                            else find_one_loop VALUE v (align_down4 (bm_addr v + hint div 8)) 0
                       else rbind (found_in_byte VALUE v i) (\<lambda>r. Inr (Some r))))
             else rbind (read_addr32 v ptr32) (\<lambda>w.
                  let val32 = (if VALUE then w else NOT w) in
                  verify (val32 \<noteq> 0) (Inr (Some ((ptr32 - bm_addr v) * 8 + ffs val32 - 1))))))"
  by pat_completeness auto
termination
  by (relation "measure (\<lambda>(VALUE, v, end, hint). hint)") auto

definition BitmapView_find_one_anywhere ::
  "bool \<Rightarrow> 'a bitmap_view_scheme \<Rightarrow> nat \<Rightarrow> nat option res" where
  "BitmapView_find_one_anywhere VALUE v hint =
     verify (hint < bm_size v) (find_one_loop VALUE v (bm_addr v + bm_size v div 8) hint)"

declare count_bytes.simps [simp del] count_words.simps [simp del]
  scan_bytes.simps [simp del] scan_words.simps [simp del] find_one_loop.simps [simp del]

section \<open>Searching for ranges of unset bits\<close>

text \<open>
  The inner \<open>while (viewed_bits < 32)\<close> loop over one 32-bit bucket. It either returns the
  length found together with the start that was stored through \<open>from\<close>, or falls through
  with the start and the number of free bits that reach the end of the bucket.
\<close>

lemma low_zeros_shift_progress:
  fixes bucket :: u32
  assumes "bucket \<noteq> 0"
  shows "0 < low_zeros bucket + low_zeros (NOT (drop_bit (low_zeros bucket) bucket))"
proof (rule ccontr)
  assume n: "\<not> 0 < low_zeros bucket + low_zeros (NOT (drop_bit (low_zeros bucket) bucket))"
  then have z: "low_zeros bucket = 0" by simp
  from n have o: "low_zeros (NOT bucket) = 0" unfolding z by simp
  from bit_at_low_zeros [OF assms] z have b: "bit bucket 0" by simp
  show False
  proof (cases "NOT bucket = 0")
    case True
    then show False using o by simp
  next
    case False
    from bit_at_low_zeros [OF this] o b show False by (simp add: bit_not_iff)
  qed
qed

function next_range_in_bucket ::
  "nat \<Rightarrow> nat \<Rightarrow> nat \<Rightarrow> nat \<Rightarrow> u32 \<Rightarrow> nat \<Rightarrow> nat \<Rightarrow> (nat \<times> nat, nat \<times> nat) flow res" where
  "next_range_in_bucket min_length max_length bucket_index viewed_bits bucket from free_chunks =
     (if viewed_bits < 32
      then if bucket = 0
           then next_range_in_bucket min_length max_length bucket_index 32 bucket
                  (if free_chunks = 0 then bucket_index * 32 + viewed_bits else from)
                  (free_chunks + (32 - viewed_bits))
           else rbind (ctz bucket) (\<lambda>trailing_zeroes.
                let bucket = drop_bit trailing_zeroes bucket;
                    from = (if free_chunks = 0 then bucket_index * 32 + viewed_bits else from);
                    free_chunks = free_chunks + trailing_zeroes;
                    viewed_bits = viewed_bits + trailing_zeroes
                in if free_chunks \<ge> min_length
                   then Inr (Return (min free_chunks max_length, from))
                   else rbind (ctz (NOT bucket)) (\<lambda>trailing_ones.
                        next_range_in_bucket min_length max_length bucket_index
                          (viewed_bits + trailing_ones) (drop_bit trailing_ones bucket) from 0))
      else Inr (Continue (from, free_chunks)))"
  by pat_completeness auto
termination
proof (relation "measure (\<lambda>(mn, mx, bi, viewed, bucket, from, free). 32 - viewed)", goal_cases)
  case 1
  then show ?case by simp
next
  case (2 mn mx bi viewed bucket fr free)
  then show ?case by simp
next
  case (3 mn mx bi viewed bucket fr free tz b' f' c' v' ones)
  with low_zeros_shift_progress [of bucket] show ?case
    by (auto simp: res_simps)
qed

declare next_range_in_bucket.simps [simp del]

text \<open>The outer loop over the whole 32-bit buckets of the view.\<close>

function next_range_in_buckets ::
  "'a bitmap_view_scheme \<Rightarrow> nat \<Rightarrow> nat \<Rightarrow> nat \<Rightarrow> nat \<Rightarrow> nat \<Rightarrow> nat \<Rightarrow> (nat \<times> nat, nat \<times> nat) flow res" where
  "next_range_in_buckets v min_length max_length bucket_index start_bucket_bit from free_chunks =
     (if bucket_index < bm_size v div 32
      then rbind (load_le32 (bm_data v) (bucket_index * 4)) (\<lambda>bucket.
           if bucket = 0xffffffff
           then if free_chunks \<ge> min_length
                then Inr (Return (min free_chunks max_length, from))
                else next_range_in_buckets v min_length max_length (bucket_index + 1) 0 from 0
           else if bucket = 0x0
           then let from = (if free_chunks = 0 then bucket_index * 32 else from);
                    free_chunks = free_chunks + 32
                in if free_chunks \<ge> max_length then Inr (Return (max_length, from))
                   else next_range_in_buckets v min_length max_length (bucket_index + 1) 0 from free_chunks
           else rbind (next_range_in_bucket min_length max_length bucket_index start_bucket_bit
                         (drop_bit start_bucket_bit bucket) from free_chunks) (\<lambda>fl.
                case fl of
                  Return r \<Rightarrow> Inr (Return r)
                | Continue (from, free_chunks) \<Rightarrow>
                    next_range_in_buckets v min_length max_length (bucket_index + 1) 0 from free_chunks))
      else Inr (Continue (from, free_chunks)))"
  by pat_completeness auto
termination
  by (relation "measure (\<lambda>(v, mn, mx, bi, sb, from, free). bm_size v div 32 - bi)") auto

declare next_range_in_buckets.simps [simp del]

text \<open>The loop over the bits behind the last whole bucket.\<close>

function next_range_in_tail ::
  "'a bitmap_view_scheme \<Rightarrow> nat \<Rightarrow> nat \<Rightarrow> nat \<Rightarrow> nat \<Rightarrow> nat \<Rightarrow> nat \<Rightarrow> (nat option \<times> nat) res" where
  "next_range_in_tail v min_length max_length i trailing_bits from free_chunks =
     (let first_trailing_bit = bm_size v div 32 * 32 in
      if i < trailing_bits
      then rbind (BitmapView_get v (first_trailing_bit + i)) (\<lambda>b.
           if \<not> b
           then let from = (if free_chunks = 0 then first_trailing_bit + i else from) in
                if free_chunks + 1 \<ge> min_length
                then Inr (Some (min (free_chunks + 1) max_length), from)
                else next_range_in_tail v min_length max_length (i + 1) trailing_bits from (free_chunks + 1)
           else next_range_in_tail v min_length max_length (i + 1) trailing_bits from 0)
      else Inr (None, from))"
  by pat_completeness auto
termination
  by (relation "measure (\<lambda>(v, mn, mx, i, n, from, free). n - i)") auto

declare next_range_in_tail.simps [simp del]

definition BitmapView_find_next_range_of_unset_bits ::
  "'a bitmap_view_scheme \<Rightarrow> nat \<Rightarrow> nat \<Rightarrow> nat \<Rightarrow> (nat option \<times> nat) res" where
  "BitmapView_find_next_range_of_unset_bits v from min_length max_length =
     (if min_length > max_length then Inr (None, from)
      else rbind (next_range_in_buckets v min_length max_length (from div 32) (from mod 32) from 0) (\<lambda>fl.
           case fl of
             Return (len, from) \<Rightarrow> Inr (Some len, from)
           | Continue (from, free_chunks) \<Rightarrow>
               if free_chunks < min_length
               then next_range_in_tail v min_length max_length 0 (bm_size v mod 32) from free_chunks
               else Inr (Some (min free_chunks max_length), from)))"

text \<open>
  The searches that call it in a loop. A loop that does not stop has no result: the functions
  below return \<open>None\<close> then and \<open>Some\<close> of the outcome otherwise.
\<close>

partial_function (option) find_longest_loop ::
  "'a bitmap_view_scheme \<Rightarrow> nat \<Rightarrow> nat \<Rightarrow> nat \<Rightarrow> nat \<Rightarrow> (nat \<times> nat) res option" where
  "find_longest_loop v max_length start max_region_start max_region_size =
     (case BitmapView_find_next_range_of_unset_bits v start (max_region_size + 1) max_length of
        Inl e \<Rightarrow> Some (Inl e)
      | Inr (Some len, start) \<Rightarrow> find_longest_loop v max_length (start + len) start len
      | Inr (None, start) \<Rightarrow> Some (Inr (max_region_start, max_region_size)))"

definition BitmapView_find_longest_range_of_unset_bits ::
  "'a bitmap_view_scheme \<Rightarrow> nat \<Rightarrow> (nat option \<times> nat) res option" where
  "BitmapView_find_longest_range_of_unset_bits v max_length =
     map_option (\<lambda>r. rbind r (\<lambda>(max_region_start, max_region_size).
         Inr (if max_region_size \<noteq> 0 then Some max_region_start else None, max_region_size)))
       (find_longest_loop v max_length 0 0 0)"

definition BitmapView_find_first_fit :: "'a bitmap_view_scheme \<Rightarrow> nat \<Rightarrow> nat option res" where
  "BitmapView_find_first_fit v minimum_length =
     rbind (BitmapView_find_next_range_of_unset_bits v 0 minimum_length minimum_length) (\<lambda>(len, start).
       Inr (if len \<noteq> None then Some start else None))"

partial_function (option) find_best_loop ::
  "'a bitmap_view_scheme \<Rightarrow> nat \<Rightarrow> nat \<Rightarrow> nat \<Rightarrow> nat \<Rightarrow> bool \<Rightarrow> (nat \<times> bool) res option" where
  "find_best_loop v minimum_length start best_region_start best_region_size found =
     (case BitmapView_find_next_range_of_unset_bits v start minimum_length best_region_size of
        Inl e \<Rightarrow> Some (Inl e)
      | Inr (Some len, start) \<Rightarrow>
          if best_region_size > len \<or> \<not> found
          then find_best_loop v minimum_length (start + len) start len True
          else find_best_loop v minimum_length (start + len) best_region_start best_region_size found
      | Inr (None, start) \<Rightarrow> Some (Inr (best_region_start, found)))"

definition BitmapView_find_best_fit :: "'a bitmap_view_scheme \<Rightarrow> nat \<Rightarrow> nat option res option" where
  "BitmapView_find_best_fit v minimum_length =
     map_option (\<lambda>r. rbind r (\<lambda>(best_region_start, found).
         Inr (if found then Some best_region_start else None)))
       (find_best_loop v minimum_length 0 0 max_size False)"

section \<open>The bits of a view\<close>

text \<open>
  \<open>bits v i\<close> is bit \<open>i\<close> of the array. A view is well formed when the memory behind it
  holds all its bytes and its size is a 32-bit value.
\<close>

definition bits :: "'a bitmap_view_scheme \<Rightarrow> nat \<Rightarrow> bool" where
  "bits v i = bit (bm_data v ! (i div 8)) (i mod 8)"

definition wf_view :: "'a bitmap_view_scheme \<Rightarrow> bool" where
  "wf_view v \<longleftrightarrow> BitmapView_size_in_bytes v \<le> length (bm_data v) \<and> bm_size v < 2 ^ 32"

lemma size_in_bytes_bound: "i < bm_size v \<Longrightarrow> i div 8 < BitmapView_size_in_bytes v"
  by (simp add: BitmapView_size_in_bytes_def ceil_div_eq)

lemma wf_view_byte: "wf_view v \<Longrightarrow> i < bm_size v \<Longrightarrow> i div 8 < length (bm_data v)"
  using size_in_bytes_bound [of i v] by (simp add: wf_view_def)

lemma and_exp_iff: "k < 8 \<Longrightarrow> (ucast (b::u8) :: u32) AND 2 ^ k \<noteq> 0 \<longleftrightarrow> bit b k"
proof -
  assume k: "k < 8"
  have "bit ((ucast b :: u32) AND 2 ^ k) n \<longleftrightarrow> n = k \<and> bit b k" for n
    using k by (auto simp: bit_and_iff bit_ucast_iff bit_exp_iff)
  then have "(ucast b :: u32) AND 2 ^ k = 0 \<longleftrightarrow> \<not> bit b k"
    by (metis bit_0_eq bit_word_eqI bot_apply bot_bool_def)
  then show ?thesis by simp
qed

lemma get_spec: "wf_view v \<Longrightarrow> i < bm_size v \<Longrightarrow> BitmapView_get v i = Inr (bits v i)"
  by (simp add: BitmapView_get_def wf_view_byte read_at_ok and_exp_iff bits_def)

lemma get_out_of_range: "bm_size v \<le> i \<Longrightarrow> BitmapView_get v i = Inl Verify_Failed"
  by (simp add: BitmapView_get_def verify_def)

lemma bit_set_mask:
  "k < 8 \<Longrightarrow> bit (b OR ucast (2 ^ k :: u32) :: u8) n \<longleftrightarrow> n = k \<or> bit b n"
  by (auto simp: bit_or_iff bit_ucast_iff bit_exp_iff)

lemma bit_clear_mask:
  "k < 8 \<Longrightarrow> bit (b AND ucast (NOT (2 ^ k) :: u32) :: u8) n \<longleftrightarrow> n \<noteq> k \<and> bit b n"
  by (auto simp: bit_and_iff bit_ucast_iff bit_not_iff bit_exp_iff dest: bit_imp_le_length)

lemma div_mod_eq_iff: "(i::nat) div 8 = j div 8 \<Longrightarrow> i mod 8 = j mod 8 \<longleftrightarrow> i = j"
  by (metis div_mult_mod_eq)

lemma bits_update_byte:
  assumes "i div 8 < length (bm_data v)"
    and "\<And>n. bit b n \<longleftrightarrow> (if n = i mod 8 then x else bit (bm_data v ! (i div 8)) n)"
  shows "bits (v\<lparr>bm_data := (bm_data v)[i div 8 := b]\<rparr>) j \<longleftrightarrow> (if j = i then x else bits v j)"
  using assms div_mod_eq_iff [of i j] by (auto simp: bits_def nth_list_update)

lemma set_spec:
  assumes "wf_view v" "i < bm_size v"
  shows "\<exists>v'. BitmapView_set v i x = Inr v' \<and> wf_view v' \<and> bm_size v' = bm_size v \<and>
    bm_addr v' = bm_addr v \<and> length (bm_data v') = length (bm_data v) \<and> bits v' = (bits v)(i := x)"
proof -
  have l: "i div 8 < length (bm_data v)" using assms by (rule wf_view_byte)
  define b where "b = bm_data v ! (i div 8)"
  define b' where "b' = (if x then b OR ucast (2 ^ (i mod 8) :: u32) else b AND ucast (NOT (2 ^ (i mod 8)) :: u32))"
  define v' where "v' = v\<lparr>bm_data := (bm_data v)[i div 8 := b']\<rparr>"
  have "BitmapView_set v i x = Inr v'"
    using assms l by (simp add: BitmapView_set_def read_at_ok write_at_ok v'_def b'_def b_def)
  moreover have "bit b' n \<longleftrightarrow> (if n = i mod 8 then x else bit (bm_data v ! (i div 8)) n)" for n
    by (auto simp: b'_def b_def bit_set_mask bit_clear_mask)
  then have "bits v' = (bits v)(i := x)"
    unfolding v'_def fun_eq_iff using bits_update_byte [OF l, of b' x] by simp
  moreover have "wf_view v'" using assms(1) by (simp add: wf_view_def v'_def BitmapView_size_in_bytes_def)
  ultimately show ?thesis by (auto simp: v'_def)
qed

lemma bucket_spec:
  assumes "wf_view v" "bi < bm_size v div 32"
  shows "\<exists>w. load_le32 (bm_data v) (bi * 4) = Inr w \<and> (\<forall>k<32. bit w k \<longleftrightarrow> bits v (bi * 32 + k))"
proof -
  have "bi * 32 + 31 < bm_size v" using assms(2) by arith
  from wf_view_byte [OF assms(1) this] have l: "bi * 4 + 3 < length (bm_data v)" by arith
  have "bit (le32 (bm_data v ! (bi * 4)) (bm_data v ! (bi * 4 + 1)) (bm_data v ! (bi * 4 + 2)) (bm_data v ! (bi * 4 + 3))) k
        \<longleftrightarrow> bits v (bi * 32 + k)" if "k < 32" for k
  proof -
    have "bi * 32 + k = k + bi * 4 * 8" by simp
    then have d: "(bi * 32 + k) div 8 = bi * 4 + k div 8" "(bi * 32 + k) mod 8 = k mod 8"
      by (simp_all only: div_mult_self1 mod_mult_self1)
    show ?thesis using bit_le32_nth [OF that] by (simp add: bits_def d)
  qed
  then show ?thesis using load_le32_ok [OF l] by auto
qed

end
