(* ===== verification/Bitmap_Count.thy ===== *)
theory Bitmap_Count
  imports Bitmap_View
begin

text \<open>
  Counting and single-bit searches of \<open>base/BitmapView.h\<close>: \<open>count_in_range\<close>, with its
  byte-wise head and tail and its word-wise middle, counts the bits of the range;
  \<open>find_first\<close> returns the least position of a bit value among the whole bytes;
  \<open>find_one_anywhere\<close> returns some such position, for data that starts on a word.
\<close>

section \<open>Counting\<close>

definition count_set :: "'a bitmap_view_scheme \<Rightarrow> nat \<Rightarrow> nat \<Rightarrow> nat" where
  "count_set v a b = length (filter (bits v) [a..<b])"

lemma count_set_split: "a \<le> b \<Longrightarrow> b \<le> c \<Longrightarrow> count_set v a c = count_set v a b + count_set v b c"
  by (metis count_set_def filter_append length_append le_add_diff_inverse upt_add_eq_append)

lemma count_set_empty [simp]: "b \<le> a \<Longrightarrow> count_set v a b = 0"
  by (simp add: count_set_def)

lemma length_filter_upt_range:
  assumes "a \<le> b" "b \<le> n" "\<And>k. k < n \<Longrightarrow> P k \<longleftrightarrow> a \<le> k \<and> k < b \<and> Q k"
  shows "length (filter P [0..<n]) = length (filter Q [a..<b])"
proof -
  have "[0..<n] = [0..<a] @ [a..<b] @ [b..<n]"
    using assms(1,2) by (metis le_add_diff_inverse upt_add_eq_append zero_le append_assoc)
  moreover have "filter P [0..<a] = []" "filter P [b..<n] = []"
    using assms by (auto simp: filter_empty_conv)
  moreover have "filter P [a..<b] = filter Q [a..<b]"
    using assms by (intro filter_cong) auto
  ultimately show ?thesis by simp
qed

lemma popcount_eq:
  assumes "a \<le> b" "b \<le> LENGTH('b)" "\<And>k. k < LENGTH('b) \<Longrightarrow> bit (w::'b::len word) k \<longleftrightarrow> a \<le> k \<and> k < b \<and> bits v (c + k)"
  shows "popcount w = count_set v (c + a) (c + b)"
proof -
  have "popcount w = length (filter (\<lambda>k. bits v (c + k)) [a..<b])"
    unfolding popcount_def using assms by (rule length_filter_upt_range)
  also have "\<dots> = length (filter (bits v) (map (\<lambda>k. c + k) [a..<b]))"
    by (simp add: filter_map comp_def)
  also have "map (\<lambda>k. c + k) [a..<b] = [c + a..<c + b]"
    by (rule nth_equalityI) simp_all
  finally show ?thesis by (simp add: count_set_def)
qed

lemma less_8_cases: "(k::nat) < 8 \<Longrightarrow> P 0 \<Longrightarrow> P 1 \<Longrightarrow> P 2 \<Longrightarrow> P 3 \<Longrightarrow> P 4 \<Longrightarrow> P 5 \<Longrightarrow> P 6 \<Longrightarrow> P 7 \<Longrightarrow> P k"
  by (simp add: numeral_eq_Suc less_Suc_eq) (elim disjE; simp)

lemma bitmask_first_byte_eq: "k < 8 \<Longrightarrow> bitmask_first_byte ! k = NOT (mask k)"
  by (erule less_8_cases) (simp_all add: bitmask_first_byte_def mask_eq_exp_minus_1)

lemma bitmask_last_byte_eq: "k < 8 \<Longrightarrow> bitmask_last_byte ! k = mask k"
  by (erule less_8_cases) (simp_all add: bitmask_last_byte_def mask_eq_exp_minus_1)

lemma bit_bitmask_first: "k < 8 \<Longrightarrow> n < 8 \<Longrightarrow> bit (bitmask_first_byte ! k) n \<longleftrightarrow> k \<le> n"
  by (simp add: bitmask_first_byte_eq bit_not_iff bit_mask_iff not_less)

lemma bit_bitmask_last: "k < 8 \<Longrightarrow> n < 8 \<Longrightarrow> bit (bitmask_last_byte ! k) n \<longleftrightarrow> n < k"
  by (simp add: bitmask_last_byte_eq bit_mask_iff)

lemma bits_of_byte: "k < 8 \<Longrightarrow> bits v (j * 8 + k) \<longleftrightarrow> bit (bm_data v ! j) k"
  by (simp add: bits_def)

lemma bits_word:
  assumes "k < 32"
  shows "bits v (j * 8 + k) \<longleftrightarrow>
    bit (le32 (bm_data v ! j) (bm_data v ! (j + 1)) (bm_data v ! (j + 2)) (bm_data v ! (j + 3))) k"
proof -
  have "(j * 8 + k) div 8 = j + k div 8" "(j * 8 + k) mod 8 = k mod 8" by simp_all
  then show ?thesis using bit_le32_nth [OF assms, of "bm_data v" j] by (simp add: bits_def)
qed

lemma count_bytes_spec:
  "bm_addr v \<le> a \<Longrightarrow> a \<le> b \<Longrightarrow> b - bm_addr v \<le> length (bm_data v) \<Longrightarrow>
   count_bytes v a b c = Inr (c + count_set v ((a - bm_addr v) * 8) ((b - bm_addr v) * 8))"
proof (induction "b - a" arbitrary: a c)
  case 0
  then show ?case by (subst count_bytes.simps) simp
next
  case (Suc n)
  then have ab: "a < b" by linarith
  define j where "j = a - bm_addr v"
  have j: "a = bm_addr v + j" "j < length (bm_data v)" using Suc.prems ab by (auto simp: j_def)
  have "popcount (bm_data v ! j) = count_set v (j * 8 + 0) (j * 8 + 8)"
    by (rule popcount_eq) (simp_all add: bits_of_byte)
  moreover have "count_set v (j * 8) ((b - bm_addr v) * 8)
      = count_set v (j * 8) (j * 8 + 8) + count_set v (j * 8 + 8) ((b - bm_addr v) * 8)"
    using ab j(1) by (intro count_set_split) auto
  moreover have "count_bytes v (a + 1) b (c + popcount (bm_data v ! j)) =
      Inr (c + popcount (bm_data v ! j) + count_set v (j * 8 + 8) ((b - bm_addr v) * 8))"
    using Suc.hyps(1) [of "a + 1"] Suc.hyps(2) Suc.prems ab j(1) by (simp add: algebra_simps)
  ultimately show ?case
    using ab j by (subst count_bytes.simps) (simp add: read_addr_def read_at_ok)
qed

lemma count_words_spec:
  "bm_addr v \<le> p \<Longrightarrow> p mod 4 = 0 \<or> l \<le> p \<Longrightarrow> l mod 4 = 0 \<Longrightarrow> l - bm_addr v \<le> length (bm_data v) \<Longrightarrow>
   count_words v p l c = Inr (max p l, c + count_set v ((p - bm_addr v) * 8) ((l - bm_addr v) * 8))"
proof (induction "l - p" arbitrary: p c rule: less_induct)
  case less
  show ?case
  proof (cases "p < l")
    case False
    then show ?thesis by (subst count_words.simps) (simp add: max_def)
  next
    case True
    then have pm: "p mod 4 = 0" using less.prems(2) by simp
    with True have pl: "p + 4 \<le> l" using less.prems(3) by (intro aligned_step)
    define j where "j = p - bm_addr v"
    have j: "p = bm_addr v + j" "j + 3 < length (bm_data v)"
      using less.prems pl by (auto simp: j_def)
    define w where "w = le32 (bm_data v ! j) (bm_data v ! (j + 1)) (bm_data v ! (j + 2)) (bm_data v ! (j + 3))"
    have "bit w k \<longleftrightarrow> bits v (j * 8 + k)" if "k < 32" for k
      by (simp only: w_def bits_word [OF that])
    then have tot: "popcount w = count_set v (j * 8 + 0) (j * 8 + 32)"
      by (intro popcount_eq) simp_all
    have split: "count_set v (j * 8) ((l - bm_addr v) * 8)
        = count_set v (j * 8) (j * 8 + 32) + count_set v (j * 8 + 32) ((l - bm_addr v) * 8)"
      using pl j(1) by (intro count_set_split) auto
    moreover have "l - (p + 4) < l - p" "(p + 4) mod 4 = 0" using pl pm by simp_all
    moreover have "(p + 4 - bm_addr v) * 8 = j * 8 + 32" using j(1) by simp
    moreover note less.hyps [of "p + 4" "c + popcount w"] less.prems
    ultimately have "count_words v (p + 4) l (c + popcount w) =
        Inr (max (p + 4) l, c + popcount w + count_set v (j * 8 + 32) ((l - bm_addr v) * 8))"
      by simp
    with tot split show ?thesis
      using True pl j by (subst count_words.simps) (simp add: read_addr32_def load_le32_ok w_def max_def)
  qed
qed


lemma align_down4_props: "align_down4 a mod 4 = 0" "align_down4 a \<le> a" "a < align_down4 a + 4"
proof -
  show "align_down4 a mod 4 = 0" by (simp add: align_down4_def)
  show "align_down4 a \<le> a" by (simp add: align_down4_def)
  show "a < align_down4 a + 4" unfolding align_down4_def
    using mod_less_divisor [of 4 a] div_mult_mod_eq [of a 4] by linarith
qed

lemma count_middle_spec:
  assumes "bm_addr v \<le> f" "f \<le> l" "l - bm_addr v \<le> length (bm_data v)"
  shows "count_middle v f l c = Inr (c + count_set v ((f - bm_addr v) * 8) ((l - bm_addr v) * 8))"
proof -
  define p where "p = (if align_down4 (f + 3) > l then l else align_down4 (f + 3))"
  define q where "q = max p (align_down4 l)"
  have p: "f \<le> p" "p \<le> l" "p mod 4 = 0 \<or> align_down4 l \<le> p"
    using align_down4_props [of "f + 3"] align_down4_props(2) [of l] assms(2) by (auto simp: p_def)
  have q: "p \<le> q" "q \<le> l" using p align_down4_props(2) [of l] by (auto simp: q_def)
  have c1: "count_bytes v f p c = Inr (c + count_set v ((f - bm_addr v) * 8) ((p - bm_addr v) * 8))" for c
    using assms p by (intro count_bytes_spec) auto
  have "count_words v p (align_down4 l) c
      = Inr (q, c + count_set v ((p - bm_addr v) * 8) ((align_down4 l - bm_addr v) * 8))" for c
    unfolding q_def using assms p align_down4_props [of l] by (intro count_words_spec) auto
  moreover have "count_set v ((p - bm_addr v) * 8) ((align_down4 l - bm_addr v) * 8)
      = count_set v ((p - bm_addr v) * 8) ((q - bm_addr v) * 8)"
    by (cases "align_down4 l \<le> p") (simp_all add: q_def max_def diff_le_mono)
  ultimately have c2: "count_words v p (align_down4 l) c
      = Inr (q, c + count_set v ((p - bm_addr v) * 8) ((q - bm_addr v) * 8))" for c
    by simp
  have c3: "count_bytes v q l c = Inr (c + count_set v ((q - bm_addr v) * 8) ((l - bm_addr v) * 8))" for c
    using assms p q by (intro count_bytes_spec) auto
  have "count_set v ((f - bm_addr v) * 8) ((l - bm_addr v) * 8)
     = count_set v ((f - bm_addr v) * 8) ((p - bm_addr v) * 8) + count_set v ((p - bm_addr v) * 8) ((q - bm_addr v) * 8)
       + count_set v ((q - bm_addr v) * 8) ((l - bm_addr v) * 8)"
    using p q by (simp add: diff_le_mono flip: count_set_split)
  then show ?thesis
    by (simp add: count_middle_def Let_def c1 c2 c3 flip: p_def)
qed

lemma popcount_byte_range:
  assumes "a \<le> b" "b \<le> 8" "\<And>k. k < 8 \<Longrightarrow> bit (w::u8) k \<longleftrightarrow> a \<le> k \<and> k < b \<and> bit (bm_data v ! j) k"
  shows "popcount w = count_set v (j * 8 + a) (j * 8 + b)"
  using assms by (intro popcount_eq) (simp_all add: bits_of_byte)

lemma count_in_range_set:
  assumes v: "wf_view v" and s: "start < bm_size v" "start + len \<le> bm_size v" "0 < len"
  shows "BitmapView_count_in_range v start len value =
    Inr (if value then count_set v start (start + len) else len - count_set v start (start + len))"
proof -
  define a j e k where "a = start mod 8" and "j = start div 8"
    and "e = (start + len) mod 8" and "k = (start + len) div 8"
  have st: "start = j * 8 + a" and en: "start + len = k * 8 + e" and a8: "a < 8" and e8: "e < 8"
    by (simp_all add: a_def j_def e_def k_def)
  have us: "usz (start + len) = start + len" using v s by (intro usz_small) (simp add: wf_view_def)
  have jl: "j < length (bm_data v)" unfolding j_def using v s(1) by (rule wf_view_byte)
  have jk: "j \<le> k" unfolding j_def k_def by (rule div_le_mono) simp
  have fin: "count_set v start (start + len) = count_set v (j * 8 + a) (k * 8 + e)"
    by (simp only: en) (simp only: st)
  define byte where "byte = bm_data v ! j AND bitmask_first_byte ! a"
  show ?thesis
  proof (cases "j = k")
    case True
    then have ae: "a < e" using st en s(3) by simp
    have "popcount (byte AND bitmask_last_byte ! e) = count_set v (j * 8 + a) (j * 8 + e)"
      using a8 e8 ae by (intro popcount_byte_range)
        (auto simp: byte_def bit_and_iff bit_bitmask_first bit_bitmask_last)
    then show ?thesis
      using s True jl us fin by (simp add: BitmapView_count_in_range_def read_addr_def read_at_ok
          byte_def flip: a_def j_def e_def k_def)
  next
    case False
    with jk have jk: "j < k" by simp
    have h: "popcount byte = count_set v (j * 8 + a) (j * 8 + 8)"
      using a8 by (intro popcount_byte_range) (auto simp: byte_def bit_and_iff bit_bitmask_first)
    have kl: "k \<le> length (bm_data v)"
    proof -
      have "(k * 8 - 1) div 8 < length (bm_data v)" using v s(2) en jk by (intro wf_view_byte) auto
      moreover have "(k * 8 - 1) div 8 = k - 1" using jk by (cases k) simp_all
      ultimately show ?thesis using jk by simp
    qed
    have t: "popcount (bm_data v ! k AND bitmask_last_byte ! e) = count_set v (k * 8) (k * 8 + e)"
      using e8 popcount_byte_range [of 0 e "bm_data v ! k AND bitmask_last_byte ! e" v k] by (auto simp: bit_and_iff bit_bitmask_last)
    have last: "k < BitmapView_size_in_bytes v \<longleftrightarrow> k * 8 < bm_size v"
      by (simp add: BitmapView_size_in_bytes_def less_ceil_div_iff)
    have e0: "e = 0" if "\<not> k < BitmapView_size_in_bytes v" using that s(2) en last by simp
    have split: "count_set v (j * 8 + a) (k * 8 + e) = count_set v (j * 8 + a) (j * 8 + 8)
        + count_set v (k * 8) (k * 8 + e) + count_set v (j * 8 + 8) (k * 8)"
      using jk a8 count_set_split [of "j * 8 + a" "k * 8" "k * 8 + e" v]
        count_set_split [of "j * 8 + a" "j * 8 + 8" "k * 8" v] by simp
    have mid: "(if j + 1 < k then count_middle v (bm_addr v + j + 1) (bm_addr v + k) c else Inr c)
        = Inr (c + count_set v (j * 8 + 8) (k * 8))" for c
      using jk kl by (auto simp: count_middle_spec algebra_simps)
    have kb: "k < length (bm_data v)" if "k < BitmapView_size_in_bytes v"
      using that v by (simp add: wf_view_def)
    show ?thesis
      using s jk jl us fin split h t mid e0 kb
      by (cases "k < BitmapView_size_in_bytes v") (simp_all add: BitmapView_count_in_range_def read_addr_def
          read_at_ok byte_def Let_def flip: a_def j_def e_def k_def)
  qed
qed

lemma length_filter_not: "length (filter (\<lambda>i. \<not> P i) xs) = length xs - length (filter P xs)"
  using sum_length_filter_compl [of P xs] by simp

theorem count_in_range_spec:
  assumes "wf_view v" "start < bm_size v" "start + len \<le> bm_size v"
  shows "BitmapView_count_in_range v start len value
    = Inr (length (filter (\<lambda>i. bits v i = value) [start..<start + len]))"
proof -
  have sz: "usz (start + len) = start + len" using assms by (intro usz_small) (simp add: wf_view_def)
  show ?thesis
  proof (cases "len = 0")
    case True
    then show ?thesis using assms sz by (simp add: BitmapView_count_in_range_def)
  next
    case False
    then show ?thesis
      using count_in_range_set [OF assms, of "value"] length_filter_not [of "bits v" "[start..<start + len]"]
      by (cases "value") (simp_all add: count_set_def)
  qed
qed

section \<open>Searching for one bit\<close>

text \<open>No bit of the range \<open>[a, b)\<close> has the value \<open>x\<close>.\<close>

definition none_in :: "bool \<Rightarrow> 'a bitmap_view_scheme \<Rightarrow> nat \<Rightarrow> nat \<Rightarrow> bool" where
  "none_in x v a b \<longleftrightarrow> (\<forall>i. a \<le> i \<and> i < b \<longrightarrow> bits v i \<noteq> x)"

lemma none_in_join: "none_in x v a b \<Longrightarrow> none_in x v b c \<Longrightarrow> none_in x v a c"
  unfolding none_in_def by (meson not_less)

lemma none_in_empty [simp]: "b \<le> a \<Longrightarrow> none_in x v a b"
  by (auto simp: none_in_def)

lemma none_in_offset: "none_in x v a (a + n) \<longleftrightarrow> (\<forall>k<n. bits v (a + k) \<noteq> x)"
  unfolding none_in_def by (metis le_add1 le_Suc_ex nat_add_left_cancel_less)

lemma no_bits_iff: "(w::'b::len word) = (if x then 0 else - 1) \<longleftrightarrow> (\<forall>k<LENGTH('b). bit w k \<noteq> x)"
  by (auto simp: bit_eq_iff dest: bit_imp_le_length)

lemma not_zero_iff: "NOT (w::'b::len word) = 0 \<longleftrightarrow> w = - 1"
  by (metis bit.double_compl bit.compl_zero)

lemma byte_none_iff: "bm_data v ! j = (if x then 0x00 else 0xff) \<longleftrightarrow> none_in x v (j * 8) (j * 8 + 8)"
proof -
  have "(0xff :: u8) = - 1" by simp
  then show ?thesis
    using no_bits_iff [of "bm_data v ! j" x] by (simp only: none_in_offset) (simp add: bits_of_byte)
qed

lemma word_none_iff:
  "le32 (bm_data v ! j) (bm_data v ! (j + 1)) (bm_data v ! (j + 2)) (bm_data v ! (j + 3))
     = (if x then 0x0 else 0xffffffff) \<longleftrightarrow> none_in x v (j * 8) (j * 8 + 32)"
proof -
  have "(0xffffffff :: u32) = - 1" by simp
  then show ?thesis
    using no_bits_iff [of "le32 (bm_data v ! j) (bm_data v ! (j + 1)) (bm_data v ! (j + 2)) (bm_data v ! (j + 3))" x]
    by (simp only: none_in_offset) (simp add: bits_word)
qed

lemma scan_bytes_spec:
  assumes "i \<le> n" "n \<le> length (bm_data v)"
  shows "\<exists>k. scan_bytes v (if x then 0x00 else 0xff) i n = Inr k \<and> i \<le> k \<and> k \<le> n \<and>
    none_in x v (i * 8) (k * 8) \<and> (k < n \<longrightarrow> bm_data v ! k \<noteq> (if x then 0x00 else 0xff))"
  using assms
proof (induction "n - i" arbitrary: i)
  case 0
  then show ?case by (subst scan_bytes.simps) simp
next
  case (Suc m)
  then have i: "i < n" "i < length (bm_data v)" by linarith+
  show ?case
  proof (cases "bm_data v ! i = (if x then 0x00 else 0xff)")
    case False
    then show ?thesis using i by (subst scan_bytes.simps) (simp add: read_at_ok)
  next
    case True
    with byte_none_iff have n: "none_in x v (i * 8) ((i + 1) * 8)" by (metis add.commute mult_Suc Suc_eq_plus1)
    have "m = n - (i + 1)" using Suc.hyps(2) by simp
    from Suc.hyps(1) [OF this] obtain k where k: "scan_bytes v (if x then 0x00 else 0xff) (i + 1) n = Inr k" "i + 1 \<le> k" "k \<le> n"
      "none_in x v ((i + 1) * 8) (k * 8)" "k < n \<longrightarrow> bm_data v ! k \<noteq> (if x then 0x00 else 0xff)"
      using i assms(2) by auto
    then show ?thesis using i True none_in_join [OF n k(4)] by (subst scan_bytes.simps) (simp add: read_at_ok)
  qed
qed

text \<open>The lowest bit of a byte or word that has the value looked for.\<close>

lemma ffs_found:
  fixes w :: "'b::len word"
  assumes "\<And>k. k < LENGTH('b) \<Longrightarrow> bit w k \<longleftrightarrow> (bits v (c + k) = x)" "w \<noteq> 0"
  shows "\<exists>k<LENGTH('b). ffs w = k + 1 \<and> bits v (c + k) = x \<and> none_in x v c (c + k)"
proof (intro exI conjI)
  show "low_zeros w < LENGTH('b)" using assms(2) by (rule low_zeros_less)
  then show "bits v (c + low_zeros w) = x" using assms bit_at_low_zeros by blast
  show "none_in x v c (c + low_zeros w)"
    using assms(1) bit_below_low_zeros [of _ w] low_zeros_le [of w] by (fastforce simp: none_in_offset)
  show "ffs w = low_zeros w + 1" using assms(2) by (simp add: ffs_def)
qed

lemma found_in_byte_spec:
  assumes "i < length (bm_data v)" "bm_data v ! i \<noteq> (if x then 0x00 else 0xff)"
  shows "\<exists>k<8. found_in_byte x v i = Inr (i * 8 + k) \<and> bits v (i * 8 + k) = x \<and> none_in x v (i * 8) (i * 8 + k)"
proof -
  define w where "w = (if x then bm_data v ! i else NOT (bm_data v ! i))"
  have w: "w \<noteq> 0" using assms(2) not_zero_iff [of "bm_data v ! i"] by (auto simp: w_def)
  have "bit w k \<longleftrightarrow> (bits v (i * 8 + k) = x)" if "k < LENGTH(8)" for k
    using that by (simp add: w_def bits_of_byte bit_not_iff)
  from ffs_found [OF this w] show ?thesis
    using w assms(1) by (auto simp: found_in_byte_def read_at_ok Let_def w_def)
qed


definition word_stops :: "bool \<Rightarrow> 'a bitmap_view_scheme \<Rightarrow> nat \<Rightarrow> bool" where
  "word_stops x v q \<longleftrightarrow> (\<exists>w. read_addr32 v q = Inr w \<and> w \<noteq> (if x then 0x0 else 0xffffffff) \<and>
     (\<forall>k<32. bit w k \<longleftrightarrow> bits v ((q - bm_addr v) * 8 + k)))"

lemma scan_words_spec:
  assumes "p mod 4 = 0" "l mod 4 = 0" "bm_addr v \<le> p" "p \<le> l" "l - bm_addr v \<le> length (bm_data v)"
  shows "\<exists>q. scan_words v (if x then 0x0 else 0xffffffff) p l = Inr q \<and> p \<le> q \<and> q \<le> l \<and> q mod 4 = 0 \<and>
    none_in x v ((p - bm_addr v) * 8) ((q - bm_addr v) * 8) \<and>
    (q < l \<longrightarrow> word_stops x v q)"
  using assms
proof (induction "l - p" arbitrary: p rule: less_induct)
  case less
  show ?case
  proof (cases "p < l")
    case False
    then show ?thesis using less.prems by (subst scan_words.simps) simp
  next
    case True
    with less.prems(1,2) have pl: "p + 4 \<le> l" by (intro aligned_step)
    define j where "j = p - bm_addr v"
    define w where "w = le32 (bm_data v ! j) (bm_data v ! (j + 1)) (bm_data v ! (j + 2)) (bm_data v ! (j + 3))"
    have "j + 3 < length (bm_data v)" using less.prems pl by (simp add: j_def)
    then have r: "read_addr32 v p = Inr w"
      using less.prems(3) by (simp add: read_addr32_def load_le32_ok w_def j_def)
    have b: "\<forall>k<32. bit w k \<longleftrightarrow> bits v (j * 8 + k)"
      unfolding w_def using bits_word by blast
    show ?thesis
    proof (cases "w = (if x then 0x0 else 0xffffffff)")
      case False
      then show ?thesis using True r b less.prems by (subst scan_words.simps) (auto simp: j_def word_stops_def)
    next
      case w: True
      have "(p + 4 - bm_addr v) * 8 = j * 8 + 32" using less.prems(3) by (simp add: j_def)
      then have n: "none_in x v ((p - bm_addr v) * 8) ((p + 4 - bm_addr v) * 8)"
        using w word_none_iff [of v j x] less.prems(3) by (simp add: w_def j_def)
      have "l - (p + 4) < l - p" "(p + 4) mod 4 = 0" "bm_addr v \<le> p + 4"
        using pl less.prems by simp_all
      from less.hyps [of "p + 4", OF this(1,2) less.prems(2) this(3) pl less.prems(5)] obtain q
        where q: "scan_words v (if x then 0x0 else 0xffffffff) (p + 4) l = Inr q" "p + 4 \<le> q" "q \<le> l" "q mod 4 = 0"
          "none_in x v ((p + 4 - bm_addr v) * 8) ((q - bm_addr v) * 8)" "q < l \<longrightarrow> word_stops x v q"
        by (elim exE conjE)
      have "scan_words v (if x then 0x0 else 0xffffffff) p l = Inr q"
        using True r w q(1) by (subst scan_words.simps) simp
      moreover have "p \<le> q" using q(2) by simp
      ultimately show ?thesis using q(3,4,6) none_in_join [OF n q(5)] by (intro exI [of _ q] conjI)
    qed
  qed
qed

text \<open>The part of a view the searches look at: its whole bytes.\<close>

definition whole_bits :: "'a bitmap_view_scheme \<Rightarrow> nat" where
  "whole_bits v = bm_size v div 8 * 8"

lemma whole_bytes_le: "wf_view v \<Longrightarrow> bm_size v div 8 \<le> length (bm_data v)"
  by (simp add: wf_view_def BitmapView_size_in_bytes_def ceil_div_def Let_def split: if_splits)

theorem find_first_spec:
  assumes "wf_view v"
  shows "BitmapView_find_first x v = Inr
    (if \<exists>i<whole_bits v. bits v i = x then Some (LEAST i. bits v i = x) else None)"
proof -
  define n where "n = bm_size v div 8"
  have nl: "n \<le> length (bm_data v)" using whole_bytes_le [OF assms] by (simp add: n_def)
  obtain k where k: "scan_bytes v (if x then 0x00 else 0xff) 0 n = Inr k" "k \<le> n" "none_in x v 0 (k * 8)"
    "k < n \<Longrightarrow> bm_data v ! k \<noteq> (if x then 0x00 else 0xff)"
    using scan_bytes_spec [OF le0 nl, of x] by auto
  show ?thesis
  proof (cases "k = n")
    case True
    then show ?thesis using k by (auto simp: BitmapView_find_first_def whole_bits_def n_def none_in_def)
  next
    case False
    with k(2) have kn: "k < n" by simp
    from found_in_byte_spec [OF less_le_trans [OF kn nl] k(4) [OF kn]]
    obtain m where m: "m < 8" "found_in_byte x v k = Inr (k * 8 + m)" "bits v (k * 8 + m) = x"
      "none_in x v (k * 8) (k * 8 + m)" by auto
    have "(LEAST i. bits v i = x) = k * 8 + m"
      using none_in_join [OF k(3) m(4)] m(3)
      by (intro Least_equality) (auto simp: none_in_def not_less [symmetric])
    moreover have "k * 8 + m < whole_bits v" using m(1) kn by (simp add: whole_bits_def n_def)
    ultimately show ?thesis
      using k m kn by (auto simp: BitmapView_find_first_def n_def)
  qed
qed

lemma align_down4_base: "a mod 4 = 0 \<Longrightarrow> align_down4 (a + n) = a + align_down4 n"
  unfolding align_down4_def by (metis add_mult_distrib div_plus_div_distrib_dvd_left dvd_eq_mod_eq_0 dvd_div_mult_self)

lemma word_stops_found:
  assumes "word_stops x v q"
  shows "\<exists>w k. read_addr32 v q = Inr w \<and> (if x then w else NOT w) \<noteq> 0 \<and> k < 32 \<and>
    ffs (if x then w else NOT w) = k + 1 \<and> bits v ((q - bm_addr v) * 8 + k) = x"
proof -
  obtain w where w: "read_addr32 v q = Inr w" "w \<noteq> (if x then 0x0 else 0xffffffff)"
    "\<forall>k<32. bit w k \<longleftrightarrow> bits v ((q - bm_addr v) * 8 + k)"
    using assms unfolding word_stops_def by (elim exE conjE)
  have nz: "(if x then w else NOT w) \<noteq> 0" using w(2) not_zero_iff [of w] by (auto split: if_splits)
  have "bit (if x then w else NOT w) k \<longleftrightarrow> (bits v ((q - bm_addr v) * 8 + k) = x)" if "k < LENGTH(32)" for k
    using that w(3) by (simp add: bit_not_iff)
  from ffs_found [OF this nz] obtain k where "k < 32" "ffs (if x then w else NOT w) = k + 1"
    "bits v ((q - bm_addr v) * 8 + k) = x" by auto
  with w(1) nz show ?thesis by (intro exI [of _ w] exI [of _ k] conjI)
qed

lemma find_one_pass:
  assumes v: "wf_view v" "bm_addr v mod 4 = 0" and e: "hint div 8 \<le> eb" "eb \<le> bm_size v div 8"
  shows "(\<exists>r. find_one_loop x v (bm_addr v + eb) hint = Inr (Some r) \<and> r < whole_bits v \<and> bits v r = x) \<or>
    (none_in x v (align_down4 (hint div 8) * 8) (whole_bits v) \<and>
     find_one_loop x v (bm_addr v + eb) hint =
       (if hint \<le> 8 then Inr None else find_one_loop x v (bm_addr v + align_down4 (hint div 8)) 0))"
proof -
  define p l n where "p = align_down4 (hint div 8)" and "l = align_down4 eb" and "n = bm_size v div 8"
  have pl: "p \<le> l" "l \<le> n" "p mod 4 = 0" "l mod 4 = 0"
    using e align_down4_props [of "eb"] align_down4_props [of "hint div 8"]
    by (auto simp: p_def l_def n_def align_down4_def div_le_mono)
  have nl: "n \<le> length (bm_data v)" using whole_bytes_le [OF v(1)] by (simp add: n_def)
  have al: "align_down4 (bm_addr v + hint div 8) = bm_addr v + p" "align_down4 (bm_addr v + eb) = bm_addr v + l"
    using v(2) by (simp_all add: align_down4_base p_def l_def)
  have m: "(bm_addr v + p) mod 4 = 0" "(bm_addr v + l) mod 4 = 0" using v(2) pl by (simp_all add: mod_eq_0_iff_dvd)
  have le: "bm_addr v \<le> bm_addr v + p" "bm_addr v + p \<le> bm_addr v + l" "bm_addr v + l - bm_addr v \<le> length (bm_data v)"
    using pl nl by simp_all
  obtain q where q: "scan_words v (if x then 0x0 else 0xffffffff) (bm_addr v + p) (bm_addr v + l) = Inr q"
    "bm_addr v + p \<le> q" "q \<le> bm_addr v + l" "none_in x v (p * 8) ((q - bm_addr v) * 8)"
    "q < bm_addr v + l \<longrightarrow> word_stops x v q" "q mod 4 = 0"
    using scan_words_spec [OF m le, of x] unfolding add_diff_cancel_left' by (elim exE conjE)
  note loop = find_one_loop.simps [of x v "bm_addr v + eb" hint]
  show ?thesis
  proof (cases "q = bm_addr v + l")
    case False
    with q(3,5) word_stops_found obtain w k where w: "read_addr32 v q = Inr w" "(if x then w else NOT w) \<noteq> 0"
      "k < 32" "ffs (if x then w else NOT w) = k + 1" "bits v ((q - bm_addr v) * 8 + k) = x"
      by (metis le_neq_implies_less)
    have "find_one_loop x v (bm_addr v + eb) hint = Inr (Some ((q - bm_addr v) * 8 + k))"
      using False q(1) w(1,2,4) by (simp add: loop find_one_head_def al verify_holds Let_def)
    moreover have "(q - bm_addr v) * 8 + k < whole_bits v"
    proof -
      have "q < bm_addr v + l" using False q(3) by simp
      with m(2) q(6) have "q + 4 \<le> bm_addr v + l" by (intro aligned_step)
      then have "(q - bm_addr v) * 8 + k < l * 8" using w(3) q(2) by simp
      also have "l * 8 \<le> whole_bits v" using pl(2) by (simp add: whole_bits_def n_def)
      finally show ?thesis .
    qed
    ultimately show ?thesis using w(5) by blast
  next
    case True
    obtain i where i: "scan_bytes v (if x then 0x00 else 0xff) l n = Inr i" "l \<le> i" "i \<le> n"
      "none_in x v (l * 8) (i * 8)" "i < n \<longrightarrow> bm_data v ! i \<noteq> (if x then 0x00 else 0xff)"
      using scan_bytes_spec [OF pl(2) nl, of x] by (elim exE conjE)
    show ?thesis
    proof (cases "i = n")
      case ni: True
      have "none_in x v (p * 8) (whole_bits v)"
        using none_in_join [OF q(4)] i(4) True ni by (simp add: whole_bits_def n_def)
      then show ?thesis
        using True ni q(1) i(1) pl(2) by (simp add: loop find_one_head_def al Let_def n_def p_def)
    next
      case False
      with i(3) nl have "i < length (bm_data v)" by simp
      from found_in_byte_spec [OF this, of x] obtain k where "k < 8" "found_in_byte x v i = Inr (i * 8 + k)"
        "bits v (i * 8 + k) = x" using False i(3,5) by auto
      moreover from this(1) False i(3) have "i * 8 + k < whole_bits v" by (simp add: whole_bits_def n_def)
      ultimately show ?thesis
        using True False q(1) i(1) pl(2) by (simp add: loop find_one_head_def al Let_def n_def)
    qed
  qed
qed

text \<open>With word-aligned data, the search from a hint finds a bit of the whole bytes or there is none.\<close>

theorem find_one_anywhere_spec:
  assumes "wf_view v" "bm_addr v mod 4 = 0" "hint < bm_size v"
  shows "\<exists>r. BitmapView_find_one_anywhere x v hint = Inr r \<and>
    (case r of Some i \<Rightarrow> i < whole_bits v \<and> bits v i = x | None \<Rightarrow> none_in x v 0 (whole_bits v))"
proof -
  have "hint div 8 \<le> bm_size v div 8" using assms(3) by (simp add: div_le_mono)
  note first = find_one_pass [OF assms(1,2) this order_refl, of x]
  have "align_down4 (hint div 8) \<le> bm_size v div 8"
    using align_down4_props(2) \<open>hint div 8 \<le> bm_size v div 8\<close> by (rule le_trans)
  note second = find_one_pass [OF assms(1,2) _ this, of 0 x]
  have "align_down4 0 = 0" "hint \<le> 8 \<Longrightarrow> align_down4 (hint div 8) = 0"
    by (auto simp: align_down4_def)
  with first second assms(3) show ?thesis
    unfolding BitmapView_find_one_anywhere_def by (auto simp: verify_holds split: if_splits)
qed

end
