(* ===== verification/Bitmap_Range.thy ===== *)
theory Bitmap_Range
  imports Bitmap_View
begin

text \<open>
  The searches of \<open>base/BitmapView.h\<close> for ranges of unset bits. The scan keeps, between
  two steps, that the last \<open>free\<close> bits before the current position are unset and that no
  range of the wanted length begins before them; from this the result of
  \<open>find_next_range_of_unset_bits\<close> and of the fits built on it follow.
\<close>

section \<open>The scan invariant\<close>

definition unset_range :: "'a bitmap_view_scheme \<Rightarrow> nat \<Rightarrow> nat \<Rightarrow> bool" where
  "unset_range v a b \<longleftrightarrow> (\<forall>i. a \<le> i \<and> i < b \<longrightarrow> \<not> bits v i)"

definition free_window :: "'a bitmap_view_scheme \<Rightarrow> nat \<Rightarrow> nat \<Rightarrow> bool" where
  "free_window v len s \<longleftrightarrow> s + len \<le> bm_size v \<and> unset_range v s (s + len)"

definition bucket_start :: "nat \<Rightarrow> nat" where
  "bucket_start i = i div 32 * 32"

definition scan_inv :: "'a bitmap_view_scheme \<Rightarrow> nat \<Rightarrow> nat \<Rightarrow> nat \<Rightarrow> nat \<Rightarrow> nat \<Rightarrow> bool" where
  "scan_inv v mn lo pos start free \<longleftrightarrow>
     free \<le> pos \<and> pos \<le> bm_size v \<and> (free \<noteq> 0 \<longrightarrow> start + free = pos) \<and>
     unset_range v (pos - free) pos \<and>
     (lo \<le> bm_size v \<longrightarrow> bucket_start lo \<le> pos - free) \<and>
     (\<forall>s. lo \<le> s \<and> s < pos - free \<longrightarrow> \<not> free_window v mn s)"

definition found_range :: "'a bitmap_view_scheme \<Rightarrow> nat \<Rightarrow> nat \<Rightarrow> nat \<Rightarrow> nat \<Rightarrow> nat \<Rightarrow> bool" where
  "found_range v mn mx lo len start \<longleftrightarrow>
     mn \<le> len \<and> len \<le> mx \<and> free_window v len start \<and>
     (lo \<le> bm_size v \<longrightarrow> bucket_start lo \<le> start) \<and>
     (\<forall>s. lo \<le> s \<and> s < start \<longrightarrow> \<not> free_window v mn s)"

lemma unset_range_join: "unset_range v a b \<Longrightarrow> unset_range v b c \<Longrightarrow> unset_range v a c"
  by (auto simp: unset_range_def) (metis not_less)

lemma scan_inv_extend:
  assumes "scan_inv v mn lo pos start free" "unset_range v pos (pos + n)" "pos + n \<le> bm_size v"
  shows "scan_inv v mn lo (pos + n) (if free = 0 then pos else start) (free + n)"
proof -
  have "unset_range v (pos - free) (pos + n)"
    using assms(1,2) by (auto simp: scan_inv_def intro: unset_range_join)
  moreover have "pos + n - (free + n) = pos - free" by simp
  ultimately show ?thesis using assms by (auto simp: scan_inv_def)
qed

lemma scan_inv_reset:
  assumes inv: "scan_inv v mn lo pos start free"
    and set: "\<forall>i. pos \<le> i \<and> i < pos + n \<longrightarrow> bits v i" and n: "0 < n" "pos + n \<le> bm_size v"
    and free: "free < mn"
  shows "scan_inv v mn lo (pos + n) start' 0"
proof -
  have "\<not> free_window v mn s" if s: "lo \<le> s" "s < pos + n" for s
  proof (cases "s < pos - free")
    case True
    then show ?thesis using inv s by (simp add: scan_inv_def)
  next
    case False
    define p where "p = max s pos"
    have "s \<le> p" "p < s + mn" "bits v p"
      using False set n free s inv by (auto simp: p_def max_def scan_inv_def)
    then show ?thesis by (auto simp: free_window_def unset_range_def)
  qed
  moreover have "lo \<le> bm_size v \<Longrightarrow> bucket_start lo \<le> pos + n"
    using inv by (auto simp: scan_inv_def)
  ultimately show ?thesis using n by (auto simp: scan_inv_def unset_range_def)
qed

lemma scan_inv_found:
  assumes "scan_inv v mn lo pos start free" "mn \<le> free" "mn \<le> mx" "0 < mn"
  shows "found_range v mn mx lo (min free mx) start"
  using assms by (auto simp: scan_inv_def found_range_def free_window_def unset_range_def)

lemma scan_inv_exhausted:
  assumes "scan_inv v mn lo (bm_size v) start free" "free < mn"
  shows "\<forall>s\<ge>lo. \<not> free_window v mn s"
proof (intro allI impI)
  fix s assume "lo \<le> s"
  with assms show "\<not> free_window v mn s"
    by (cases "s < bm_size v - free") (auto simp: scan_inv_def free_window_def)
qed

text \<open>What the bits of a partly consumed bucket say about the view.\<close>

definition bucket_at :: "'a bitmap_view_scheme \<Rightarrow> nat \<Rightarrow> nat \<Rightarrow> u32 \<Rightarrow> bool" where
  "bucket_at v bi viewed bucket \<longleftrightarrow>
     viewed \<le> 32 \<and> (\<forall>k. bit bucket k \<longleftrightarrow> viewed + k < 32 \<and> bits v (bi * 32 + viewed + k))"

lemma bucket_at_bit:
  "bucket_at v bi viewed bucket \<Longrightarrow> bi * 32 + viewed \<le> i \<Longrightarrow> i < bi * 32 + 32 \<Longrightarrow>
     bits v i \<longleftrightarrow> bit bucket (i - (bi * 32 + viewed))"
  by (simp add: bucket_at_def) linarith

lemma bucket_at_less: "bucket_at v bi viewed bucket \<Longrightarrow> bit bucket k \<Longrightarrow> viewed + k < 32"
  by (simp add: bucket_at_def)

lemma bucket_at_drop:
  "bucket_at v bi viewed bucket \<Longrightarrow> viewed + n \<le> 32 \<Longrightarrow> bucket_at v bi (viewed + n) (drop_bit n bucket)"
  by (simp add: bucket_at_def bit_drop_bit_eq add.assoc)

lemma bucket_at_zero:
  "bucket_at v bi viewed 0 \<Longrightarrow> unset_range v (bi * 32 + viewed) (bi * 32 + 32)"
  by (auto simp: unset_range_def bucket_at_bit)

lemma bucket_at_low_zeros:
  assumes "bucket_at v bi viewed bucket" "bucket \<noteq> 0"
  shows "viewed + low_zeros bucket < 32"
    and "unset_range v (bi * 32 + viewed) (bi * 32 + viewed + low_zeros bucket)"
proof -
  show l: "viewed + low_zeros bucket < 32"
    using assms(1) bit_at_low_zeros [OF assms(2)] by (rule bucket_at_less)
  show "unset_range v (bi * 32 + viewed) (bi * 32 + viewed + low_zeros bucket)"
    unfolding unset_range_def
  proof (intro allI impI)
    fix i assume i: "bi * 32 + viewed \<le> i \<and> i < bi * 32 + viewed + low_zeros bucket"
    then have "i - (bi * 32 + viewed) < low_zeros bucket" by arith
    then have "\<not> bit bucket (i - (bi * 32 + viewed))" by (rule bit_below_low_zeros)
    with bucket_at_bit [OF assms(1)] i l show "\<not> bits v i" by auto
  qed
qed

lemma bucket_at_not_full:
  assumes "bucket_at v bi viewed bucket" "0 < viewed"
  shows "bucket \<noteq> NOT 0"
proof
  assume "bucket = NOT 0"
  then have "bit bucket 31" by simp
  with bucket_at_less [OF assms(1)] assms(2) show False by fastforce
qed

lemma bucket_at_ones:
  assumes at: "bucket_at v bi viewed bucket" and odd: "bit bucket 0" and full: "bucket \<noteq> NOT 0"
  defines "ones \<equiv> low_zeros (NOT bucket)"
  shows "NOT bucket \<noteq> 0" "0 < ones" "viewed + ones \<le> 32"
    and "\<forall>i. bi * 32 + viewed \<le> i \<and> i < bi * 32 + viewed + ones \<longrightarrow> bits v i"
proof -
  show nn: "NOT bucket \<noteq> 0"
    using full by (metis bit.double_compl)
  have below: "bit bucket k" if "k < ones" for k
    using bit_below_low_zeros [of k "NOT bucket"] low_zeros_less [OF nn] that
    by (simp add: ones_def bit_not_iff)
  show ones0: "0 < ones"
    using bit_at_low_zeros [OF nn] odd by (auto simp: ones_def bit_not_iff intro: gr0I)
  show l: "viewed + ones \<le> 32"
    using bucket_at_less [OF at below [of "ones - 1"]] ones0 by simp
  show "\<forall>i. bi * 32 + viewed \<le> i \<and> i < bi * 32 + viewed + ones \<longrightarrow> bits v i"
  proof (intro allI impI)
    fix i assume i: "bi * 32 + viewed \<le> i \<and> i < bi * 32 + viewed + ones"
    then have "i - (bi * 32 + viewed) < ones" by arith
    with below bucket_at_bit [OF at] i l show "bits v i" by auto
  qed
qed

text \<open>One round of the inner loop that does not return.\<close>

lemma next_range_in_bucket_step:
  assumes "viewed < 32" "bucket \<noteq> 0" "free + low_zeros bucket < mn"
    and "NOT (drop_bit (low_zeros bucket) bucket) \<noteq> 0"
  shows "next_range_in_bucket mn mx bi viewed bucket start free =
    next_range_in_bucket mn mx bi
      (viewed + low_zeros bucket + low_zeros (NOT (drop_bit (low_zeros bucket) bucket)))
      (drop_bit (low_zeros (NOT (drop_bit (low_zeros bucket) bucket))) (drop_bit (low_zeros bucket) bucket))
      (if free = 0 then bi * 32 + viewed else start) 0"
  using assms by (subst next_range_in_bucket.simps) (simp add: ctz_def Let_def)

definition scan_outcome ::
  "'a bitmap_view_scheme \<Rightarrow> nat \<Rightarrow> nat \<Rightarrow> nat \<Rightarrow> nat \<Rightarrow> (nat \<times> nat, nat \<times> nat) flow res \<Rightarrow> bool" where
  "scan_outcome v mn mx lo pos r \<longleftrightarrow>
     (case r of Inr (Return (len, start)) \<Rightarrow> found_range v mn mx lo len start
      | Inr (Continue (start, free)) \<Rightarrow> scan_inv v mn lo pos start free
      | Inl e \<Rightarrow> False)"

lemma next_range_in_bucket_spec:
  assumes bi: "bi < bm_size v div 32" and mn: "0 < mn" "mn \<le> mx"
  shows "bucket_at v bi viewed bucket \<Longrightarrow> bucket \<noteq> NOT 0 \<Longrightarrow>
    scan_inv v mn lo (bi * 32 + viewed) start free \<Longrightarrow>
    scan_outcome v mn mx lo (bi * 32 + 32) (next_range_in_bucket mn mx bi viewed bucket start free)"
proof (induction "32 - viewed" arbitrary: viewed bucket start free rule: less_induct)
  case less
  have size: "bi * 32 + 32 \<le> bm_size v" using bi by arith
  have v32: "viewed \<le> 32" using less.prems(1) by (simp add: bucket_at_def)
  consider "viewed = 32" | "viewed < 32" "bucket = 0" | "viewed < 32" "bucket \<noteq> 0"
    using v32 by linarith
  then show ?case
  proof cases
    case 1
    with less.prems(3) show ?thesis by (subst next_range_in_bucket.simps) (simp add: scan_outcome_def)
  next
    case 2
    have "unset_range v (bi * 32 + viewed) (bi * 32 + viewed + (32 - viewed))"
      using bucket_at_zero less.prems(1) 2 by simp
    from scan_inv_extend [OF less.prems(3) this] size 2
    show ?thesis
      by (subst next_range_in_bucket.simps, subst next_range_in_bucket.simps) (simp add: scan_outcome_def)
  next
    case 3
    define tz bucket' where "tz = low_zeros bucket" and "bucket' = drop_bit tz bucket"
    define ones where "ones = low_zeros (NOT bucket')"
    note tz = bucket_at_low_zeros [OF less.prems(1) 3(2), folded tz_def]
    from scan_inv_extend [OF less.prems(3) tz(2)] size tz(1)
    have inv: "scan_inv v mn lo (bi * 32 + (viewed + tz)) (if free = 0 then bi * 32 + viewed else start) (free + tz)"
      by (simp add: add.assoc)
    show ?thesis
    proof (cases "mn \<le> free + tz")
      case True
      then show ?thesis using 3 scan_inv_found [OF inv True mn(2,1)]
        by (subst next_range_in_bucket.simps) (simp add: ctz_def tz_def [symmetric] Let_def scan_outcome_def)
    next
      case False
      have at: "bucket_at v bi (viewed + tz) bucket'"
        using bucket_at_drop [OF less.prems(1)] tz(1) by (simp add: bucket'_def)
      have odd: "bit bucket' 0"
        using bit_at_low_zeros [OF 3(2)] by (simp add: bucket'_def bit_drop_bit_eq tz_def)
      have full: "bucket' \<noteq> NOT 0"
        using bucket_at_not_full [OF at] less.prems(2) by (cases "tz = 0") (auto simp: bucket'_def)
      note ones = bucket_at_ones [OF at odd full, folded ones_def]
      have inv': "scan_inv v mn lo (bi * 32 + (viewed + tz + ones)) start' 0" for start'
        using scan_inv_reset [OF inv ones(4,2)] False size ones(3) by (simp add: add.assoc)
      have at': "bucket_at v bi (viewed + tz + ones) (drop_bit ones bucket')"
        using bucket_at_drop [OF at] ones(3) by simp
      have "32 - (viewed + tz + ones) < 32 - viewed" using 3(1) ones(2) by linarith
      from less.hyps [OF this at' bucket_at_not_full [OF at'] inv'] ones(2)
      show ?thesis
        using next_range_in_bucket_step [OF 3, folded tz_def, folded bucket'_def, folded ones_def] ones(1) False
        by simp
    qed
  qed
qed

lemma scan_outcome_simps [simp]:
  "scan_outcome v mn mx lo pos (Inr (Return (len, start))) \<longleftrightarrow> found_range v mn mx lo len start"
  "scan_outcome v mn mx lo pos (Inr (Continue (start, free))) \<longleftrightarrow> scan_inv v mn lo pos start free"
  "\<not> scan_outcome v mn mx lo pos (Inl e)"
  by (simp_all add: scan_outcome_def)

lemma scan_outcome_cases:
  assumes "scan_outcome v mn mx lo pos r"
  obtains len start where "r = Inr (Return (len, start))" "found_range v mn mx lo len start"
    | start free where "r = Inr (Continue (start, free))" "scan_inv v mn lo pos start free"
  using assms by (auto simp: scan_outcome_def split: sum.splits flow.splits prod.splits)

lemma scan_inv_zero_bucket:
  assumes inv: "scan_inv v mn lo (bi * 32 + sb) start free" and "free \<noteq> 0 \<Longrightarrow> sb = 0" and sb: "sb < 32"
    and unset: "unset_range v (bi * 32) (bi * 32 + 32)" and size: "bi * 32 + 32 \<le> bm_size v"
  shows "scan_inv v mn lo ((bi + 1) * 32) (if free = 0 then bi * 32 else start) (free + 32)"
proof (cases "free = 0")
  case True
  have "bucket_start lo \<le> bi * 32" if "bucket_start lo \<le> bi * 32 + sb"
  proof -
    have "lo div 32 * 32 < (bi + 1) * 32" using that sb by (simp add: bucket_start_def)
    then have "lo div 32 < bi + 1" by (simp only: mult_less_cancel2)
    then show ?thesis by (simp add: bucket_start_def)
  qed
  with True show ?thesis using inv unset size by (auto simp: scan_inv_def algebra_simps)
next
  case False
  with assms(2) have "sb = 0" by simp
  with False show ?thesis
    using scan_inv_extend [OF inv, of 32] unset size by (simp add: algebra_simps)
qed

lemma scan_inv_full_bucket:
  assumes inv: "scan_inv v mn lo (bi * 32 + sb) start free" and "sb < 32" "bi * 32 + 32 \<le> bm_size v" "free < mn"
    and full: "bucket_at v bi 0 (NOT 0)"
  shows "scan_inv v mn lo ((bi + 1) * 32) start 0"
proof -
  have "\<forall>i. bi * 32 + sb \<le> i \<and> i < bi * 32 + sb + (32 - sb) \<longrightarrow> bits v i"
    using bucket_at_bit [OF full] by auto
  from scan_inv_reset [OF inv this] assms(2-4) show ?thesis by (simp add: algebra_simps)
qed

lemma bucket_load:
  assumes "wf_view v" "bi < bm_size v div 32"
  obtains w where "load_le32 (bm_data v) (bi * 4) = Inr w" "bucket_at v bi 0 w"
proof -
  from bucket_spec [OF assms] obtain w
    where w: "load_le32 (bm_data v) (bi * 4) = Inr w" "\<And>k. k < 32 \<Longrightarrow> bit w k \<longleftrightarrow> bits v (bi * 32 + k)"
    by blast
  have "bucket_at v bi 0 w"
    unfolding bucket_at_def using w(2) bit_imp_le_length [of w] by fastforce
  with w(1) show ?thesis by (rule that)
qed

lemma next_range_in_buckets_spec:
  assumes wf: "wf_view v" and mn: "0 < mn" "mn \<le> mx"
  shows "bi < bm_size v div 32 \<or> bi = bm_size v div 32 \<and> sb = 0 \<Longrightarrow> sb < 32 \<Longrightarrow> (free \<noteq> 0 \<Longrightarrow> sb = 0) \<Longrightarrow>
    scan_inv v mn lo (bi * 32 + sb) start free \<Longrightarrow>
    scan_outcome v mn mx lo (bm_size v div 32 * 32) (next_range_in_buckets v mn mx bi sb start free)"
proof (induction "bm_size v div 32 - bi" arbitrary: bi sb start free rule: less_induct)
  case less
  show ?case
  proof (cases "bi < bm_size v div 32")
    case False
    with less.prems show ?thesis by (subst next_range_in_buckets.simps) simp
  next
    case bi: True
    have size: "bi * 32 + 32 \<le> bm_size v" using bi by arith
    have dec: "bm_size v div 32 - (bi + 1) < bm_size v div 32 - bi" using bi by simp
    have nxt: "bi + 1 < bm_size v div 32 \<or> bi + 1 = bm_size v div 32 \<and> (0::nat) = 0" using bi by linarith
    have IH: "scan_inv v mn lo ((bi + 1) * 32) s f \<Longrightarrow>
      scan_outcome v mn mx lo (bm_size v div 32 * 32) (next_range_in_buckets v mn mx (bi + 1) 0 s f)" for s f
      by (rule less.hyps [OF dec nxt]) simp_all
    from bucket_load [OF wf bi] obtain w
      where w: "load_le32 (bm_data v) (bi * 4) = Inr w" and at0: "bucket_at v bi 0 w" .
    note unfold = next_range_in_buckets.simps [of v mn mx bi sb start free]
    have full: "(0xffffffff :: u32) = NOT 0" by simp
    consider "w = NOT 0" | "w = 0" | "w \<noteq> NOT 0" "w \<noteq> 0" by blast
    then show ?thesis
    proof cases
      case 1
      show ?thesis
      proof (cases "mn \<le> free")
        case True
        then show ?thesis using scan_inv_found [OF less.prems(4) True mn(2,1)] bi w 1
          by (simp add: unfold)
      next
        case False
        then have "scan_inv v mn lo ((bi + 1) * 32) start 0"
          using scan_inv_full_bucket [OF less.prems(4,2) size] at0 1 by simp
        from IH [OF this] show ?thesis using False bi w 1 by (simp add: unfold)
      qed
    next
      case 2
      have "scan_inv v mn lo ((bi + 1) * 32) (if free = 0 then bi * 32 else start) (free + 32)"
        using scan_inv_zero_bucket [OF less.prems(4,3,2)] bucket_at_zero [of v bi 0] at0 2 size by simp
      note inv = this
      show ?thesis
      proof (cases "mx \<le> free + 32")
        case True
        then show ?thesis using scan_inv_found [OF inv _ mn(2,1)] mn bi w 2
          by (simp add: unfold Let_def min_def split: if_splits)
      next
        case False
        then show ?thesis using IH [OF inv] bi w 2 by (simp add: unfold Let_def)
      qed
    next
      case 3
      have at: "bucket_at v bi sb (drop_bit sb w)" using bucket_at_drop [OF at0, of sb] less.prems(2) by simp
      have "drop_bit sb w \<noteq> NOT 0"
        using bucket_at_not_full [OF at] 3 by (cases "sb = 0") auto
      from next_range_in_bucket_spec [OF bi mn at this less.prems(4)]
      show ?thesis
        using IH bi w 3(2) 3(1) [folded full]
        by (cases rule: scan_outcome_cases) (simp_all add: unfold algebra_simps)
    qed
  qed
qed

lemma next_range_in_tail_spec:
  assumes wf: "wf_view v" and mn: "0 < mn" "mn \<le> mx"
  shows "i \<le> bm_size v mod 32 \<Longrightarrow> free < mn \<Longrightarrow> scan_inv v mn lo (bm_size v div 32 * 32 + i) start free \<Longrightarrow>
    (\<exists>r start'. next_range_in_tail v mn mx i (bm_size v mod 32) start free = Inr (r, start') \<and>
      (case r of Some len \<Rightarrow> found_range v mn mx lo len start' | None \<Rightarrow> \<forall>s\<ge>lo. \<not> free_window v mn s))"
proof (induction "bm_size v mod 32 - i" arbitrary: i start free rule: less_induct)
  case less
  let ?pos = "bm_size v div 32 * 32 + i"
  note unfold = next_range_in_tail.simps [of v mn mx i "bm_size v mod 32" start free]
  show ?case
  proof (cases "i < bm_size v mod 32")
    case False
    then have "?pos = bm_size v" using less.prems(1) by simp
    with less.prems have "\<forall>s\<ge>lo. \<not> free_window v mn s" by (intro scan_inv_exhausted) simp_all
    with False show ?thesis by (simp add: unfold)
  next
    case True
    have pos: "?pos < bm_size v" using True by (metis add_strict_left_mono div_mult_mod_eq)
    have get: "BitmapView_get v ?pos = Inr (bits v ?pos)" using wf pos by (rule get_spec)
    have dec: "bm_size v mod 32 - (i + 1) < bm_size v mod 32 - i" using True by simp
    note IH = less.hyps [OF dec]
    have one: "(\<forall>j. ?pos \<le> j \<and> j < ?pos + 1 \<longrightarrow> P j) \<longleftrightarrow> P ?pos" for P
      by (auto simp: less_Suc_eq)
    show ?thesis
    proof (cases "bits v ?pos")
      case b: True
      have "scan_inv v mn lo (?pos + 1) start 0"
        using scan_inv_reset [OF less.prems(3), of 1] one b pos less.prems(2) by simp
      then show ?thesis using IH [of 0 start] b get True mn by (simp add: unfold Let_def)
    next
      case b: False
      have "unset_range v ?pos (?pos + 1)" unfolding unset_range_def one using b .
      note inv = scan_inv_extend [OF less.prems(3) this]
      show ?thesis
      proof (cases "mn \<le> free + 1")
        case m: True
        then show ?thesis using scan_inv_found [OF inv _ mn(2,1)] pos b get True by (simp add: unfold Let_def)
      next
        case m: False
        then show ?thesis using IH [of "free + 1"] inv pos b get True by (simp add: unfold Let_def)
      qed
    qed
  qed
qed

theorem find_next_range_spec:
  assumes wf: "wf_view v" and mn: "0 < mn" "mn \<le> mx"
  shows "\<exists>r start'. BitmapView_find_next_range_of_unset_bits v start mn mx = Inr (r, start') \<and>
    (case r of Some len \<Rightarrow> found_range v mn mx start len start' | None \<Rightarrow> \<forall>s\<ge>start. \<not> free_window v mn s)"
proof (cases "start div 32 < bm_size v div 32")
  case True
  have "start div 32 * 32 + start mod 32 = start" by simp
  moreover have "start \<le> bm_size v" using True by (metis div_le_mono leD nat_le_linear)
  moreover have "bucket_start start \<le> start" by (simp add: bucket_start_def)
  ultimately have "scan_inv v mn start (start div 32 * 32 + start mod 32) start 0"
    by (auto simp: scan_inv_def unset_range_def)
  with True have "scan_outcome v mn mx start (bm_size v div 32 * 32)
      (next_range_in_buckets v mn mx (start div 32) (start mod 32) start 0)"
    by (intro next_range_in_buckets_spec [OF wf mn]) auto
  then show ?thesis
  proof (cases rule: scan_outcome_cases)
    case (1 len s)
    then show ?thesis using mn by (simp add: BitmapView_find_next_range_of_unset_bits_def)
  next
    case (2 s free)
    show ?thesis
    proof (cases "free < mn")
      case True
      then show ?thesis
        using next_range_in_tail_spec [OF wf mn, of 0 free start s] 2 mn
        by (simp add: BitmapView_find_next_range_of_unset_bits_def)
    next
      case False
      then show ?thesis using scan_inv_found [OF 2(2) _ mn(2,1)] 2 mn
        by (simp add: BitmapView_find_next_range_of_unset_bits_def)
    qed
  qed
next
  case False
  have "bm_size v div 32 * 32 \<le> start div 32 * 32" using False by simp
  also have "\<dots> \<le> start" by simp
  finally have "bm_size v div 32 * 32 \<le> start" .
  moreover have "start \<le> bm_size v \<Longrightarrow> bucket_start start \<le> bm_size v div 32 * 32"
    by (simp add: bucket_start_def div_le_mono)
  ultimately have "scan_inv v mn start (bm_size v div 32 * 32 + 0) start 0"
    by (auto simp: scan_inv_def unset_range_def)
  from next_range_in_tail_spec [OF wf mn _ mn(1) this]
  show ?thesis using False mn
    by (simp add: BitmapView_find_next_range_of_unset_bits_def next_range_in_buckets.simps [of v])
qed

section \<open>Fits\<close>

lemma find_next_range_cases:
  assumes "wf_view v" "0 < mn" "mn \<le> mx"
  obtains len s where "BitmapView_find_next_range_of_unset_bits v start mn mx = Inr (Some len, s)"
      "found_range v mn mx start len s"
    | s where "BitmapView_find_next_range_of_unset_bits v start mn mx = Inr (None, s)"
      "\<forall>s\<ge>start. \<not> free_window v mn s"
proof -
  from find_next_range_spec [OF assms, of start] obtain r s
    where r: "BitmapView_find_next_range_of_unset_bits v start mn mx = Inr (r, s)"
      "case r of Some len \<Rightarrow> found_range v mn mx start len s | None \<Rightarrow> \<forall>s\<ge>start. \<not> free_window v mn s"
    by blast
  show ?thesis
  proof (cases r)
    case None
    with r show ?thesis using that(2) by simp
  next
    case (Some len)
    with r show ?thesis using that(1) by simp
  qed
qed

lemma found_range_window: "found_range v mn mx lo len s \<Longrightarrow> free_window v mn s"
  by (auto simp: found_range_def free_window_def unset_range_def)

lemma find_first_fit_spec:
  assumes "wf_view v" "0 < n"
  shows "BitmapView_find_first_fit v n =
    Inr (if \<exists>s. free_window v n s then Some (LEAST s. free_window v n s) else None)"
proof (cases rule: find_next_range_cases [OF assms order_refl, where start = 0])
  case (1 len s)
  have "(LEAST s. free_window v n s) = s"
    using 1(2) found_range_window [OF 1(2)] by (intro Least_equality) (auto simp: found_range_def not_less [symmetric])
  moreover have "\<exists>s. free_window v n s" using found_range_window [OF 1(2)] by blast
  ultimately show ?thesis using 1(1) by (simp add: BitmapView_find_first_fit_def)
next
  case (2 s)
  then show ?thesis by (simp add: BitmapView_find_first_fit_def)
qed

lemma found_range_progress:
  assumes "found_range v mn mx start len s" "32 \<le> mn" "start \<le> bm_size v"
  shows "start < s + len" "s + len \<le> bm_size v"
proof -
  have "start < bucket_start start + 32"
    unfolding bucket_start_def using div_mult_mod_eq [of start 32] mod_less_divisor [of 32 start] by linarith
  then show "start < s + len" using assms by (auto simp: found_range_def)
  show "s + len \<le> bm_size v" using assms by (auto simp: found_range_def free_window_def)
qed

lemma find_best_loop_spec:
  assumes wf: "wf_view v" and mn: "32 \<le> mn"
  shows "start \<le> bm_size v \<Longrightarrow> mn \<le> bsz \<Longrightarrow> (found \<longrightarrow> free_window v mn best) \<Longrightarrow>
    \<exists>s f. find_best_loop v mn start best bsz found = Some (Inr (s, f)) \<and>
      (if f then free_window v mn s else \<not> found \<and> (\<forall>s\<ge>start. \<not> free_window v mn s))"
proof (induction "bm_size v + 1 - start" arbitrary: start best bsz found rule: less_induct)
  case less
  have "0 < mn" using mn by simp
  show ?case
  proof (cases rule: find_next_range_cases [OF wf \<open>0 < mn\<close> less.prems(2), where start = start])
    case (1 len s)
    note p = found_range_progress [OF 1(2) mn less.prems(1)]
    have dec: "bm_size v + 1 - (s + len) < bm_size v + 1 - start" using p less.prems(1) by linarith
    have len: "mn \<le> len" using 1(2) by (simp add: found_range_def)
    note IH = less.hyps [OF dec p(2)]
    show ?thesis
    proof (cases "bsz > len \<or> \<not> found")
      case True
      then show ?thesis
        using IH [OF len, of True s] found_range_window [OF 1(2)] 1(1)
        by (subst (1) find_best_loop.simps) (auto split: if_splits)
    next
      case False
      then show ?thesis
        using IH [OF less.prems(2), of found best] less.prems(3) 1(1)
        by (subst (1) find_best_loop.simps) (auto split: if_splits)
    qed
  next
    case (2 s)
    then show ?thesis using less.prems(3) by (subst (1) find_best_loop.simps) simp
  qed
qed

lemma find_best_fit_spec:
  assumes wf: "wf_view v" and n: "32 \<le> n"
  shows "\<exists>r. BitmapView_find_best_fit v n = Some (Inr r) \<and>
    (case r of Some s \<Rightarrow> free_window v n s | None \<Rightarrow> \<forall>s. \<not> free_window v n s)"
proof (cases "n \<le> max_size")
  case True
  from find_best_loop_spec [OF wf n _ True, of 0 False 0]
  show ?thesis by (auto simp: BitmapView_find_best_fit_def split: if_splits)
next
  case False
  then have "BitmapView_find_next_range_of_unset_bits v 0 n max_size = Inr (None, 0)"
    by (simp add: BitmapView_find_next_range_of_unset_bits_def)
  then have "BitmapView_find_best_fit v n = Some (Inr None)"
    by (simp add: BitmapView_find_best_fit_def find_best_loop.simps [of v n 0])
  moreover have "\<not> free_window v n s" for s
    using wf False by (auto simp: free_window_def wf_view_def max_size_def)
  ultimately show ?thesis by simp
qed

lemma find_longest_loop_spec:
  assumes wf: "wf_view v"
  shows "(sz \<noteq> 0 \<longrightarrow> sz \<le> mx \<and> free_window v sz st) \<Longrightarrow>
    \<exists>s len. find_longest_loop v mx start st sz = Some (Inr (s, len)) \<and> sz \<le> len \<and>
      (len \<noteq> 0 \<longrightarrow> len \<le> mx \<and> free_window v len s) \<and>
      (len = 0 \<longrightarrow> mx = 0 \<or> (\<forall>s\<ge>start. \<not> free_window v 1 s))"
proof (induction "bm_size v - sz" arbitrary: start st sz rule: less_induct)
  case less
  show ?case
  proof (cases "sz + 1 \<le> mx")
    case False
    then have "BitmapView_find_next_range_of_unset_bits v start (sz + 1) mx = Inr (None, start)"
      by (simp add: BitmapView_find_next_range_of_unset_bits_def)
    then show ?thesis using less.prems False by (subst find_longest_loop.simps) auto
  next
    case True
    have zero_less: "0 < sz + 1" by simp
    show ?thesis
    proof (cases rule: find_next_range_cases [OF wf zero_less True, where start = start])
      case (1 len s)
      then have len: "sz < len" "len \<le> mx" "free_window v len s" by (auto simp: found_range_def)
      have "bm_size v - len < bm_size v - sz" using len by (auto simp: free_window_def)
      from less.hyps [OF this, of s "s + len"] len 1(1)
      show ?thesis by (subst find_longest_loop.simps) auto
    next
      case (2 s)
      then show ?thesis using less.prems by (subst find_longest_loop.simps) auto
    qed
  qed
qed

lemma find_longest_spec:
  assumes "wf_view v" "0 < mx"
  shows "\<exists>r len. BitmapView_find_longest_range_of_unset_bits v mx = Some (Inr (r, len)) \<and>
    (case r of Some s \<Rightarrow> 0 < len \<and> len \<le> mx \<and> free_window v len s
     | None \<Rightarrow> len = 0 \<and> (\<forall>i<bm_size v. bits v i))"
proof -
  from find_longest_loop_spec [OF assms(1), of 0 mx 0 0] obtain s len where
    l: "find_longest_loop v mx 0 0 0 = Some (Inr (s, len))" "len \<noteq> 0 \<longrightarrow> len \<le> mx \<and> free_window v len s"
      "len = 0 \<longrightarrow> (\<forall>s. \<not> free_window v 1 s)" using assms(2) by auto
  have "bits v i" if "\<forall>s. \<not> free_window v 1 s" "i < bm_size v" for i
    using that by (auto simp: free_window_def unset_range_def less_Suc_eq_le dest: spec [of _ i])
  with l show ?thesis by (auto simp: BitmapView_find_longest_range_of_unset_bits_def)
qed

section \<open>Where the loops go wrong\<close>

text \<open>
  With a minimum below 32 the search of \<open>find_best_fit\<close> need not advance: a bucket that is
  completely empty is reported from its first bit even when the search starts inside it. And
  \<open>find_longest_range_of_unset_bits\<close> does not extend a range into the bits behind the last
  whole bucket.
\<close>

definition three_then_empty :: bitmap_view where
  "three_then_empty = \<lparr>bm_addr = 4096, bm_data = [0xF8, 0xFF, 0xFF, 0xFF, 0, 0, 0, 0], bm_size = 64\<rparr>"

lemmas next_range_evals = BitmapView_find_next_range_of_unset_bits_def next_range_in_buckets.simps
  next_range_in_bucket.simps next_range_in_tail.simps load_le32_def le32_def read_at_def ctz_def Let_def
  BitmapView_get_def

lemma low_zeros_evals:
  "low_zeros (0xFFFFFFF8 :: u32) = 3" "low_zeros (0x1FFFFFFF :: u32) = 0" "low_zeros (- 536870912 :: u32) = 29"
  by code_simp+

lemma three_then_empty_35:
  "BitmapView_find_next_range_of_unset_bits three_then_empty 35 3 3 = Inr (Some 3, 32)"
  by (simp add: next_range_evals low_zeros_evals three_then_empty_def)

lemma three_then_empty_0:
  "BitmapView_find_next_range_of_unset_bits three_then_empty 0 3 4294967295 = Inr (Some 3, 0)"
  by (simp add: next_range_evals low_zeros_evals three_then_empty_def)

lemma three_then_empty_3:
  "BitmapView_find_next_range_of_unset_bits three_then_empty 3 3 3 = Inr (Some 3, 32)"
  by (simp add: next_range_evals low_zeros_evals three_then_empty_def)

lemma find_best_loop_cycle:
  "find_best_loop three_then_empty 3 35 0 3 True = None"
proof -
  have "\<not> (find_best_loop three_then_empty 3 35 0 3 True = Some y)" for y
  proof
    assume ret: "find_best_loop three_then_empty 3 35 0 3 True = Some y"
    have "\<not> (three_then_empty = three_then_empty \<and> (3::nat) = 3 \<and> (35::nat) = 35 \<and> (3::nat) = 3 \<and> True)"
      by (rule find_best_loop.raw_induct [where P = "\<lambda>v mn st bs sz f y.
             \<not> (v = three_then_empty \<and> mn = 3 \<and> st = 35 \<and> sz = 3 \<and> f)", OF _ ret])
         (clarsimp simp: three_then_empty_35, blast)
    then show False by simp
  qed
  then show ?thesis by (cases "find_best_loop three_then_empty 3 35 0 3 True") auto
qed

lemma best_fit_diverges: "BitmapView_find_best_fit three_then_empty 3 = None"
proof -
  have "find_best_loop three_then_empty 3 0 0 max_size False = find_best_loop three_then_empty 3 3 0 3 True"
    using three_then_empty_0 by (subst find_best_loop.simps) (simp add: max_size_def)
  also have "\<dots> = find_best_loop three_then_empty 3 35 0 3 True"
    using three_then_empty_3 by (subst find_best_loop.simps) simp
  finally show ?thesis by (simp add: BitmapView_find_best_fit_def find_best_loop_cycle)
qed

definition tail_run :: bitmap_view where
  "tail_run = \<lparr>bm_addr = 4096, bm_data = [0, 0, 0, 0, 0], bm_size = 40\<rparr>"

lemma longest_misses_tail:
  "BitmapView_find_longest_range_of_unset_bits tail_run 100 = Some (Inr (Some 0, 32)) \<and>
   free_window tail_run 40 0"
proof
  have a: "BitmapView_find_next_range_of_unset_bits tail_run 0 (Suc 0) 100 = Inr (Some 32, 0)"
    by (simp add: next_range_evals tail_run_def)
  have b: "BitmapView_find_next_range_of_unset_bits tail_run 32 33 100 = Inr (None, 32)"
    by (simp add: next_range_evals tail_run_def)
  have "find_longest_loop tail_run 100 0 0 0 = find_longest_loop tail_run 100 32 0 32"
    using a by (subst find_longest_loop.simps) simp
  also have "\<dots> = Some (Inr (0, 32))"
    using b by (subst find_longest_loop.simps) simp
  finally show "BitmapView_find_longest_range_of_unset_bits tail_run 100 = Some (Inr (Some 0, 32))"
    by (simp add: BitmapView_find_longest_range_of_unset_bits_def)
  have "bm_data tail_run = replicate 5 0" by (simp add: tail_run_def numeral_eq_Suc)
  then have "\<not> bits tail_run i" if "i < 40" for i
    using that by (simp add: bits_def)
  then show "free_window tail_run 40 0"
    by (simp add: free_window_def unset_range_def tail_run_def)
qed

end
