(* ===== verification/Bitmap.thy ===== *)
theory Bitmap
  imports Bitmap_Count Bitmap_Range
begin

text \<open>
  \<open>base/Bitmap.h\<close>: a bitmap that owns or borrows its bytes. It has the fields of the view
  and the ownership flag; a null data pointer is address 0. \<open>kmalloc\<close> is a parameter that
  gives the address and the bytes of a block of the size asked for; a call of
  \<open>kfree_sized\<close> is returned as the pair of its arguments.
\<close>

section \<open>Operations\<close>

record bitmap = bitmap_view +
  bm_is_owning :: bool

definition Bitmap_default :: bitmap where
  "Bitmap_default = \<lparr>bm_addr = 0, bm_data = [], bm_size = 0, bm_is_owning = True\<rparr>"

definition Bitmap_size_in_bytes :: "bitmap \<Rightarrow> nat" where
  "Bitmap_size_in_bytes b = ceil_div (bm_size b) 8"

definition Bitmap_fill :: "bitmap \<Rightarrow> bool \<Rightarrow> bitmap res" where
  "Bitmap_fill b value =
     rbind (memset_at (bm_data b) 0 (if value then 0xff else 0x00) (Bitmap_size_in_bytes b)) (\<lambda>data.
       Inr (b\<lparr>bm_data := data\<rparr>))"

definition Bitmap_create :: "(nat \<Rightarrow> nat \<times> u8 list) \<Rightarrow> nat \<Rightarrow> bool \<Rightarrow> bitmap res" where
  "Bitmap_create kmalloc bsz default_value =
     (let b = Bitmap_default\<lparr>bm_size := bsz\<rparr> in
      verify (bm_size b \<noteq> 0)
        (let (addr, data) = kmalloc (Bitmap_size_in_bytes b)
         in Bitmap_fill (b\<lparr>bm_addr := addr, bm_data := data\<rparr>) default_value))"

definition Bitmap_of_data :: "nat \<Rightarrow> u8 list \<Rightarrow> nat \<Rightarrow> bool \<Rightarrow> bitmap" where
  "Bitmap_of_data addr data bsz is_owning =
     \<lparr>bm_addr = addr, bm_data = data, bm_size = bsz, bm_is_owning = is_owning\<rparr>"

definition Bitmap_view :: "bitmap \<Rightarrow> bitmap_view" where
  "Bitmap_view b = \<lparr>bm_addr = bm_addr b, bm_data = bm_data b, bm_size = bm_size b\<rparr>"

text \<open>What \<open>exchange(other.m_data, nullptr)\<close> and \<open>exchange(other.m_size, 0)\<close> leave behind.\<close>

definition Bitmap_moved_from :: "bitmap \<Rightarrow> bitmap" where
  "Bitmap_moved_from other = other\<lparr>bm_addr := 0, bm_data := [], bm_size := 0\<rparr>"

definition Bitmap_move :: "bitmap \<Rightarrow> bitmap \<times> bitmap" where
  "Bitmap_move other =
     (Bitmap_default\<lparr>bm_addr := bm_addr other, bm_data := bm_data other, bm_size := bm_size other\<rparr>,
      Bitmap_moved_from other)"

definition Bitmap_move_assign :: "bitmap \<Rightarrow> bitmap \<Rightarrow> bitmap \<times> bitmap \<times> (nat \<times> nat)" where
  "Bitmap_move_assign this other =
     (this\<lparr>bm_addr := bm_addr other, bm_data := bm_data other, bm_size := bm_size other\<rparr>,
      Bitmap_moved_from other, (bm_addr this, Bitmap_size_in_bytes this))"

definition Bitmap_destroy :: "bitmap \<Rightarrow> bitmap \<times> (nat \<times> nat) option" where
  "Bitmap_destroy b =
     (b\<lparr>bm_addr := 0, bm_data := []\<rparr>,
      if bm_is_owning b then Some (bm_addr b, Bitmap_size_in_bytes b) else None)"

definition Bitmap_get :: "bitmap \<Rightarrow> nat \<Rightarrow> bool res" where
  "Bitmap_get b index =
     verify (index < bm_size b)
       (rbind (read_at (bm_data b) (index div 8)) (\<lambda>byte.
          Inr (0 \<noteq> (ucast byte :: u32) AND push_bit (index mod 8) 1)))"

definition Bitmap_set :: "bitmap \<Rightarrow> nat \<Rightarrow> bool \<Rightarrow> bitmap res" where
  "Bitmap_set b index value =
     verify (index < bm_size b)
       (rbind (read_at (bm_data b) (index div 8)) (\<lambda>byte.
        rbind (write_at (bm_data b) (index div 8)
          (if value then byte OR ucast (push_bit (index mod 8) (1::u32))
           else byte AND ucast (NOT (push_bit (index mod 8) (1::u32))))) (\<lambda>data.
        Inr (b\<lparr>bm_data := data\<rparr>))))"

definition Bitmap_count_in_range :: "bitmap \<Rightarrow> nat \<Rightarrow> nat \<Rightarrow> bool \<Rightarrow> nat res" where
  "Bitmap_count_in_range b start len value = BitmapView_count_in_range (Bitmap_view b) start len value"

definition Bitmap_count_slow :: "bitmap \<Rightarrow> bool \<Rightarrow> nat res" where
  "Bitmap_count_slow b value = Bitmap_count_in_range b 0 (bm_size b) value"

definition Bitmap_is_null :: "bitmap \<Rightarrow> bool" where
  "Bitmap_is_null b \<longleftrightarrow> bm_addr b = 0"

text \<open>
  One byte of \<open>set_range<VALUE, verify_that_all_bits_flip>\<close>: the optional check of the bits
  under the mask, then the update.
\<close>

definition set_masked :: "bool \<Rightarrow> bool \<Rightarrow> u8 list \<Rightarrow> nat \<Rightarrow> u8 \<Rightarrow> u8 list res" where
  "set_masked VALUE verify_that_all_bits_flip data i byte_mask =
     rbind (read_at data i) (\<lambda>byte.
       verify (verify_that_all_bits_flip \<longrightarrow>
               (if VALUE then byte AND byte_mask = 0 else byte AND byte_mask = byte_mask))
         (write_at data i (if VALUE then byte OR byte_mask else byte AND NOT byte_mask)))"

definition Bitmap_set_range_t :: "bool \<Rightarrow> bool \<Rightarrow> bitmap \<Rightarrow> nat \<Rightarrow> nat \<Rightarrow> bitmap res" where
  "Bitmap_set_range_t VALUE verify_that_all_bits_flip b start len =
     verify (start < bm_size b) (verify (usz (start + len) \<le> bm_size b)
     (if len = 0 then Inr b
      else let first = start div 8;
               last_p = usz (start + len) div 8;
               first_mask = bitmask_first_byte ! (start mod 8);
               last_mask = bitmask_last_byte ! (usz (start + len) mod 8)
           in rbind
             (if first = last_p
              then set_masked VALUE verify_that_all_bits_flip (bm_data b) first (first_mask AND last_mask)
              else rbind (set_masked VALUE verify_that_all_bits_flip (bm_data b) first first_mask) (\<lambda>data.
                   rbind (set_masked VALUE verify_that_all_bits_flip data last_p last_mask) (\<lambda>data.
                   if first + 1 < last_p
                   then memset_at data (first + 1) (if VALUE then 0xFF else 0x0) (last_p - (first + 1))
                   else Inr data))) (\<lambda>data.
             Inr (b\<lparr>bm_data := data\<rparr>))))"

definition Bitmap_set_range :: "bitmap \<Rightarrow> nat \<Rightarrow> nat \<Rightarrow> bool \<Rightarrow> bitmap res" where
  "Bitmap_set_range b start len value =
     (if value then Bitmap_set_range_t True False b start len
      else Bitmap_set_range_t False False b start len)"

definition Bitmap_set_range_and_verify_that_all_bits_flip ::
  "bitmap \<Rightarrow> nat \<Rightarrow> nat \<Rightarrow> bool \<Rightarrow> bitmap res" where
  "Bitmap_set_range_and_verify_that_all_bits_flip b start len value =
     (if value then Bitmap_set_range_t True True b start len
      else Bitmap_set_range_t False True b start len)"

text \<open>\<open>grow\<close> also returns the block it frees.\<close>

definition Bitmap_grow ::
  "(nat \<Rightarrow> nat \<times> u8 list) \<Rightarrow> bitmap \<Rightarrow> nat \<Rightarrow> bool \<Rightarrow> (bitmap \<times> (nat \<times> nat) option) res" where
  "Bitmap_grow kmalloc b bsz default_value =
     verify (bsz > bm_size b)
       (let previous_size_bytes = Bitmap_size_in_bytes b;
            previous_size = bm_size b;
            b1 = b\<lparr>bm_size := bsz\<rparr>;
            (addr, fresh) = kmalloc (Bitmap_size_in_bytes b1)
        in rbind (Bitmap_fill (b1\<lparr>bm_addr := addr, bm_data := fresh\<rparr>) default_value) (\<lambda>b2.
           if bm_addr b \<noteq> 0
           then rbind (memcpy_at (bm_data b2) 0 (bm_data b) previous_size_bytes) (\<lambda>data.
                rbind (if previous_size mod 8 \<noteq> 0
                       then Bitmap_set_range (b2\<lparr>bm_data := data\<rparr>) previous_size
                              (8 - previous_size mod 8) default_value
                       else Inr (b2\<lparr>bm_data := data\<rparr>)) (\<lambda>b3.
                Inr (b3, Some (bm_addr b, previous_size_bytes))))
           else Inr (b2, None)))"

definition Bitmap_find_one_anywhere_set :: "bitmap \<Rightarrow> nat \<Rightarrow> nat option res" where
  "Bitmap_find_one_anywhere_set b hint = BitmapView_find_one_anywhere True (Bitmap_view b) hint"

definition Bitmap_find_one_anywhere_unset :: "bitmap \<Rightarrow> nat \<Rightarrow> nat option res" where
  "Bitmap_find_one_anywhere_unset b hint = BitmapView_find_one_anywhere False (Bitmap_view b) hint"

definition Bitmap_find_first_set :: "bitmap \<Rightarrow> nat option res" where
  "Bitmap_find_first_set b = BitmapView_find_first True (Bitmap_view b)"

definition Bitmap_find_first_unset :: "bitmap \<Rightarrow> nat option res" where
  "Bitmap_find_first_unset b = BitmapView_find_first False (Bitmap_view b)"

definition Bitmap_find_next_range_of_unset_bits ::
  "bitmap \<Rightarrow> nat \<Rightarrow> nat \<Rightarrow> nat \<Rightarrow> (nat option \<times> nat) res" where
  "Bitmap_find_next_range_of_unset_bits b from min_length max_length =
     BitmapView_find_next_range_of_unset_bits (Bitmap_view b) from min_length max_length"

definition Bitmap_find_longest_range_of_unset_bits :: "bitmap \<Rightarrow> nat \<Rightarrow> (nat option \<times> nat) res option" where
  "Bitmap_find_longest_range_of_unset_bits b max_length =
     BitmapView_find_longest_range_of_unset_bits (Bitmap_view b) max_length"

definition Bitmap_find_first_fit :: "bitmap \<Rightarrow> nat \<Rightarrow> nat option res" where
  "Bitmap_find_first_fit b minimum_length = BitmapView_find_first_fit (Bitmap_view b) minimum_length"

definition Bitmap_find_best_fit :: "bitmap \<Rightarrow> nat \<Rightarrow> nat option res option" where
  "Bitmap_find_best_fit b minimum_length = BitmapView_find_best_fit (Bitmap_view b) minimum_length"

section \<open>The view of a bitmap\<close>

lemma view_simps [simp]:
  "bm_size (Bitmap_view b) = bm_size b"
  "bm_addr (Bitmap_view b) = bm_addr b"
  "bm_data (Bitmap_view b) = bm_data b"
  "bits (Bitmap_view b) = bits b"
  "wf_view (Bitmap_view b) = wf_view b"
  by (simp_all add: Bitmap_view_def bits_def fun_eq_iff wf_view_def BitmapView_size_in_bytes_def)

lemma Bitmap_get_view: "Bitmap_get b i = BitmapView_get b i"
  by (simp add: Bitmap_get_def BitmapView_get_def)

lemma Bitmap_set_view: "Bitmap_set b i x = BitmapView_set b i x"
  by (simp add: Bitmap_set_def BitmapView_set_def)

section \<open>Setting ranges\<close>

lemma bits_data [simp]: "bits (b\<lparr>bm_data := d\<rparr>) i = bit (d ! (i div 8)) (i mod 8)"
  by (simp add: bits_def)

lemma set_masked_spec:
  assumes "i < length data" "chk \<longrightarrow> (\<forall>k<8. bit m k \<longrightarrow> bit (data ! i) k \<noteq> x)"
  shows "\<exists>byte. set_masked x chk data i m = Inr (data[i := byte]) \<and>
    (\<forall>k<8. bit byte k \<longleftrightarrow> (if bit m k then x else bit (data ! i) k))"
proof -
  have "data ! i AND m = 0" if chk "x"
    using that assms(2) by (intro bit_word_eqI) (auto simp: bit_and_iff)
  moreover have "data ! i AND m = m" if chk "\<not> x"
    using that assms(2) by (intro bit_word_eqI) (auto simp: bit_and_iff)
  ultimately have "set_masked x chk data i m = Inr (data[i := if x then data ! i OR m else data ! i AND NOT m])"
    using assms(1) by (auto simp: set_masked_def read_at_ok write_at_ok verify_def)
  then show ?thesis by (intro exI conjI) (auto simp: bit_or_iff bit_and_iff bit_not_iff split: if_splits)
qed

lemma range_byte_cases:
  fixes i :: nat
  assumes "a < 8" "e < 8" "j < k"
  shows "j * 8 + a \<le> i \<and> i < k * 8 + e \<longleftrightarrow>
    i div 8 = j \<and> a \<le> i mod 8 \<or> j < i div 8 \<and> i div 8 < k \<or> i div 8 = k \<and> i mod 8 < e"
proof -
  define q r where "q = i div 8" and "r = i mod 8"
  have "i = q * 8 + r" "r < 8" by (simp_all add: q_def r_def)
  then have "j * 8 + a \<le> i \<and> i < k * 8 + e \<longleftrightarrow> q = j \<and> a \<le> r \<or> j < q \<and> q < k \<or> q = k \<and> r < e"
    using assms by (cases q j rule: linorder_cases; cases q k rule: linorder_cases) auto
  then show ?thesis by (simp add: q_def r_def)
qed

lemma range_same_byte:
  fixes i :: nat
  assumes "a < 8" "e < 8"
  shows "k * 8 + a \<le> i \<and> i < k * 8 + e \<longleftrightarrow> i div 8 = k \<and> a \<le> i mod 8 \<and> i mod 8 < e"
proof -
  define q r where "q = i div 8" and "r = i mod 8"
  have "i = q * 8 + r" "r < 8" by (simp_all add: q_def r_def)
  then have "k * 8 + a \<le> i \<and> i < k * 8 + e \<longleftrightarrow> q = k \<and> a \<le> r \<and> r < e"
    using assms by (cases q k rule: linorder_cases) auto
  then show ?thesis by (simp add: q_def r_def)
qed

lemma masked_bits_flip:
  assumes "none_in x b s t" "\<And>n. n < 8 \<Longrightarrow> bit m n \<Longrightarrow> s \<le> j * 8 + n \<and> j * 8 + n < t"
  shows "\<forall>n<8. bit m n \<longrightarrow> bit (bm_data b ! j) n \<noteq> x"
  using assms unfolding none_in_def by (metis bits_of_byte)

text \<open>The data after \<open>set_range\<close>: the bits of the range have the value, the others are kept.\<close>

definition range_set :: "bool \<Rightarrow> bitmap \<Rightarrow> nat \<Rightarrow> nat \<Rightarrow> u8 list \<Rightarrow> bool" where
  "range_set x b start len d \<longleftrightarrow> length d = length (bm_data b) \<and>
     (\<forall>i<8 * length d. bits (b\<lparr>bm_data := d\<rparr>) i \<longleftrightarrow> (if start \<le> i \<and> i < start + len then x else bits b i))"

lemma set_range_one_byte:
  assumes st: "start = k * 8 + a" and en: "start + len = k * 8 + e" and a8: "a < 8" and e8: "e < 8"
    and kl: "k < length (bm_data b)" and c: "chk \<longrightarrow> none_in x b start (start + len)"
  shows "\<exists>d. set_masked x chk (bm_data b) k (bitmask_first_byte ! a AND bitmask_last_byte ! e) = Inr d \<and>
    range_set x b start len d"
proof -
  define F L where "F = bitmask_first_byte ! a" and "L = bitmask_last_byte ! e"
  have FL: "bit F n \<longleftrightarrow> a \<le> n" "bit L n \<longleftrightarrow> n < e" if "n < 8" for n
    using that a8 e8 by (simp_all add: F_def L_def bit_bitmask_first bit_bitmask_last)
  have "chk \<longrightarrow> (\<forall>n<8. bit (F AND L) n \<longrightarrow> bit (bm_data b ! k) n \<noteq> x)"
    using c masked_bits_flip [of x b start "start + len" "F AND L" k] st en FL
    by (auto simp: bit_and_iff)
  from set_masked_spec [OF kl this] obtain y where y:
    "set_masked x chk (bm_data b) k (F AND L) = Inr ((bm_data b)[k := y])"
    "\<forall>n<8. bit y n \<longleftrightarrow> (if bit (F AND L) n then x else bit (bm_data b ! k) n)" by blast
  have rng: "start \<le> i \<and> i < start + len \<longleftrightarrow> i div 8 = k \<and> a \<le> i mod 8 \<and> i mod 8 < e" for i
    unfolding en unfolding st by (rule range_same_byte [OF a8 e8])
  then have "range_set x b start len ((bm_data b)[k := y])"
    using y(2) kl FL by (auto simp: range_set_def rng bits_def bit_and_iff nth_list_update)
  with y(1) show ?thesis by (auto simp: F_def L_def)
qed

lemma set_range_bytes:
  assumes st: "start = j * 8 + a" and en: "start + len = k * 8 + e" and a8: "a < 8" and e8: "e < 8"
    and jk: "j < k" and kl: "k < length (bm_data b)" and c: "chk \<longrightarrow> none_in x b start (start + len)"
  shows "\<exists>d. rbind (set_masked x chk (bm_data b) j (bitmask_first_byte ! a)) (\<lambda>data.
      rbind (set_masked x chk data k (bitmask_last_byte ! e)) (\<lambda>data.
        if j + 1 < k then memset_at data (j + 1) (if x then 0xFF else 0x0) (k - (j + 1)) else Inr data)) = Inr d \<and>
    range_set x b start len d"
proof -
  define F L where "F = bitmask_first_byte ! a" and "L = bitmask_last_byte ! e"
  have FL: "bit F n \<longleftrightarrow> a \<le> n" "bit L n \<longleftrightarrow> n < e" if "n < 8" for n
    using that a8 e8 by (simp_all add: F_def L_def bit_bitmask_first bit_bitmask_last)
  have "chk \<longrightarrow> (\<forall>n<8. bit F n \<longrightarrow> bit (bm_data b ! j) n \<noteq> x)"
    using c masked_bits_flip [of x b start "start + len" F j] st en jk FL by auto
  from set_masked_spec [OF less_trans [OF jk kl] this] obtain y where y:
    "set_masked x chk (bm_data b) j F = Inr ((bm_data b)[j := y])"
    "\<forall>n<8. bit y n \<longleftrightarrow> (if bit F n then x else bit (bm_data b ! j) n)" by blast
  define d1 where "d1 = (bm_data b)[j := y]"
  have "chk \<longrightarrow> (\<forall>n<8. bit L n \<longrightarrow> bit (d1 ! k) n \<noteq> x)"
    using c masked_bits_flip [of x b start "start + len" L k] st en jk a8 FL by (auto simp: d1_def)
  moreover have kl1: "k < length d1" using kl by (simp add: d1_def)
  ultimately obtain z where z:
    "set_masked x chk d1 k L = Inr (d1[k := z])"
    "\<forall>n<8. bit z n \<longleftrightarrow> (if bit L n then x else bit (d1 ! k) n)" using set_masked_spec by blast
  define d2 where "d2 = d1[k := z]"
  define d3 where "d3 = take (j + 1) d2 @ replicate (k - (j + 1)) (if x then 0xFF else 0x0) @ drop k d2"
  have d3: "(if j + 1 < k then memset_at d2 (j + 1) (if x then 0xFF else 0x0) (k - (j + 1)) else Inr d2) = Inr d3"
  proof (cases "j + 1 < k")
    case True
    then show ?thesis using jk kl by (simp add: memset_at_ok d3_def d2_def d1_def)
  next
    case False
    with jk have "k = j + 1" by simp
    then show ?thesis by (simp only: d3_def diff_self_eq_0 replicate_0 append_Nil append_take_drop_id) simp
  qed
  have "length d3 = length (bm_data b)"
    using jk kl by (simp add: d3_def d2_def d1_def)
  moreover have "bit (d3 ! (i div 8)) (i mod 8) \<longleftrightarrow> (if start \<le> i \<and> i < start + len then x else bits b i)"
    if i: "i < 8 * length d3" for i
  proof -
    have il: "i div 8 < length d2" using i jk kl by (simp add: d3_def d2_def d1_def less_mult_imp_div_less)
    have ff: "bit (if x then 0xFF else 0x0 :: u8) (i mod 8) \<longleftrightarrow> x"
      using bit_bitmask_first [of 0 "i mod 8"] by (simp add: bitmask_first_byte_def)
    have "d3 ! (i div 8) = (if j < i div 8 \<and> i div 8 < k then (if x then 0xFF else 0x0) else d2 ! (i div 8))"
      using nth_memset [of "j + 1" "k - (j + 1)" d2 "i div 8"] jk kl il
      by (simp add: d3_def d2_def d1_def Suc_le_eq)
    then show ?thesis
      unfolding en unfolding st range_byte_cases [OF a8 e8 jk]
      using ff y(2) z(2) FL jk kl by (auto simp: bits_def d2_def d1_def nth_list_update)
  qed
  ultimately have "range_set x b start len d3" by (simp add: range_set_def)
  with y(1) z(1) d3 show ?thesis
    unfolding F_def [symmetric] L_def [symmetric] by (intro exI [of _ d3]) (simp only: rbind_simps d1_def d2_def simp_thms)
qed

lemma set_range_spec:
  assumes v: "wf_view b" and s: "start + len \<le> bm_size b" "0 < len"
    and l: "(start + len) div 8 < length (bm_data b)"
    and c: "chk \<longrightarrow> none_in x b start (start + len)"
  shows "\<exists>d. Bitmap_set_range_t x chk b start len = Inr (b\<lparr>bm_data := d\<rparr>) \<and> range_set x b start len d"
proof -
  define a j e k where "a = start mod 8" and "j = start div 8"
    and "e = (start + len) mod 8" and "k = (start + len) div 8"
  have st: "start = j * 8 + a" and en: "start + len = k * 8 + e" and ae: "a < 8" "e < 8"
    by (simp_all add: a_def j_def e_def k_def)
  have us: "usz (start + len) = start + len" using v s by (intro usz_small) (simp add: wf_view_def)
  have "j \<le> k" unfolding j_def k_def by (rule div_le_mono) simp
  have kl: "k < length (bm_data b)" using l by (simp add: k_def)
  have sz: "start < bm_size b" using s by simp
  note unfold = Bitmap_set_range_t_def Let_def us
  show ?thesis
  proof (cases "j = k")
    case True
    from set_range_one_byte [OF st [unfolded True] en ae kl c] show ?thesis
      using True sz s by (auto simp: unfold simp flip: a_def j_def e_def k_def)
  next
    case False
    with \<open>j \<le> k\<close> have jk: "j < k" by simp
    from set_range_bytes [OF st en ae jk kl c] show ?thesis
      using False sz s by (cases x) (auto simp: unfold simp flip: a_def j_def e_def k_def cong: if_cong)
  qed
qed

text \<open>
  A range that ends with the last byte of the block makes \<open>last\<close> point behind it: the byte there is
  updated, with an empty mask.
\<close>

lemma set_range_overrun:
  assumes v: "wf_view b" and s: "start + len \<le> bm_size b" "0 < len" and e: "start + len = 8 * length (bm_data b)"
    and c: "chk \<longrightarrow> none_in x b start (start + len)"
  shows "Bitmap_set_range_t x chk b start len = Inl Out_Of_Bounds"
proof -
  define a j k F where "a = start mod 8" and "j = start div 8" and "k = length (bm_data b)" and "F = bitmask_first_byte ! a"
  have st: "start = j * 8 + a" "a < 8" by (simp_all add: a_def j_def)
  have jk: "j < k" using e s(2) st(1) by (simp add: k_def)
  have us: "usz (start + len) = 8 * k" using v s e by (simp add: wf_view_def k_def)
  have "chk \<longrightarrow> (\<forall>n<8. bit F n \<longrightarrow> bit (bm_data b ! j) n \<noteq> x)"
    using c masked_bits_flip [of x b start "start + len" F j] st e jk by (auto simp: F_def bit_bitmask_first k_def)
  from set_masked_spec [OF _ this] jk obtain y where y: "set_masked x chk (bm_data b) j F = Inr ((bm_data b)[j := y])"
    by (auto simp: k_def)
  have "set_masked x chk ((bm_data b)[j := y]) k m = Inl Out_Of_Bounds" for m
    by (simp add: set_masked_def read_at_def k_def)
  then show ?thesis
    using us s e jk y by (simp add: Bitmap_set_range_t_def Let_def k_def flip: a_def j_def F_def)
qed

lemma set_range_total:
  assumes v: "wf_view b" and s: "start < bm_size b" "start + len \<le> bm_size b"
    and c: "chk \<longrightarrow> none_in x b start (start + len)"
  shows "if len \<noteq> 0 \<and> start + len = 8 * length (bm_data b) then Bitmap_set_range_t x chk b start len = Inl Out_Of_Bounds
    else \<exists>d. Bitmap_set_range_t x chk b start len = Inr (b\<lparr>bm_data := d\<rparr>) \<and> range_set x b start len d"
proof (cases "len = 0")
  case True
  have "usz start \<le> bm_size b" using s v by (simp add: wf_view_def)
  then have "Bitmap_set_range_t x chk b start len = Inr (b\<lparr>bm_data := bm_data b\<rparr>)"
    using True s by (simp add: Bitmap_set_range_t_def)
  moreover have "range_set x b start len (bm_data b)" using True by (auto simp: range_set_def)
  ultimately show ?thesis using True by (simp only: simp_thms if_False) blast
next
  case False
  have "bm_size b \<le> 8 * length (bm_data b)"
    using v size_in_bytes_bound [of "8 * length (bm_data b)" b] by (force simp: wf_view_def)
  then have "(start + len) div 8 < length (bm_data b)" if "start + len \<noteq> 8 * length (bm_data b)" using s(2) that by simp
  then show ?thesis using set_range_overrun [OF v s(2) _ _ c] set_range_spec [OF v s(2) _ _ c] False by simp
qed

section \<open>Construction and faults\<close>

lemma fill_spec:
  assumes "Bitmap_size_in_bytes b \<le> length (bm_data b)"
  shows "\<exists>d. Bitmap_fill b x = Inr (b\<lparr>bm_data := d\<rparr>) \<and> length d = length (bm_data b) \<and>
    (\<forall>i<8 * Bitmap_size_in_bytes b. bits (b\<lparr>bm_data := d\<rparr>) i \<longleftrightarrow> x)"
proof -
  define n where "n = Bitmap_size_in_bytes b"
  define d where "d = take 0 (bm_data b) @ replicate n (if x then 0xff else 0x00) @ drop (0 + n) (bm_data b)"
  have "Bitmap_fill b x = Inr (b\<lparr>bm_data := d\<rparr>)" "length d = length (bm_data b)"
    using assms by (simp_all add: Bitmap_fill_def memset_at_ok d_def n_def)
  moreover have "bit (d ! (i div 8)) (i mod 8) \<longleftrightarrow> x" if "i < 8 * n" for i
  proof -
    have "bit (if x then 0xff else 0x00 :: u8) (i mod 8) \<longleftrightarrow> x"
      using bit_bitmask_first [of 0 "i mod 8"] by (simp add: bitmask_first_byte_def)
    moreover have "i div 8 < n" using that by (simp add: less_mult_imp_div_less)
    ultimately show ?thesis by (simp add: d_def nth_append)
  qed
  ultimately show ?thesis by (intro exI [of _ d]) (simp add: n_def)
qed

lemma size_in_bytes_covers: "i < bm_size b \<Longrightarrow> i < 8 * Bitmap_size_in_bytes b"
  using less_ceil_div_iff [of 8 "i div 8" "bm_size b"] div_mod_8 [of i]
  unfolding Bitmap_size_in_bytes_def by linarith

text \<open>The constructor gives a well-formed bitmap with every bit at the default value.\<close>

lemma create_spec:
  assumes "0 < n" "n < 2 ^ 32" "\<And>k. length (snd (kmalloc k)) = k"
  shows "\<exists>b. Bitmap_create kmalloc n x = Inr b \<and> wf_view b \<and> bm_size b = n \<and> bm_is_owning b \<and>
    (\<forall>i<n. bits b i \<longleftrightarrow> x)"
proof -
  define k where "k = ceil_div n 8"
  define b where "b = \<lparr>bm_addr = fst (kmalloc k), bm_data = snd (kmalloc k), bm_size = n, bm_is_owning = True\<rparr>"
  have "Bitmap_size_in_bytes b \<le> length (bm_data b)" using assms(3) by (simp add: b_def Bitmap_size_in_bytes_def k_def)
  from fill_spec [OF this, of x] obtain d where d: "Bitmap_fill b x = Inr (b\<lparr>bm_data := d\<rparr>)"
    "length d = length (bm_data b)" "\<forall>i<8 * Bitmap_size_in_bytes b. bits (b\<lparr>bm_data := d\<rparr>) i \<longleftrightarrow> x" by blast
  have "Bitmap_create kmalloc n x = Bitmap_fill b x"
    using assms(1) by (simp add: Bitmap_create_def Bitmap_default_def b_def k_def Bitmap_size_in_bytes_def case_prod_beta)
  moreover have "wf_view (b\<lparr>bm_data := d\<rparr>)"
    using d(2) assms by (simp add: wf_view_def b_def BitmapView_size_in_bytes_def k_def)
  ultimately show ?thesis
    using d size_in_bytes_covers [of _ b] by (intro exI [of _ "b\<lparr>bm_data := d\<rparr>"]) (auto simp: b_def)
qed

lemma create_empty: "Bitmap_create kmalloc 0 x = Inl Verify_Failed"
  by (simp add: Bitmap_create_def)

lemma set_range_past_end:
  assumes "wf_view b" "start < bm_size b" "start + len = bm_size b" "bm_size b mod 8 = 0"
    "length (bm_data b) = Bitmap_size_in_bytes b"
  shows "Bitmap_set_range b start len x = Inl Out_Of_Bounds"
  using assms set_range_overrun [of b start len False x]
  by (cases x) (simp_all add: Bitmap_set_range_def Bitmap_size_in_bytes_def ceil_div_def mod_0_imp_dvd)

text \<open>
  \<open>set_range_and_verify_that_all_bits_flip\<close> checks the first and the last byte only: the
  bytes between them are overwritten whatever they hold.
\<close>

lemma verify_skips_middle:
  "Bitmap_set_range_and_verify_that_all_bits_flip (Bitmap_of_data a [0, 0xff, 0, 0] 32 False) 0 20 True
    = Inr (Bitmap_of_data a [0xff, 0xff, 0x0f, 0] 32 False)"
  by (simp add: Bitmap_set_range_and_verify_that_all_bits_flip_def Bitmap_set_range_t_def Bitmap_of_data_def
      set_masked_def read_at_def write_at_def memset_at_def bitmask_first_byte_def bitmask_last_byte_def usz_def)

section \<open>Growing\<close>

text \<open>The new bitmap before its old last byte is completed: old bytes, then default bits.\<close>

lemma grow_copied:
  assumes km: "\<And>k. length (snd (kmalloc k)) = k" and wf: "wf_view b" and nn: "bm_addr b \<noteq> 0"
    and n: "bm_size b < n" "n < 2 ^ 32"
  shows "\<exists>B. Bitmap_grow kmalloc b n x =
      rbind (if bm_size b mod 8 \<noteq> 0 then Bitmap_set_range B (bm_size b) (8 - bm_size b mod 8) x else Inr B)
        (\<lambda>b3. Inr (b3, Some (bm_addr b, Bitmap_size_in_bytes b))) \<and>
    wf_view B \<and> bm_size B = n \<and> length (bm_data B) = Bitmap_size_in_bytes B \<and>
    (\<forall>i<8 * Bitmap_size_in_bytes B. bits B i \<longleftrightarrow> (if i < 8 * Bitmap_size_in_bytes b then bits b i else x))"
proof -
  define k p where "k = ceil_div n 8" and "p = Bitmap_size_in_bytes b"
  define b1 where "b1 = b\<lparr>bm_size := n, bm_addr := fst (kmalloc k), bm_data := snd (kmalloc k)\<rparr>"
  have k: "Bitmap_size_in_bytes b1 = k" "length (bm_data b1) = k"
    using km by (simp_all add: b1_def Bitmap_size_in_bytes_def k_def)
  then obtain f where f: "Bitmap_fill b1 x = Inr (b1\<lparr>bm_data := f\<rparr>)" "length f = k"
    "\<forall>i<8 * k. bits (b1\<lparr>bm_data := f\<rparr>) i \<longleftrightarrow> x" using fill_spec [of b1 x] by auto
  have pk: "p \<le> k" "p \<le> length (bm_data b)"
    using n wf by (simp_all add: p_def k_def Bitmap_size_in_bytes_def ceil_div_eq wf_view_def BitmapView_size_in_bytes_def div_le_mono)
  define d where "d = take 0 f @ take p (bm_data b) @ drop (0 + p) f"
  have cpy: "memcpy_at f 0 (bm_data b) p = Inr d" "length d = k"
    using pk f(2) by (simp_all add: memcpy_at_ok d_def min_absorb2)
  define B where "B = b1\<lparr>bm_data := d\<rparr>"
  have "Bitmap_grow kmalloc b n x =
      rbind (if bm_size b mod 8 \<noteq> 0 then Bitmap_set_range B (bm_size b) (8 - bm_size b mod 8) x else Inr B)
        (\<lambda>b3. Inr (b3, Some (bm_addr b, p)))"
  proof -
    have "b\<lparr>bm_addr := fst (kmalloc k), bm_data := snd (kmalloc k), bm_size := n\<rparr> = b1" by (simp add: b1_def)
    then show ?thesis
      using n nn f(1) cpy by (simp add: Bitmap_grow_def Bitmap_size_in_bytes_def case_prod_beta Let_def B_def b1_def
          flip: k_def p_def [unfolded Bitmap_size_in_bytes_def])
  qed
  moreover have "wf_view B" "bm_size B = n" "length (bm_data B) = Bitmap_size_in_bytes B" "Bitmap_size_in_bytes B = k"
    using cpy(2) n k by (simp_all add: B_def b1_def wf_view_def BitmapView_size_in_bytes_def Bitmap_size_in_bytes_def k_def)
  moreover have "bits B i \<longleftrightarrow> (if i < 8 * p then bits b i else x)" if "i < 8 * k" for i
  proof -
    have "i div 8 < p \<longleftrightarrow> i < 8 * p" "i div 8 < k" using that by (auto simp: less_mult_imp_div_less)
    then show ?thesis
      using nth_memcpy [of 0 p f "bm_data b" "i div 8"] pk f(2,3) that by (simp add: B_def d_def bits_def)
  qed
  ultimately show ?thesis by (intro exI [of _ B]) (simp add: p_def)
qed

text \<open>
  Growing within the old last byte fails its own check, and growing exactly to the end of the
  old last byte writes behind the new block.
\<close>

lemma grow_within_byte:
  assumes km: "\<And>k. length (snd (kmalloc k)) = k" and wf: "wf_view b" and nn: "bm_addr b \<noteq> 0"
    and n: "bm_size b < n" "n + 8 < 2 ^ 32" and m: "bm_size b mod 8 \<noteq> 0"
    and le: "n \<le> bm_size b + (8 - bm_size b mod 8)"
  shows "Bitmap_grow kmalloc b n x =
    Inl (if n < bm_size b + (8 - bm_size b mod 8) then Verify_Failed else Out_Of_Bounds)"
proof -
  have n': "n < 2 ^ 32" using n(2) by simp
  obtain B where B: "Bitmap_grow kmalloc b n x =
      rbind (Bitmap_set_range B (bm_size b) (8 - bm_size b mod 8) x)
        (\<lambda>b3. Inr (b3, Some (bm_addr b, Bitmap_size_in_bytes b)))"
    "wf_view B" "bm_size B = n" "length (bm_data B) = Bitmap_size_in_bytes B"
    using grow_copied [OF km wf nn n(1) n', of x] m by auto
  show ?thesis
  proof (cases "n < bm_size b + (8 - bm_size b mod 8)")
    case True
    have "usz (bm_size b + (8 - bm_size b mod 8)) = bm_size b + (8 - bm_size b mod 8)"
      using n by (intro usz_small) linarith
    then show ?thesis
      using True B n(1) by (simp add: Bitmap_set_range_def Bitmap_set_range_t_def)
  next
    case False
    with le have e: "bm_size b + (8 - bm_size b mod 8) = n" by simp
    then have "n = (bm_size b div 8 + 1) * 8" by (simp only: round_up_8)
    then have "n mod 8 = 0" by (simp only: mod_mult_self2_is_0)
    then show ?thesis using set_range_past_end [OF B(2), of "bm_size b" "8 - bm_size b mod 8" x] B e n(1) False by simp
  qed
qed

text \<open>Growing further keeps the old bits and gives the new ones the default value.\<close>

lemma grow_spec:
  assumes km: "\<And>k. length (snd (kmalloc k)) = k" and wf: "wf_view b" and nn: "bm_addr b \<noteq> 0"
    and n: "bm_size b < n" "n < 2 ^ 32"
    and fits: "bm_size b mod 8 = 0 \<or> bm_size b + (8 - bm_size b mod 8) < n"
  shows "\<exists>b'. Bitmap_grow kmalloc b n x = Inr (b', Some (bm_addr b, Bitmap_size_in_bytes b)) \<and>
    wf_view b' \<and> bm_size b' = n \<and> (\<forall>i<n. bits b' i \<longleftrightarrow> (if i < bm_size b then bits b i else x))"
proof -
  obtain B where B: "Bitmap_grow kmalloc b n x =
      rbind (if bm_size b mod 8 \<noteq> 0 then Bitmap_set_range B (bm_size b) (8 - bm_size b mod 8) x else Inr B)
        (\<lambda>b3. Inr (b3, Some (bm_addr b, Bitmap_size_in_bytes b)))"
    "wf_view B" "bm_size B = n" "length (bm_data B) = Bitmap_size_in_bytes B"
    "\<forall>i<8 * Bitmap_size_in_bytes B. bits B i \<longleftrightarrow> (if i < 8 * Bitmap_size_in_bytes b then bits b i else x)"
    using grow_copied [OF km wf nn n, of x] by blast
  have cov: "i < 8 * Bitmap_size_in_bytes B" if "i < n" for i
    using that B(3) by (intro size_in_bytes_covers) simp
  define r where "r = bm_size b + (8 - bm_size b mod 8)"
  show ?thesis
  proof (cases "bm_size b mod 8 = 0")
    case True
    then have "8 * Bitmap_size_in_bytes b = bm_size b" by (auto simp: Bitmap_size_in_bytes_def ceil_div_def)
    then show ?thesis using True B cov by auto
  next
    case False
    with fits have rn: "r < n" by (simp add: r_def)
    have r8: "8 * Bitmap_size_in_bytes b = r" "r div 8 < length (bm_data B)"
    proof -
      show "8 * Bitmap_size_in_bytes b = r"
        using False by (simp add: Bitmap_size_in_bytes_def ceil_div_def r_def round_up_8)
      show "r div 8 < length (bm_data B)" using wf_view_byte [OF B(2)] rn B(3) by simp
    qed
    have "\<exists>d. Bitmap_set_range_t x False B (bm_size b) (8 - bm_size b mod 8) = Inr (B\<lparr>bm_data := d\<rparr>) \<and>
        range_set x B (bm_size b) (8 - bm_size b mod 8) d"
      using B(2,3) rn r8(2) by (intro set_range_spec) (auto simp: r_def)
    then obtain d where d: "Bitmap_set_range_t x False B (bm_size b) (8 - bm_size b mod 8) = Inr (B\<lparr>bm_data := d\<rparr>)"
      "length d = length (bm_data B)"
      "\<forall>i<8 * length d. bits (B\<lparr>bm_data := d\<rparr>) i \<longleftrightarrow> (if bm_size b \<le> i \<and> i < r then x else bits B i)"
      unfolding r_def range_set_def by blast
    have "wf_view (B\<lparr>bm_data := d\<rparr>)" using B(2) d(2) by (simp add: wf_view_def BitmapView_size_in_bytes_def)
    then show ?thesis
      using False B d cov r8 size_in_bytes_covers [of _ b] by (intro exI [of _ "B\<lparr>bm_data := d\<rparr>"]) (auto simp: Bitmap_set_range_def)
  qed
qed

end
