(* ===== verification/Kernel_Heap.thy ===== *)
theory Kernel_Heap
  imports Bitmap
begin

text \<open>
  \<open>kernel/heap/Heap.h\<close>: the chunk allocator behind \<open>kmalloc\<close>. A heap owns a block of
  memory: its chunks come first, the bitmap of used chunks lies behind them. The state keeps the
  bytes of the chunks (an allocation starts with a header that holds its length in chunks) and
  the bitmap with the bytes behind the chunks. Pointers are addresses, a null pointer is
  \<open>None\<close>. The template parameters \<open>CHUNK_SIZE\<close>, \<open>HEAP_SCRUB_BYTE_ALLOC\<close> and
  \<open>HEAP_SCRUB_BYTE_FREE\<close> are arguments; sizes are those of the i686 target.
\<close>

section \<open>Heap\<close>

record heap =
  h_total_chunks :: nat
  h_allocated_chunks :: nat
  h_chunks :: nat
  h_memory :: "u8 list"
  h_bitmap :: bitmap

definition sizeof_AllocationHeader :: nat where
  "sizeof_AllocationHeader = 4"

definition Heap_allocation_header :: "nat \<Rightarrow> nat" where
  "Heap_allocation_header ptr = usub ptr sizeof_AllocationHeader"

definition Heap_calculate_chunks :: "nat \<Rightarrow> nat \<Rightarrow> nat" where
  "Heap_calculate_chunks CHUNK_SIZE memory_size = memory_size div (CHUNK_SIZE + 1)"

definition Heap_create :: "nat \<Rightarrow> nat \<Rightarrow> u8 list \<Rightarrow> heap res" where
  "Heap_create CHUNK_SIZE addr memory =
     (let memory_size = length memory;
          total_chunks = Heap_calculate_chunks CHUNK_SIZE memory_size;
          chunk_bytes = usz (total_chunks * CHUNK_SIZE)
      in verify (usz (chunk_bytes + (total_chunks + 7) div 8) \<le> memory_size)
           (Inr \<lparr>h_total_chunks = total_chunks, h_allocated_chunks = 0, h_chunks = addr,
                 h_memory = take chunk_bytes memory,
                 h_bitmap = Bitmap_of_data (addr + chunk_bytes) (drop chunk_bytes memory) total_chunks False\<rparr>))"

definition Heap_calculate_memory_for_bytes :: "nat \<Rightarrow> nat \<Rightarrow> nat" where
  "Heap_calculate_memory_for_bytes CHUNK_SIZE bytes =
     (let needed_chunks = usz (sizeof_AllocationHeader + bytes + CHUNK_SIZE - 1) div CHUNK_SIZE
      in usz (needed_chunks * CHUNK_SIZE + (needed_chunks + 7) div 8))"

definition Heap_total_bytes :: "nat \<Rightarrow> heap \<Rightarrow> nat" where
  "Heap_total_bytes CHUNK_SIZE h = usz (h_total_chunks h * CHUNK_SIZE)"

definition Heap_free_chunks :: "heap \<Rightarrow> nat" where
  "Heap_free_chunks h = usub (h_total_chunks h) (h_allocated_chunks h)"

definition Heap_free_bytes :: "nat \<Rightarrow> heap \<Rightarrow> nat" where
  "Heap_free_bytes CHUNK_SIZE h = usz (Heap_free_chunks h * CHUNK_SIZE)"

definition Heap_allocated_bytes :: "nat \<Rightarrow> heap \<Rightarrow> nat" where
  "Heap_allocated_bytes CHUNK_SIZE h = usz (h_allocated_chunks h * CHUNK_SIZE)"

definition best_fit_threshold :: nat where
  "best_fit_threshold = 128"

definition chunks_for :: "nat \<Rightarrow> nat \<Rightarrow> nat" where
  "chunks_for CHUNK_SIZE bytes =
     (let real_size = usz (bytes + sizeof_AllocationHeader)
      in usz (real_size + CHUNK_SIZE - 1) div CHUNK_SIZE)"

text \<open>
  \<open>allocate\<close>. The best-fit search may not end; the result is \<open>None\<close> then, and \<open>Some\<close>
  of the outcome otherwise.
\<close>

definition Heap_take_chunks :: "nat \<Rightarrow> u32 \<Rightarrow> heap \<Rightarrow> nat \<Rightarrow> nat \<Rightarrow> (nat option \<times> heap) res" where
  "Heap_take_chunks CHUNK_SIZE HEAP_SCRUB_BYTE_ALLOC h first_chunk chunks_needed =
     (let a = first_chunk * CHUNK_SIZE; ptr = a + sizeof_AllocationHeader in
      rbind (store_le32 (h_memory h) a (of_nat chunks_needed)) (\<lambda>memory.
      rbind (Bitmap_set_range_and_verify_that_all_bits_flip (h_bitmap h) first_chunk chunks_needed True) (\<lambda>bitmap.
      rbind (if HEAP_SCRUB_BYTE_ALLOC \<noteq> 0
             then memset_at memory ptr (ucast HEAP_SCRUB_BYTE_ALLOC)
                    (usub (usz (chunks_needed * CHUNK_SIZE)) sizeof_AllocationHeader)
             else Inr memory) (\<lambda>memory.
      Inr (Some (h_chunks h + ptr),
           h\<lparr>h_memory := memory, h_bitmap := bitmap,
             h_allocated_chunks := usz (h_allocated_chunks h + chunks_needed)\<rparr>)))))"

definition Heap_allocate :: "nat \<Rightarrow> u32 \<Rightarrow> heap \<Rightarrow> nat \<Rightarrow> (nat option \<times> heap) res option" where
  "Heap_allocate CHUNK_SIZE HEAP_SCRUB_BYTE_ALLOC h bytes =
     (let chunks_needed = chunks_for CHUNK_SIZE bytes in
      if chunks_needed > Heap_free_chunks h then Some (Inr (None, h))
      else map_option (\<lambda>found. rbind found (\<lambda>first_chunk.
             case first_chunk of
               None \<Rightarrow> Inr (None, h)
             | Some first_chunk \<Rightarrow> Heap_take_chunks CHUNK_SIZE HEAP_SCRUB_BYTE_ALLOC h first_chunk chunks_needed))
           (if chunks_needed < best_fit_threshold
            then Some (Bitmap_find_first_fit (h_bitmap h) chunks_needed)
            else Bitmap_find_best_fit (h_bitmap h) chunks_needed))"

definition Heap_deallocate :: "nat \<Rightarrow> u32 \<Rightarrow> heap \<Rightarrow> nat option \<Rightarrow> heap res" where
  "Heap_deallocate CHUNK_SIZE HEAP_SCRUB_BYTE_FREE h ptr =
     (case ptr of
        None \<Rightarrow> Inr h
      | Some ptr \<Rightarrow>
          let a = Heap_allocation_header ptr; end_p = h_chunks h + usz (h_total_chunks h * CHUNK_SIZE) in
          verify (a \<ge> h_chunks h \<and> ptr < end_p)
            (let start = (a - h_chunks h) div CHUNK_SIZE in
             rbind (Bitmap_get (h_bitmap h) start) (\<lambda>used.
             verify used
               (rbind (load_le32 (h_memory h) (a - h_chunks h)) (\<lambda>w.
                let allocation_size_in_chunks = unat w in
                verify (usz (a + usz (allocation_size_in_chunks * CHUNK_SIZE)) \<le> end_p)
                  (rbind (Bitmap_set_range_and_verify_that_all_bits_flip (h_bitmap h) start
                            allocation_size_in_chunks False) (\<lambda>bitmap.
                   verify (h_allocated_chunks h \<ge> allocation_size_in_chunks)
                     (rbind (if HEAP_SCRUB_BYTE_FREE \<noteq> 0
                             then memset_at (h_memory h) (a - h_chunks h) (ucast HEAP_SCRUB_BYTE_FREE)
                                    (usz (allocation_size_in_chunks * CHUNK_SIZE))
                             else Inr (h_memory h)) (\<lambda>memory.
                      Inr (h\<lparr>h_memory := memory, h_bitmap := bitmap,
                             h_allocated_chunks := h_allocated_chunks h - allocation_size_in_chunks\<rparr>))))))))))"

definition Heap_contains :: "nat \<Rightarrow> heap \<Rightarrow> nat \<Rightarrow> bool" where
  "Heap_contains CHUNK_SIZE h ptr =
     (let a = Heap_allocation_header ptr in
      if a < h_chunks h then False
      else if ptr \<ge> h_chunks h + usz (h_total_chunks h * CHUNK_SIZE) then False
      else True)"

section \<open>ExpandableHeap\<close>

text \<open>
  A chain of heaps. The first is part of the object, the others are placed at the start of the
  memory added for them; the chain that \<open>next\<close> links is a list. The expander is a
  parameter: \<open>add_memory\<close> acts on the whole object (it may call \<open>add_subheap\<close>),
  \<open>remove_memory\<close> on the expander.
\<close>

record subheap =
  sh_addr :: nat
  sh_heap :: heap
  sh_memory_size :: nat

record 'e expandable_heap =
  eh_first :: subheap
  eh_rest :: "subheap list"
  eh_expand :: 'e
  eh_expanding :: bool

definition sizeof_SubHeap :: nat where
  "sizeof_SubHeap = 32"

definition DefaultExpandHeap_add_memory :: "nat \<Rightarrow> 'e expandable_heap \<Rightarrow> bool \<times> 'e expandable_heap" where
  "DefaultExpandHeap_add_memory allocation_request eh = (False, eh)"

definition DefaultExpandHeap_remove_memory :: "nat \<Rightarrow> 'e \<Rightarrow> bool \<times> 'e" where
  "DefaultExpandHeap_remove_memory memory expand = (False, expand)"

definition SubHeap_create :: "nat \<Rightarrow> nat \<Rightarrow> nat \<Rightarrow> nat \<Rightarrow> u8 list \<Rightarrow> subheap res" where
  "SubHeap_create CHUNK_SIZE addr memory_size memory_addr memory =
     rbind (Heap_create CHUNK_SIZE memory_addr memory) (\<lambda>h.
       Inr \<lparr>sh_addr = addr, sh_heap = h, sh_memory_size = memory_size\<rparr>)"

definition ExpandableHeap_create :: "nat \<Rightarrow> nat \<Rightarrow> nat \<Rightarrow> u8 list \<Rightarrow> 'e \<Rightarrow> 'e expandable_heap res" where
  "ExpandableHeap_create CHUNK_SIZE this memory_addr memory expand =
     rbind (SubHeap_create CHUNK_SIZE this (length memory) memory_addr memory) (\<lambda>sh.
       Inr \<lparr>eh_first = sh, eh_rest = [], eh_expand = expand, eh_expanding = False\<rparr>)"

definition ExpandableHeap_destroy :: "(nat \<Rightarrow> 'e \<Rightarrow> bool \<times> 'e) \<Rightarrow> 'e expandable_heap \<Rightarrow> 'e" where
  "ExpandableHeap_destroy remove_memory eh =
     fold (\<lambda>sh expand. snd (remove_memory (sh_addr sh) expand)) (eh_rest eh) (eh_expand eh)"

definition ExpandableHeap_calculate_memory_for_bytes :: "nat \<Rightarrow> nat \<Rightarrow> nat" where
  "ExpandableHeap_calculate_memory_for_bytes CHUNK_SIZE bytes =
     usz (sizeof_SubHeap + Heap_calculate_memory_for_bytes CHUNK_SIZE bytes)"

definition ExpandableHeap_expand_memory ::
  "(nat \<Rightarrow> 'e expandable_heap \<Rightarrow> bool \<times> 'e expandable_heap) \<Rightarrow> 'e expandable_heap \<Rightarrow> nat \<Rightarrow>
   bool \<times> 'e expandable_heap" where
  "ExpandableHeap_expand_memory add_memory eh bytes =
     (if eh_expanding eh then (False, eh)
      else let (ok, eh') = add_memory bytes (eh\<lparr>eh_expanding := True\<rparr>)
           in (ok, eh'\<lparr>eh_expanding := eh_expanding eh\<rparr>))"

text \<open>The inner loop of \<open>allocate\<close> over the chain.\<close>

fun allocate_in_subheaps :: "nat \<Rightarrow> u32 \<Rightarrow> subheap list \<Rightarrow> nat \<Rightarrow> (nat option \<times> subheap list) res option" where
  "allocate_in_subheaps CHUNK_SIZE sa [] bytes = Some (Inr (None, []))"
| "allocate_in_subheaps CHUNK_SIZE sa (sh # shs) bytes =
     (case Heap_allocate CHUNK_SIZE sa (sh_heap sh) bytes of
        None \<Rightarrow> None
      | Some (Inl e) \<Rightarrow> Some (Inl e)
      | Some (Inr (Some ptr, h)) \<Rightarrow> Some (Inr (Some ptr, sh\<lparr>sh_heap := h\<rparr> # shs))
      | Some (Inr (None, h)) \<Rightarrow>
          map_option (\<lambda>r. rbind r (\<lambda>(ptr, shs). Inr (ptr, sh\<lparr>sh_heap := h\<rparr> # shs)))
            (allocate_in_subheaps CHUNK_SIZE sa shs bytes))"

definition with_subheaps :: "'e expandable_heap \<Rightarrow> subheap list \<Rightarrow> 'e expandable_heap" where
  "with_subheaps eh shs = eh\<lparr>eh_first := hd shs, eh_rest := tl shs\<rparr>"

text \<open>The outer loop: \<open>attempt\<close> counts the passes made, at most two expansions follow them.\<close>

function allocate_attempts ::
  "nat \<Rightarrow> u32 \<Rightarrow> (nat \<Rightarrow> 'e expandable_heap \<Rightarrow> bool \<times> 'e expandable_heap) \<Rightarrow>
   'e expandable_heap \<Rightarrow> nat \<Rightarrow> nat \<Rightarrow> (nat option \<times> 'e expandable_heap) res option" where
  "allocate_attempts CHUNK_SIZE sa add_memory eh bytes attempt =
     (case allocate_in_subheaps CHUNK_SIZE sa (eh_first eh # eh_rest eh) bytes of
        None \<Rightarrow> None
      | Some (Inl e) \<Rightarrow> Some (Inl e)
      | Some (Inr (Some ptr, shs)) \<Rightarrow> Some (Inr (Some ptr, with_subheaps eh shs))
      | Some (Inr (None, shs)) \<Rightarrow>
          let eh = with_subheaps eh shs in
          if attempt \<ge> 2 then Some (Inr (None, eh))
          else let (ok, eh) = ExpandableHeap_expand_memory add_memory eh bytes in
               if ok then allocate_attempts CHUNK_SIZE sa add_memory eh bytes (attempt + 1)
               else Some (Inr (None, eh)))"
  by pat_completeness auto
termination
  by (relation "measure (\<lambda>(c, sa, add_memory, eh, bytes, attempt). 2 - attempt)") auto

declare allocate_attempts.simps [simp del]

definition ExpandableHeap_allocate ::
  "nat \<Rightarrow> u32 \<Rightarrow> (nat \<Rightarrow> 'e expandable_heap \<Rightarrow> bool \<times> 'e expandable_heap) \<Rightarrow>
   'e expandable_heap \<Rightarrow> nat \<Rightarrow> (nat option \<times> 'e expandable_heap) res option" where
  "ExpandableHeap_allocate CHUNK_SIZE sa add_memory eh bytes =
     allocate_attempts CHUNK_SIZE sa add_memory eh bytes 0"

text \<open>
  \<open>add_subheap\<close>: the memory starts with the \<open>SubHeap\<close> object, \<open>data\<close> are the bytes
  behind it. The chain behind the first heap is kept sorted by address.
\<close>

fun insert_subheap :: "subheap \<Rightarrow> subheap list \<Rightarrow> subheap list" where
  "insert_subheap new_heap [] = [new_heap]"
| "insert_subheap new_heap (next_heap # shs) =
     (if h_chunks (sh_heap new_heap) < h_chunks (sh_heap next_heap) then new_heap # next_heap # shs
      else next_heap # insert_subheap new_heap shs)"

definition ExpandableHeap_add_subheap ::
  "nat \<Rightarrow> 'e expandable_heap \<Rightarrow> nat \<Rightarrow> nat \<Rightarrow> u8 list \<Rightarrow> 'e expandable_heap res" where
  "ExpandableHeap_add_subheap CHUNK_SIZE eh memory memory_size data =
     verify (memory_size > sizeof_SubHeap)
       (let memory_size = memory_size - sizeof_SubHeap in
        rbind (SubHeap_create CHUNK_SIZE memory memory_size (memory + sizeof_SubHeap) (take memory_size data)) (\<lambda>new_heap.
          Inr (eh\<lparr>eh_rest := insert_subheap new_heap (eh_rest eh)\<rparr>)))"

text \<open>
  \<open>deallocate\<close>: the position of the heap that contains the pointer, the first being 0.
\<close>

fun find_subheap :: "nat \<Rightarrow> subheap list \<Rightarrow> nat \<Rightarrow> nat option" where
  "find_subheap CHUNK_SIZE [] ptr = None"
| "find_subheap CHUNK_SIZE (sh # shs) ptr =
     (if Heap_contains CHUNK_SIZE (sh_heap sh) ptr then Some 0
      else map_option Suc (find_subheap CHUNK_SIZE shs ptr))"

definition release_subheap ::
  "nat \<Rightarrow> (nat \<Rightarrow> 'e \<Rightarrow> bool \<times> 'e) \<Rightarrow> 'e expandable_heap \<Rightarrow> nat \<Rightarrow> 'e expandable_heap res" where
  "release_subheap CHUNK_SIZE remove_memory eh i =
     (let subheap = eh_rest eh ! i;
          eh = eh\<lparr>eh_rest := take i (eh_rest eh) @ drop (i + 1) (eh_rest eh)\<rparr>;
          memory_size = sh_memory_size subheap;
          (removed, expand) = remove_memory (sh_addr subheap) (eh_expand eh);
          eh = eh\<lparr>eh_expand := expand\<rparr>
      in if \<not> removed
         then ExpandableHeap_add_subheap CHUNK_SIZE eh (sh_addr subheap) memory_size
                (h_memory (sh_heap subheap) @ bm_data (h_bitmap (sh_heap subheap)))
         else Inr eh)"

definition ExpandableHeap_deallocate ::
  "nat \<Rightarrow> u32 \<Rightarrow> (nat \<Rightarrow> 'e \<Rightarrow> bool \<times> 'e) \<Rightarrow> 'e expandable_heap \<Rightarrow> nat option \<Rightarrow> 'e expandable_heap res" where
  "ExpandableHeap_deallocate CHUNK_SIZE sf remove_memory eh ptr =
     (case ptr of
        None \<Rightarrow> Inr eh
      | Some p \<Rightarrow>
          (let subheaps = eh_first eh # eh_rest eh in
           case find_subheap CHUNK_SIZE subheaps p of
             None \<Rightarrow> Inl Verify_Failed
           | Some i \<Rightarrow>
               rbind (Heap_deallocate CHUNK_SIZE sf (sh_heap (subheaps ! i)) ptr) (\<lambda>h.
                 let eh = with_subheaps eh (subheaps[i := (subheaps ! i)\<lparr>sh_heap := h\<rparr>]) in
                 if h_allocated_chunks h = 0 \<and> i \<noteq> 0 \<and> \<not> eh_expanding eh
                 then release_subheap CHUNK_SIZE remove_memory eh (i - 1)
                 else Inr eh)))"

definition ExpandableHeap_contains :: "nat \<Rightarrow> 'e expandable_heap \<Rightarrow> nat \<Rightarrow> bool" where
  "ExpandableHeap_contains CHUNK_SIZE eh ptr =
     list_ex (\<lambda>sh. Heap_contains CHUNK_SIZE (sh_heap sh) ptr) (eh_first eh # eh_rest eh)"

definition sum_subheaps :: "(heap \<Rightarrow> nat) \<Rightarrow> 'e expandable_heap \<Rightarrow> nat" where
  "sum_subheaps f eh = fold (\<lambda>sh total. usz (total + f (sh_heap sh))) (eh_first eh # eh_rest eh) 0"

definition ExpandableHeap_total_chunks :: "'e expandable_heap \<Rightarrow> nat" where
  "ExpandableHeap_total_chunks eh = sum_subheaps h_total_chunks eh"

definition ExpandableHeap_free_chunks :: "'e expandable_heap \<Rightarrow> nat" where
  "ExpandableHeap_free_chunks eh = sum_subheaps Heap_free_chunks eh"

definition ExpandableHeap_allocated_chunks :: "'e expandable_heap \<Rightarrow> nat" where
  "ExpandableHeap_allocated_chunks eh = sum_subheaps h_allocated_chunks eh"

definition ExpandableHeap_total_bytes :: "nat \<Rightarrow> 'e expandable_heap \<Rightarrow> nat" where
  "ExpandableHeap_total_bytes CHUNK_SIZE eh = usz (ExpandableHeap_total_chunks eh * CHUNK_SIZE)"

definition ExpandableHeap_free_bytes :: "nat \<Rightarrow> 'e expandable_heap \<Rightarrow> nat" where
  "ExpandableHeap_free_bytes CHUNK_SIZE eh = usz (ExpandableHeap_free_chunks eh * CHUNK_SIZE)"

definition ExpandableHeap_allocated_bytes :: "nat \<Rightarrow> 'e expandable_heap \<Rightarrow> nat" where
  "ExpandableHeap_allocated_bytes CHUNK_SIZE eh = usz (ExpandableHeap_allocated_chunks eh * CHUNK_SIZE)"

section \<open>The blocks of a heap\<close>

text \<open>
  The abstract state is the map from the first chunk of each live allocation to its length in
  chunks. \<open>heap_inv\<close> is what the fields keep on their own, \<open>live_blocks\<close> relates them to
  the map: the bitmap marks exactly the chunks of live blocks, blocks do not overlap, and every
  block starts with its length.
\<close>

definition heap_inv :: "nat \<Rightarrow> heap \<Rightarrow> bool" where
  "heap_inv C h \<longleftrightarrow> 4 < C \<and> wf_view (h_bitmap h) \<and> bm_size (h_bitmap h) = h_total_chunks h \<and>
     (h_total_chunks h \<noteq> 0 \<longrightarrow> h_total_chunks h div 8 < length (bm_data (h_bitmap h))) \<and>
     length (h_memory h) = h_total_chunks h * C \<and> h_chunks h + h_total_chunks h * C < 2 ^ 32 \<and>
     h_allocated_chunks h = card {i. i < h_total_chunks h \<and> bits (h_bitmap h) i}"

definition live_blocks :: "nat \<Rightarrow> heap \<Rightarrow> (nat \<rightharpoonup> nat) \<Rightarrow> bool" where
  "live_blocks C h live \<longleftrightarrow>
     (\<forall>s n. live s = Some n \<longrightarrow> 0 < n \<and> s + n \<le> h_total_chunks h \<and> load_le32 (h_memory h) (s * C) = Inr (of_nat n)) \<and>
     (\<forall>s n s' n'. live s = Some n \<longrightarrow> live s' = Some n' \<longrightarrow> s \<noteq> s' \<longrightarrow> s + n \<le> s' \<or> s' + n' \<le> s) \<and>
     (\<forall>i<h_total_chunks h. bits (h_bitmap h) i \<longleftrightarrow> (\<exists>s n. live s = Some n \<and> s \<le> i \<and> i < s + n))"

definition heap_rel :: "nat \<Rightarrow> heap \<Rightarrow> (nat \<rightharpoonup> nat) \<Rightarrow> bool" where
  "heap_rel C h live \<longleftrightarrow> heap_inv C h \<and> live_blocks C h live"

lemma total_less: "heap_inv C h \<Longrightarrow> h_total_chunks h < 2 ^ 32"
  unfolding heap_inv_def wf_view_def by metis

lemma total_bytes_less: "heap_inv C h \<Longrightarrow> h_total_chunks h * C < 2 ^ 32"
  unfolding heap_inv_def by linarith

lemma allocated_le: "heap_inv C h \<Longrightarrow> h_allocated_chunks h \<le> h_total_chunks h"
  unfolding heap_inv_def using card_mono [of "{..<h_total_chunks h}" "{i. i < h_total_chunks h \<and> bits (h_bitmap h) i}"]
  by auto

lemma free_chunks_eq: "heap_inv C h \<Longrightarrow> Heap_free_chunks h = h_total_chunks h - h_allocated_chunks h"
  by (simp add: Heap_free_chunks_def allocated_le total_less [simplified])

lemma window_fits:
  assumes "heap_inv C h" "free_window (h_bitmap h) n s"
  shows "n \<le> Heap_free_chunks h"
proof -
  let ?T = "h_total_chunks h" and ?S = "{i. i < h_total_chunks h \<and> bits (h_bitmap h) i}"
  have "{s..<s + n} \<subseteq> {..<?T} - ?S"
    using assms by (auto simp: free_window_def unset_range_def heap_inv_def)
  then have "card {s..<s + n} \<le> card ({..<?T} - ?S)" by (intro card_mono) auto
  also have "\<dots> = ?T - card ?S" by (subst card_Diff_subset) auto
  finally show ?thesis using assms(1) by (simp add: free_chunks_eq) (simp add: heap_inv_def)
qed

lemma card_set_window:
  fixes T :: nat
  assumes "s + n \<le> T" "\<And>i. i < T \<Longrightarrow> q i \<longleftrightarrow> (if s \<le> i \<and> i < s + n then True else p i)"
    "\<And>i. s \<le> i \<Longrightarrow> i < s + n \<Longrightarrow> \<not> p i"
  shows "card {i. i < T \<and> q i} = card {i. i < T \<and> p i} + n"
proof -
  have "{i. i < T \<and> q i} = {i. i < T \<and> p i} \<union> {s..<s + n}" using assms(1,2) by auto
  moreover have "{i. i < T \<and> p i} \<inter> {s..<s + n} = {}" using assms(3) by auto
  ultimately show ?thesis by (simp add: card_Un_disjoint)
qed

text \<open>Headers of other blocks lie outside the bytes of a window of chunks.\<close>

lemma header_outside:
  fixes s n s' C :: nat
  assumes "4 \<le> C" "s' + 1 \<le> s \<or> s + n \<le> s'" "s' * C \<le> j" "j < s' * C + 4"
  shows "j < s * C \<or> (s + n) * C \<le> j"
proof (cases "s' + 1 \<le> s")
  case True
  then have "(s' + 1) * C \<le> s * C" by (rule mult_le_mono1)
  then show ?thesis using assms by simp
next
  case False
  then have "(s + n) * C \<le> s' * C" using assms(2) by (intro mult_le_mono1) simp
  then show ?thesis using assms(3) by linarith
qed


text \<open>A block that becomes live.\<close>

lemma live_blocks_add:
  assumes C: "4 \<le> C" and lb: "live_blocks C h live" and n: "0 < n" "s + n \<le> h_total_chunks h"
    and free: "\<And>i. s \<le> i \<Longrightarrow> i < s + n \<Longrightarrow> \<not> bits (h_bitmap h) i"
    and tot: "h_total_chunks h' = h_total_chunks h"
    and bits: "\<And>i. i < h_total_chunks h \<Longrightarrow> bits (h_bitmap h') i \<longleftrightarrow> (if s \<le> i \<and> i < s + n then True else bits (h_bitmap h) i)"
    and len: "length (h_memory h') = length (h_memory h)"
    and hdr: "load_le32 (h_memory h') (s * C) = Inr (of_nat n)"
    and frame: "\<And>j. j < length (h_memory h) \<Longrightarrow> j < s * C \<or> (s + n) * C \<le> j \<Longrightarrow> h_memory h' ! j = h_memory h ! j"
  shows "live s = None" "live_blocks C h' (live(s \<mapsto> n))"
proof -
  have dis: "s' + n' \<le> s \<or> s + n \<le> s'" if l: "live s' = Some n'" for s' n'
  proof (rule ccontr)
    assume a: "\<not> (s' + n' \<le> s \<or> s + n \<le> s')"
    have "0 < n'" using lb l unfolding live_blocks_def by blast
    with a n have m: "s \<le> max s s'" "max s s' < s + n" "s' \<le> max s s'" "max s s' < s' + n'" "max s s' < h_total_chunks h" by auto
    with lb l have "bits (h_bitmap h) (max s s')" unfolding live_blocks_def by blast
    with free m show False by blast
  qed
  then show none: "live s = None"
    using n(1) lb unfolding live_blocks_def by (cases "live s") force+
  have ld: "load_le32 (h_memory h') (s' * C) = load_le32 (h_memory h) (s' * C)" if "live s' = Some n'" for s' n'
  proof (rule load_le32_cong [OF len])
    fix j assume j: "s' * C \<le> j" "j < s' * C + 4" "j < length (h_memory h)"
    have "0 < n'" using lb that unfolding live_blocks_def by blast
    then have "s' + 1 \<le> s \<or> s + n \<le> s'" using dis [OF that] by linarith
    from header_outside [OF C this j(1,2)] frame j(3) show "h_memory h' ! j = h_memory h ! j" by blast
  qed
  have "\<forall>s' n'. (live(s \<mapsto> n)) s' = Some n' \<longrightarrow>
      0 < n' \<and> s' + n' \<le> h_total_chunks h' \<and> load_le32 (h_memory h') (s' * C) = Inr (of_nat n')"
    using lb n hdr ld tot unfolding live_blocks_def by (auto split: if_splits)
  moreover have "\<forall>a na b nb. (live(s \<mapsto> n)) a = Some na \<longrightarrow> (live(s \<mapsto> n)) b = Some nb \<longrightarrow> a \<noteq> b \<longrightarrow> a + na \<le> b \<or> b + nb \<le> a"
    using lb dis unfolding live_blocks_def by (auto split: if_splits)
  moreover have "bits (h_bitmap h') i \<longleftrightarrow> (\<exists>s' n'. (live(s \<mapsto> n)) s' = Some n' \<and> s' \<le> i \<and> i < s' + n')"
    if "i < h_total_chunks h'" for i
  proof -
    have "bits (h_bitmap h) i \<longleftrightarrow> (\<exists>s' n'. live s' = Some n' \<and> s' \<le> i \<and> i < s' + n')"
      using lb that tot unfolding live_blocks_def by simp
    then show ?thesis using bits [of i] that tot none by (auto split: if_splits)
  qed
  ultimately show "live_blocks C h' (live(s \<mapsto> n))" unfolding live_blocks_def by blast
qed


text \<open>A block that is given back.\<close>

lemma live_blocks_remove:
  assumes C: "4 \<le> C" and lb: "live_blocks C h live" and l: "live s = Some n"
    and tot: "h_total_chunks h' = h_total_chunks h"
    and bits: "\<And>i. i < h_total_chunks h \<Longrightarrow> bits (h_bitmap h') i \<longleftrightarrow> (if s \<le> i \<and> i < s + n then False else bits (h_bitmap h) i)"
    and len: "length (h_memory h') = length (h_memory h)"
    and frame: "\<And>j. j < length (h_memory h) \<Longrightarrow> j < s * C \<or> (s + n) * C \<le> j \<Longrightarrow> h_memory h' ! j = h_memory h ! j"
  shows "live_blocks C h' (live(s := None))"
proof -
  have pos: "0 < n'" if "live s' = Some n'" for s' n' using lb that unfolding live_blocks_def by blast
  have dis: "s' + n' \<le> s \<or> s + n \<le> s'" if "live s' = Some n'" "s' \<noteq> s" for s' n'
    using lb l that unfolding live_blocks_def by metis
  have ld: "load_le32 (h_memory h') (s' * C) = load_le32 (h_memory h) (s' * C)" if a: "live s' = Some n'" "s' \<noteq> s" for s' n'
  proof (rule load_le32_cong [OF len])
    fix j assume j: "s' * C \<le> j" "j < s' * C + 4" "j < length (h_memory h)"
    have "s' + 1 \<le> s \<or> s + n \<le> s'" using dis [OF a] pos [OF a(1)] by linarith
    from header_outside [OF C this j(1,2)] frame j(3) show "h_memory h' ! j = h_memory h ! j" by blast
  qed
  have "\<forall>s' n'. (live(s := None)) s' = Some n' \<longrightarrow>
      0 < n' \<and> s' + n' \<le> h_total_chunks h' \<and> load_le32 (h_memory h') (s' * C) = Inr (of_nat n')"
    using lb ld tot unfolding live_blocks_def by auto
  moreover have "\<forall>a na b nb. (live(s := None)) a = Some na \<longrightarrow> (live(s := None)) b = Some nb \<longrightarrow> a \<noteq> b \<longrightarrow> a + na \<le> b \<or> b + nb \<le> a"
    using lb unfolding live_blocks_def by auto
  moreover have "bits (h_bitmap h') i \<longleftrightarrow> (\<exists>s' n'. (live(s := None)) s' = Some n' \<and> s' \<le> i \<and> i < s' + n')"
    if "i < h_total_chunks h'" for i
  proof -
    have "bits (h_bitmap h) i \<longleftrightarrow> (\<exists>s' n'. live s' = Some n' \<and> s' \<le> i \<and> i < s' + n')"
      using lb that tot unfolding live_blocks_def by simp
    moreover have "\<not> (s \<le> i \<and> i < s + n)" if "live s' = Some n'" "s' \<noteq> s" "s' \<le> i" "i < s' + n'" for s' n'
      using dis [OF that(1,2)] that(3,4) by linarith
    moreover have "bits (h_bitmap h') i \<longleftrightarrow> (if s \<le> i \<and> i < s + n then False else bits (h_bitmap h) i)"
      using bits that tot by simp
    ultimately show ?thesis using l by (metis fun_upd_apply option.distinct(1) option.inject)
  qed
  ultimately show ?thesis unfolding live_blocks_def by blast
qed

text \<open>The writes of \<open>allocate\<close> to the chunks: the header and the scrub byte.\<close>

lemma take_memory:
  assumes C: "4 \<le> C" and n: "0 < n" "(s + n) * C \<le> length m" "length m < 2 ^ 32"
  shows "\<exists>m1 m2. store_le32 m (s * C) w = Inr m1 \<and>
    (if sa \<noteq> 0 then memset_at m1 (s * C + 4) (ucast (sa::u32)) (usub (usz (n * C)) 4) else Inr m1) = Inr m2 \<and>
    length m2 = length m \<and> load_le32 m2 (s * C) = Inr w \<and>
    (\<forall>j<length m. j < s * C \<or> (s + n) * C \<le> j \<longrightarrow> m2 ! j = m ! j)"
proof -
  have nC: "C \<le> n * C" "s * C + n * C \<le> length m" using n by (simp_all add: add_mult_distrib)
  have "s * C + 3 < length m" using C nC by linarith
  from store_le32_ok [OF this, of w] obtain m1 where m1: "store_le32 m (s * C) w = Inr m1" "length m1 = length m"
    "load_le32 m1 (s * C) = Inr w" "\<forall>j<length m. j < s * C \<or> s * C + 4 \<le> j \<longrightarrow> m1 ! j = m ! j" by blast
  have n4: "4 \<le> n * C" "n * C < 2 ^ 32" using nC n(3) C by linarith+
  then have us: "usub (usz (n * C)) 4 = n * C - 4" by (simp only: usz_small usub_le)
  have fit: "s * C + 4 + (n * C - 4) \<le> length m1" using nC n4 m1(2) by simp
  define m2 where "m2 = (if sa \<noteq> 0 then take (s * C + 4) m1 @ replicate (n * C - 4) (ucast sa) @ drop (s * C + 4 + (n * C - 4)) m1 else m1)"
  have nth: "m2 ! j = (if sa \<noteq> 0 \<and> s * C + 4 \<le> j \<and> j < s * C + n * C then ucast sa else m1 ! j)" if "j < length m" for j
    using nth_memset [OF fit, of j] that m1(2) nC n4 by (simp add: m2_def)
  have l: "length m2 = length m" using length_memset [OF fit] m1(2) by (simp add: m2_def)
  have "load_le32 m2 (s * C) = load_le32 m1 (s * C)"
    using nth l m1(2) by (intro load_le32_cong) simp_all
  moreover have "\<forall>j<length m. j < s * C \<or> (s + n) * C \<le> j \<longrightarrow> m2 ! j = m ! j"
    using nth m1(4) C nC n4 by (auto simp: add_mult_distrib)
  moreover have "(if sa \<noteq> 0 then memset_at m1 (s * C + 4) (ucast sa) (usub (usz (n * C)) 4) else Inr m1) = Inr m2"
    using fit by (auto simp: us memset_at_ok m2_def)
  ultimately show ?thesis using m1(1,3) l by (intro exI [of _ m1] exI [of _ m2] conjI) simp_all
qed


section \<open>Allocation\<close>

definition same_shape :: "bitmap \<Rightarrow> bitmap \<Rightarrow> bool" where
  "same_shape b' b \<longleftrightarrow> bm_size b' = bm_size b \<and> length (bm_data b') = length (bm_data b)"

lemma same_shape_wf:
  assumes "same_shape b' b"
  shows "wf_view b' = wf_view b" "bm_size b' = bm_size b" "length (bm_data b') = length (bm_data b)"
  using assms by (simp_all add: same_shape_def wf_view_def BitmapView_size_in_bytes_def)

text \<open>Flipping the bits of a window of equal bits, as both directions do.\<close>

lemma flip_range:
  assumes inv: "heap_inv C h" and n: "0 < n" "s + n \<le> h_total_chunks h"
    and eq: "\<And>i. s \<le> i \<Longrightarrow> i < s + n \<Longrightarrow> bits (h_bitmap h) i \<noteq> x"
  shows "\<exists>b'. Bitmap_set_range_and_verify_that_all_bits_flip (h_bitmap h) s n x = Inr b' \<and>
    same_shape b' (h_bitmap h) \<and>
    (\<forall>i<h_total_chunks h. bits b' i \<longleftrightarrow> (if s \<le> i \<and> i < s + n then x else bits (h_bitmap h) i))"
proof -
  define b where "b = h_bitmap h"
  have b: "wf_view b" "bm_size b = h_total_chunks h" using inv by (simp_all add: heap_inv_def b_def)
  have "(s + n) div 8 \<le> h_total_chunks h div 8" using n(2) by (rule div_le_mono)
  then have l: "(s + n) div 8 < length (bm_data b)" using inv n by (simp add: heap_inv_def b_def)
  have "True \<longrightarrow> none_in x b s (s + n)" using eq by (simp add: none_in_def b_def)
  from set_range_spec [OF b(1) _ n(1) l this] obtain d where
    d: "Bitmap_set_range_t x True b s n = Inr (b\<lparr>bm_data := d\<rparr>)" "range_set x b s n d" using n b(2) by auto
  have "i < 8 * length d" if "i < h_total_chunks h" for i
    using wf_view_byte [OF b(1), of i] that b(2) d(2) by (simp add: range_set_def)
  then show ?thesis
    using d by (intro exI [of _ "b\<lparr>bm_data := d\<rparr>"])
      (auto simp: range_set_def same_shape_def Bitmap_set_range_and_verify_that_all_bits_flip_def b_def)
qed

lemma take_chunks_spec:
  assumes rel: "heap_rel C h live" and n: "0 < n" and w: "free_window (h_bitmap h) n s"
  shows "\<exists>h'. Heap_take_chunks C sa h s n = Inr (Some (h_chunks h + s * C + 4), h') \<and>
    live s = None \<and> heap_rel C h' (live(s \<mapsto> n)) \<and>
    h_chunks h' = h_chunks h \<and> h_total_chunks h' = h_total_chunks h \<and>
    (\<forall>j<length (h_memory h). j < s * C \<or> (s + n) * C \<le> j \<longrightarrow> h_memory h' ! j = h_memory h ! j)"
proof -
  have inv: "heap_inv C h" and lb: "live_blocks C h live" using rel by (simp_all add: heap_rel_def)
  have C: "4 \<le> C" and mem: "length (h_memory h) = h_total_chunks h * C" using inv by (simp_all add: heap_inv_def)
  have sn: "s + n \<le> h_total_chunks h" and free: "\<And>i. s \<le> i \<Longrightarrow> i < s + n \<Longrightarrow> \<not> bits (h_bitmap h) i"
    using w inv by (auto simp: free_window_def unset_range_def heap_inv_def)
  obtain b' where b': "Bitmap_set_range_and_verify_that_all_bits_flip (h_bitmap h) s n True = Inr b'"
    "same_shape b' (h_bitmap h)"
    "\<And>i. i < h_total_chunks h \<Longrightarrow> bits b' i \<longleftrightarrow> (if s \<le> i \<and> i < s + n then True else bits (h_bitmap h) i)"
    using flip_range [OF inv n sn, of True] free by auto
  have "(s + n) * C \<le> length (h_memory h)" "length (h_memory h) < 2 ^ 32"
    using sn mem total_bytes_less [OF inv] by simp_all
  from take_memory [OF C n this, of "of_nat n" sa] obtain m1 m2 where
    m: "store_le32 (h_memory h) (s * C) (of_nat n) = Inr m1"
      "(if sa \<noteq> 0 then memset_at m1 (s * C + 4) (ucast sa) (usub (usz (n * C)) 4) else Inr m1) = Inr m2"
      "length m2 = length (h_memory h)" "load_le32 m2 (s * C) = Inr (of_nat n)"
      "\<forall>j<length (h_memory h). j < s * C \<or> (s + n) * C \<le> j \<longrightarrow> m2 ! j = h_memory h ! j" by auto
  have card: "card {i. i < h_total_chunks h \<and> bits b' i} = h_allocated_chunks h + n"
    using inv card_set_window [OF sn b'(3) free] by (simp add: heap_inv_def)
  have "h_allocated_chunks h + n \<le> h_total_chunks h"
    using card card_mono [of "{..<h_total_chunks h}" "{i. i < h_total_chunks h \<and> bits b' i}"] by auto
  then have alloc: "usz (h_allocated_chunks h + n) = h_allocated_chunks h + n" using total_less [OF inv] by (intro usz_small) linarith
  define h' where "h' = h\<lparr>h_memory := m2, h_bitmap := b', h_allocated_chunks := h_allocated_chunks h + n\<rparr>"
  have "Heap_take_chunks C sa h s n = Inr (Some (h_chunks h + s * C + 4), h')"
    using b'(1) m(1,2) alloc by (auto simp: Heap_take_chunks_def Let_def sizeof_AllocationHeader_def h'_def add.assoc split: if_splits)
  moreover have "heap_inv C h'"
    using inv same_shape_wf [OF b'(2)] card m(3) by (simp add: heap_inv_def h'_def)
  moreover have "live s = None" "live_blocks C h' (live(s \<mapsto> n))"
    using live_blocks_add [OF C lb n sn, of h'] free b'(3) m by (auto simp: h'_def)
  ultimately show ?thesis using m(5) by (intro exI [of _ h']) (simp add: heap_rel_def h'_def)
qed

lemma chunks_for_eq:
  assumes "4 \<le> C" "bytes + 4 + C \<le> 2 ^ 32"
  shows "chunks_for C bytes = ceil_div (bytes + 4) C"
proof -
  have "usz (bytes + 4) = bytes + 4" "usz (bytes + 4 + C - 1) = bytes + 4 + C - 1"
    using assms by (intro usz_small; linarith)+
  then show ?thesis using assms(1) by (simp add: chunks_for_def sizeof_AllocationHeader_def Let_def ceil_div_eq)
qed

lemma ceil_div_covers: "0 < b \<Longrightarrow> a \<le> ceil_div a b * b" "0 < b \<Longrightarrow> 0 < a \<Longrightarrow> 0 < ceil_div a b"
proof -
  assume b: "0 < b"
  define q r where "q = a div b" and "r = a mod b"
  have "a = q * b + r" "r < b" using b by (simp_all add: q_def r_def)
  then show "a \<le> ceil_div a b * b" by (simp add: ceil_div_def flip: q_def r_def)
  then show "0 < ceil_div a b" if "0 < a" using that by (cases "ceil_div a b") auto
qed

text \<open>
  \<open>allocate\<close> returns a block of free chunks that holds the request, makes it live and
  leaves the other bytes alone; it returns null exactly when no such run of chunks is free.
\<close>

lemma allocate_spec:
  assumes rel: "heap_rel C h live" and sz: "bytes + 4 + C \<le> 2 ^ 32"
  defines "n \<equiv> ceil_div (bytes + 4) C"
  shows "(\<forall>s. \<not> free_window (h_bitmap h) n s) \<and> Heap_allocate C sa h bytes = Some (Inr (None, h)) \<or>
    (\<exists>s h'. free_window (h_bitmap h) n s \<and> live s = None \<and>
      Heap_allocate C sa h bytes = Some (Inr (Some (h_chunks h + s * C + 4), h')) \<and>
      heap_rel C h' (live(s \<mapsto> n)) \<and> h_chunks h' = h_chunks h \<and> h_total_chunks h' = h_total_chunks h \<and>
      (\<forall>j<length (h_memory h). j < s * C \<or> (s + n) * C \<le> j \<longrightarrow> h_memory h' ! j = h_memory h ! j))"
proof -
  have inv: "heap_inv C h" using rel by (simp add: heap_rel_def)
  then have C: "4 \<le> C" and b: "wf_view (Bitmap_view (h_bitmap h))" by (simp_all add: heap_inv_def)
  have cf: "chunks_for C bytes = n" using chunks_for_eq [OF C sz] by (simp add: n_def)
  have n: "0 < n" using C ceil_div_covers(2) [of C "bytes + 4"] by (simp add: n_def)
  have fw: "free_window (Bitmap_view (h_bitmap h)) = free_window (h_bitmap h)"
    by (simp add: fun_eq_iff free_window_def unset_range_def)
  have found: "\<exists>r. (if n < best_fit_threshold then Some (Bitmap_find_first_fit (h_bitmap h) n)
      else Bitmap_find_best_fit (h_bitmap h) n) = Some (Inr r) \<and>
    (case r of Some s \<Rightarrow> free_window (h_bitmap h) n s | None \<Rightarrow> \<forall>s. \<not> free_window (h_bitmap h) n s)"
  proof (cases "n < best_fit_threshold")
    case True
    then show ?thesis
      using find_first_fit_spec [OF b n] by (auto simp: Bitmap_find_first_fit_def fw intro: LeastI)
  next
    case False
    then show ?thesis
      using find_best_fit_spec [OF b, of n, unfolded fw] by (simp add: Bitmap_find_best_fit_def best_fit_threshold_def fw)
  qed
  show ?thesis
  proof (cases "n > Heap_free_chunks h")
    case True
    then have "\<forall>s. \<not> free_window (h_bitmap h) n s" using window_fits [OF inv, of n] by (meson not_le)
    then show ?thesis using True by (simp add: Heap_allocate_def cf)
  next
    case False
    from found obtain r where r: "(if n < best_fit_threshold then Some (Bitmap_find_first_fit (h_bitmap h) n)
      else Bitmap_find_best_fit (h_bitmap h) n) = Some (Inr r)"
      "case r of Some s \<Rightarrow> free_window (h_bitmap h) n s | None \<Rightarrow> \<forall>s. \<not> free_window (h_bitmap h) n s" by blast
    then have run: "Heap_allocate C sa h bytes = Some (case r of None \<Rightarrow> Inr (None, h) | Some s \<Rightarrow> Heap_take_chunks C sa h s n)"
      using False by (simp add: Heap_allocate_def cf)
    show ?thesis
    proof (cases r)
      case None
      then show ?thesis using run r(2) by simp
    next
      case (Some s)
      then have w: "free_window (h_bitmap h) n s" using r(2) by simp
      from take_chunks_spec [OF rel n w, of sa] run Some w show ?thesis by fastforce
    qed
  qed
qed

section \<open>Deallocation\<close>

text \<open>The bytes scrubbed by \<open>deallocate\<close>.\<close>

lemma scrub_memory:
  assumes "a + k \<le> length m"
  shows "\<exists>m'. (if sf \<noteq> 0 then memset_at m a (ucast (sf::u32)) k else Inr m) = Inr m' \<and> length m' = length m \<and>
    (\<forall>j<length m. j < a \<or> a + k \<le> j \<longrightarrow> m' ! j = m ! j)"
  using assms nth_memset [OF assms] length_memset [OF assms] by (cases "sf = 0") (auto simp: memset_at_ok)

lemma deallocate_spec:
  assumes rel: "heap_rel C h live" and l: "live s = Some n"
  shows "\<exists>h'. Heap_deallocate C sf h (Some (h_chunks h + s * C + 4)) = Inr h' \<and> heap_rel C h' (live(s := None)) \<and>
    h_chunks h' = h_chunks h \<and> h_total_chunks h' = h_total_chunks h \<and>
    (\<forall>j<length (h_memory h). j < s * C \<or> (s + n) * C \<le> j \<longrightarrow> h_memory h' ! j = h_memory h ! j)"
proof -
  have inv: "heap_inv C h" and lb: "live_blocks C h live" using rel by (simp_all add: heap_rel_def)
  have C: "4 \<le> C" and C4: "4 < C" and mem: "length (h_memory h) = h_total_chunks h * C" and wf: "wf_view (h_bitmap h)"
    and bs: "bm_size (h_bitmap h) = h_total_chunks h" and addr: "h_chunks h + h_total_chunks h * C < 2 ^ 32"
    using inv by (simp_all add: heap_inv_def)
  have n: "0 < n" "s + n \<le> h_total_chunks h" and hdr: "load_le32 (h_memory h) (s * C) = Inr (of_nat n)"
    and used: "\<And>i. s \<le> i \<Longrightarrow> i < s + n \<Longrightarrow> bits (h_bitmap h) i"
    using lb l unfolding live_blocks_def by (blast, blast, blast, metis order_less_le_trans)
  have snC: "s * C + n * C \<le> h_total_chunks h * C" "C \<le> n * C"
    using n mult_le_mono1 [OF n(2), of C] by (simp_all add: add_mult_distrib)
  obtain b' where b': "Bitmap_set_range_and_verify_that_all_bits_flip (h_bitmap h) s n False = Inr b'"
    "same_shape b' (h_bitmap h)"
    "\<And>i. i < h_total_chunks h \<Longrightarrow> bits b' i \<longleftrightarrow> (if s \<le> i \<and> i < s + n then False else bits (h_bitmap h) i)"
    using flip_range [OF inv n, of False] used by auto
  have "card {i. i < h_total_chunks h \<and> bits (h_bitmap h) i} = card {i. i < h_total_chunks h \<and> bits b' i} + n"
  proof (rule card_set_window [OF n(2)])
    show "bits (h_bitmap h) i \<longleftrightarrow> (if s \<le> i \<and> i < s + n then True else bits b' i)" if "i < h_total_chunks h" for i
      using b'(3) [OF that] used by simp
    show "\<not> bits b' i" if "s \<le> i" "i < s + n" for i
      using b'(3) [of i] that n(2) by simp
  qed
  then have card: "h_allocated_chunks h = card {i. i < h_total_chunks h \<and> bits b' i} + n"
    using inv by (simp add: heap_inv_def)
  obtain m' where m': "(if sf \<noteq> 0 then memset_at (h_memory h) (s * C) (ucast sf) (n * C) else Inr (h_memory h)) = Inr m'"
    "length m' = length (h_memory h)" "\<forall>j<length (h_memory h). j < s * C \<or> s * C + n * C \<le> j \<longrightarrow> m' ! j = h_memory h ! j"
    using scrub_memory [of "s * C" "n * C" "h_memory h" sf] snC mem by auto
  define h' where "h' = h\<lparr>h_memory := m', h_bitmap := b', h_allocated_chunks := h_allocated_chunks h - n\<rparr>"
  have "Heap_deallocate C sf h (Some (h_chunks h + s * C + 4)) = Inr h'"
  proof -
    have lt: "h_chunks h + s * C + 4 < 2 ^ 32" "h_total_chunks h * C < 2 ^ 32" "n * C < 2 ^ 32" "h_chunks h + s * C + n * C < 2 ^ 32"
      "h_chunks h + s * C + 4 \<le> h_chunks h + h_total_chunks h * C" "n < 2 ^ 32"
      using snC C addr n total_less [OF inv] by linarith+
    then have hd: "Heap_allocation_header (h_chunks h + s * C + 4) = h_chunks h + s * C"
      by (simp add: Heap_allocation_header_def sizeof_AllocationHeader_def)
    have get: "Bitmap_get (h_bitmap h) s = Inr True"
      using get_spec [OF wf, of s] n used [of s] bs by (simp add: Bitmap_get_view)
    have un: "unat (of_nat n :: u32) = n" using lt(6) by (simp add: unat_of_nat take_bit_nat_eq_self)
    have us: "usz (h_total_chunks h * C) = h_total_chunks h * C" "usz (n * C) = n * C"
      "usz (h_chunks h + s * C + n * C) = h_chunks h + s * C + n * C"
      using lt by (simp_all only: usz_small)
    have g: "h_chunks h + s * C + 4 < h_chunks h + h_total_chunks h * C" "h_chunks h \<le> h_chunks h + s * C"
      "h_chunks h + s * C + n * C \<le> h_chunks h + h_total_chunks h * C"
      using snC C4 by linarith+
    have "s * C div C = s" using C by simp
    then show ?thesis
      using hd get un us g b'(1) card m'(1) hdr
      by (cases "sf = 0") (auto simp: Heap_deallocate_def Let_def h'_def verify_holds simp del: usz_small)
  qed
  moreover have "heap_inv C h'"
  proof -
    have "h_allocated_chunks h - n = card {i. i < h_total_chunks h \<and> bits b' i}" using card by simp
    then show ?thesis using inv same_shape_wf [OF b'(2)] m'(2) unfolding heap_inv_def h'_def by simp
  qed
  moreover have "live_blocks C h' (live(s := None))"
    using live_blocks_remove [OF C lb l, of h'] b'(3) m' by (auto simp: h'_def add_mult_distrib)
  ultimately show ?thesis using m'(3) by (intro exI [of _ h']) (simp add: heap_rel_def h'_def add_mult_distrib)
qed


text \<open>Freeing null does nothing; a pointer outside the chunks or to a free chunk is caught.\<close>

lemma deallocate_null: "Heap_deallocate C sf h None = Inr h"
  by (simp add: Heap_deallocate_def)

lemma deallocate_foreign: "\<not> Heap_contains C h p \<Longrightarrow> Heap_deallocate C sf h (Some p) = Inl Verify_Failed"
  by (auto simp: Heap_deallocate_def Heap_contains_def Let_def verify_def split: if_splits)

lemma deallocate_free_chunk:
  assumes rel: "heap_rel C h live" and s: "s < h_total_chunks h" "\<And>t n. live t = Some n \<Longrightarrow> \<not> (t \<le> s \<and> s < t + n)"
  shows "Heap_deallocate C sf h (Some (h_chunks h + s * C + 4)) = Inl Verify_Failed"
proof -
  have inv: "heap_inv C h" and lb: "live_blocks C h live" using rel by (simp_all add: heap_rel_def)
  have C: "4 < C" and wf: "wf_view (h_bitmap h)" and bs: "bm_size (h_bitmap h) = h_total_chunks h"
    and addr: "h_chunks h + h_total_chunks h * C < 2 ^ 32" using inv by (simp_all add: heap_inv_def)
  have "(s + 1) * C \<le> h_total_chunks h * C" using s(1) by (intro mult_le_mono1) simp
  then have "s * C + C \<le> h_total_chunks h * C" by (simp only: add_mult_distrib mult_1)
  then have lt: "h_chunks h + s * C + 4 < 2 ^ 32" using C addr by linarith
  then have hd: "Heap_allocation_header (h_chunks h + s * C + 4) = h_chunks h + s * C"
    by (simp add: Heap_allocation_header_def sizeof_AllocationHeader_def)
  have "bits (h_bitmap h) s \<longleftrightarrow> (\<exists>t n. live t = Some n \<and> t \<le> s \<and> s < t + n)"
    using lb s(1) by (simp add: live_blocks_def)
  then have "\<not> bits (h_bitmap h) s" using s(2) by blast
  then have "Bitmap_get (h_bitmap h) s = Inr False" using get_spec [OF wf, of s] s(1) bs by (simp add: Bitmap_get_view)
  then show ?thesis using C hd by (simp add: Heap_deallocate_def Let_def verify_def)
qed

section \<open>Construction\<close>

lemma chunks_fit: "n = m div (C + 1) \<Longrightarrow> n * C + n \<le> (m::nat)"
  using times_div_less_eq_dividend [of "C + 1" m] by (simp add: algebra_simps)

text \<open>
  The bitmap always fits behind the chunks, with a byte to spare. The constructor does not clear
  it: the heap starts empty when the memory is zero.
\<close>

lemma create_empty_heap:
  assumes C: "4 < C" and m: "addr + length m < 2 ^ 32" "\<forall>i<length m. m ! i = 0"
  shows "\<exists>h. Heap_create C addr m = Inr h \<and> heap_rel C h Map.empty \<and> h_chunks h = addr \<and>
    h_total_chunks h = Heap_calculate_chunks C (length m)"
proof -
  define n where "n = Heap_calculate_chunks C (length m)"
  have n: "n * C + n \<le> length m" using chunks_fit [of n "length m" C] by (simp add: n_def Heap_calculate_chunks_def)
  have byte: "(n + 7) div 8 \<le> n" "n \<noteq> 0 \<Longrightarrow> n div 8 < n" by (cases "n = 0"; simp)+
  have us: "usz (n * C) = n * C" "usz (n * C + (n + 7) div 8) = n * C + (n + 7) div 8"
    using n byte m(1) by (intro usz_small; linarith)+
  define b where "b = Bitmap_of_data (addr + n * C) (drop (n * C) m) n False"
  define h where "h = \<lparr>h_total_chunks = n, h_allocated_chunks = 0, h_chunks = addr, h_memory = take (n * C) m, h_bitmap = b\<rparr>"
  have "Heap_create C addr m = Inr h"
    using n byte us by (simp add: Heap_create_def Let_def h_def b_def verify_holds flip: n_def)
  moreover have wf: "wf_view b"
    using n byte m(1) C by (simp add: wf_view_def b_def Bitmap_of_data_def BitmapView_size_in_bytes_def ceil_div_eq)
  moreover have "bits b i = False" if "i < n" for i
  proof -
    have "i div 8 < n" using that by (simp add: le_less_trans)
    then have "drop (n * C) m ! (i div 8) = 0" using n m(2) by simp
    then show ?thesis by (simp add: bits_def b_def Bitmap_of_data_def)
  qed
  then have "heap_rel C h Map.empty"
    using C n m(1) byte wf by (auto simp: heap_rel_def heap_inv_def live_blocks_def h_def b_def Bitmap_of_data_def)
  ultimately show ?thesis by (auto simp: h_def n_def)
qed

end
