(* ===== verification/Heap_Client.thy ===== *)
theory Heap_Client
  imports Kernel_Heap
begin

text \<open>
  The interface between the kernel heap and its clients, as a locale that the model of
  \<open>Heap\<close> interprets, and the sizes for which the size computations of
  \<open>kernel/heap/Heap.h\<close> give too little.
\<close>

section \<open>Clients of an allocator\<close>

text \<open>
  What a client relies on: an allocation returns null or a pointer to a block that was not live,
  a live block can be freed, and live blocks do not overlap. \<open>ptr h s\<close> is the pointer to
  the block that starts at \<open>s\<close>, \<open>blocks k\<close> the length of the block for a request.
\<close>

datatype request = Alloc nat | Free nat

fun serve ::
  "('h \<Rightarrow> nat \<Rightarrow> (nat option \<times> 'h) res option) \<Rightarrow> ('h \<Rightarrow> nat option \<Rightarrow> 'h res) \<Rightarrow>
   'h \<Rightarrow> nat list \<Rightarrow> request list \<Rightarrow> ('h \<times> nat list) res option" where
  "serve alloc free h held [] = Some (Inr (h, held))"
| "serve alloc free h held (Alloc k # rs) =
     (case alloc h k of
        None \<Rightarrow> None
      | Some (Inl e) \<Rightarrow> Some (Inl e)
      | Some (Inr (None, h)) \<Rightarrow> serve alloc free h held rs
      | Some (Inr (Some p, h)) \<Rightarrow> serve alloc free h (p # held) rs)"
| "serve alloc free h held (Free i # rs) =
     (if i < length held
      then case free h (Some (held ! i)) of
             Inl e \<Rightarrow> Some (Inl e)
           | Inr h \<Rightarrow> serve alloc free h (take i held @ drop (i + 1) held) rs
      else serve alloc free h held rs)"

fun fits :: "(nat \<Rightarrow> bool) \<Rightarrow> request \<Rightarrow> bool" where
  "fits ok (Alloc k) = ok k"
| "fits ok (Free i) = True"

locale block_allocator =
  fixes rel :: "'h \<Rightarrow> (nat \<rightharpoonup> nat) \<Rightarrow> bool"
    and alloc :: "'h \<Rightarrow> nat \<Rightarrow> (nat option \<times> 'h) res option"
    and free :: "'h \<Rightarrow> nat option \<Rightarrow> 'h res"
    and ptr :: "'h \<Rightarrow> nat \<Rightarrow> nat"
    and ok :: "nat \<Rightarrow> bool"
    and blocks :: "nat \<Rightarrow> nat"
  assumes alloc_law: "rel h live \<Longrightarrow> ok k \<Longrightarrow>
      alloc h k = Some (Inr (None, h)) \<or>
      (\<exists>s h'. alloc h k = Some (Inr (Some (ptr h s), h')) \<and> live s = None \<and>
         rel h' (live(s \<mapsto> blocks k)) \<and> ptr h' = ptr h)"
    and free_law: "rel h live \<Longrightarrow> live s = Some n \<Longrightarrow>
      \<exists>h'. free h (Some (ptr h s)) = Inr h' \<and> rel h' (live(s := None)) \<and> ptr h' = ptr h"
    and ptr_inj: "rel h live \<Longrightarrow> inj (ptr h)"
begin

definition holds :: "'h \<Rightarrow> (nat \<rightharpoonup> nat) \<Rightarrow> nat list \<Rightarrow> bool" where
  "holds h live held \<longleftrightarrow> rel h live \<and> distinct held \<and> set held = ptr h ` dom live"

lemma holds_alloc:
  assumes "holds h live held" "ok k"
  shows "alloc h k = Some (Inr (None, h)) \<or>
    (\<exists>s h'. alloc h k = Some (Inr (Some (ptr h s), h')) \<and> holds h' (live(s \<mapsto> blocks k)) (ptr h s # held))"
proof -
  have rel: "rel h live" using assms(1) by (simp add: holds_def)
  from alloc_law [OF rel assms(2)] show ?thesis
  proof (elim disjE exE conjE)
    fix s h'
    assume a: "alloc h k = Some (Inr (Some (ptr h s), h'))" "live s = None" "rel h' (live(s \<mapsto> blocks k))" "ptr h' = ptr h"
    have "s \<notin> dom live" using a(2) by auto
    then have "ptr h s \<notin> set held" using assms(1) ptr_inj [OF rel] by (simp add: holds_def inj_image_mem_iff)
    then show ?thesis using a assms(1) by (auto simp: holds_def)
  qed simp
qed

lemma holds_free:
  assumes "holds h live held" "i < length held"
  shows "\<exists>s h'. free h (Some (held ! i)) = Inr h' \<and> holds h' (live(s := None)) (take i held @ drop (i + 1) held)"
proof -
  have rel: "rel h live" using assms(1) by (simp add: holds_def)
  have "held ! i \<in> ptr h ` dom live" using nth_mem [OF assms(2)] assms(1) by (simp add: holds_def)
  then obtain s n where s: "held ! i = ptr h s" "live s = Some n" by auto
  from free_law [OF rel s(2)] obtain h' where
    h': "free h (Some (ptr h s)) = Inr h'" "rel h' (live(s := None))" "ptr h' = ptr h" by blast
  have split: "held = take i held @ held ! i # drop (i + 1) held" using assms(2) by (simp add: id_take_nth_drop)
  have "distinct (take i held @ held ! i # drop (i + 1) held)"
    using assms(1) unfolding split [symmetric] by (simp add: holds_def)
  then have d: "distinct (take i held @ drop (i + 1) held)" "held ! i \<notin> set (take i held @ drop (i + 1) held)" by auto
  have "set held = insert (held ! i) (set (take i held @ drop (i + 1) held))"
    by (subst split) auto
  then have "set (take i held @ drop (i + 1) held) = set held - {held ! i}" using d(2) by blast
  also have "\<dots> = ptr h ` dom live - {ptr h s}" using assms(1) s(1) by (simp add: holds_def)
  also have "\<dots> = ptr h ` dom (live(s := None))"
    using ptr_inj [OF rel] by (auto simp: inj_def)
  finally show ?thesis using h' s(1) d(1) by (auto simp: holds_def)
qed

text \<open>Whatever the requests, none of them faults or hangs, and the held pointers stay the live blocks.\<close>

lemma serve_safe:
  "holds h live held \<Longrightarrow> list_all (fits ok) rs \<Longrightarrow>
   \<exists>h' live' held'. serve alloc free h held rs = Some (Inr (h', held')) \<and> holds h' live' held'"
proof (induction rs arbitrary: h live held)
  case Nil
  then show ?case by auto
next
  case (Cons r rs)
  then have rs: "list_all (fits ok) rs" by simp
  show ?case
  proof (cases r)
    case (Alloc k)
    then have "ok k" using Cons.prems by simp
    from holds_alloc [OF Cons.prems(1) this] show ?thesis
      using Cons.IH [OF _ rs] Cons.prems(1) Alloc by (auto split: option.splits)
  next
    case (Free i)
    then show ?thesis
      using holds_free [OF Cons.prems(1), of i] Cons.IH [OF _ rs] Cons.prems(1)
      by (cases "i < length held") fastforce+
  qed
qed

end

section \<open>The heap as an allocator\<close>

definition block_ptr :: "nat \<Rightarrow> heap \<Rightarrow> nat \<Rightarrow> nat" where
  "block_ptr C h s = h_chunks h + s * C + 4"

interpretation kheap: block_allocator "heap_rel C" "Heap_allocate C sa" "Heap_deallocate C sf" "block_ptr C"
  "\<lambda>bytes. bytes + 4 + C \<le> 2 ^ 32" "\<lambda>bytes. ceil_div (bytes + 4) C"
proof
  fix h :: heap and live and k :: nat
  assume "heap_rel C h live" "k + 4 + C \<le> 2 ^ 32"
  from allocate_spec [OF this, of sa] show "Heap_allocate C sa h k = Some (Inr (None, h)) \<or>
      (\<exists>s h'. Heap_allocate C sa h k = Some (Inr (Some (block_ptr C h s), h')) \<and> live s = None \<and>
         heap_rel C h' (live(s \<mapsto> ceil_div (k + 4) C)) \<and> block_ptr C h' = block_ptr C h)"
    by (auto simp: block_ptr_def fun_eq_iff)
next
  fix h :: heap and live and s n :: nat
  assume "heap_rel C h live" "live s = Some n"
  from deallocate_spec [OF this, of sf] show "\<exists>h'. Heap_deallocate C sf h (Some (block_ptr C h s)) = Inr h' \<and>
      heap_rel C h' (live(s := None)) \<and> block_ptr C h' = block_ptr C h"
    by (auto simp: block_ptr_def fun_eq_iff)
next
  fix h :: heap and live
  assume "heap_rel C h live"
  then have "4 < C" by (simp add: heap_rel_def heap_inv_def)
  then show "inj (block_ptr C h)" by (simp add: inj_def block_ptr_def)
qed

section \<open>Sizes that do not fit\<close>

text \<open>
  \<open>calculate_memory_for_bytes\<close> counts one bitmap bit per chunk, the constructor one byte:
  memory of the calculated size has fewer chunks than the request needs as soon as it needs two.
\<close>

lemma memory_for_bytes_short:
  assumes C: "4 < C" and sz: "2 * bytes + 2 * C + 16 \<le> 2 ^ 32" and two: "C < bytes + 4"
  shows "Heap_calculate_chunks C (Heap_calculate_memory_for_bytes C bytes) < chunks_for C bytes"
proof -
  define n where "n = ceil_div (bytes + 4) C"
  have cf: "chunks_for C bytes = n" using chunks_for_eq [of C bytes] C sz by (simp add: n_def)
  have n: "1 < n" using two C less_ceil_div_iff [of C 1 "bytes + 4"] by (simp add: n_def)
  have "n = (bytes + 4 + C - 1) div C" using C by (simp add: n_def ceil_div_eq)
  then have nC: "n * C \<le> bytes + 4 + C - 1" by simp
  have us: "usz (sizeof_AllocationHeader + bytes + C - 1) = bytes + 4 + C - 1"
    using sz by (simp add: sizeof_AllocationHeader_def add.commute)
  have le: "n \<le> n * C" using C by simp
  have "usz (n * C + (n + 7) div 8) = n * C + (n + 7) div 8" using sz nC le by (intro usz_small) linarith
  then have "Heap_calculate_memory_for_bytes C bytes = n * C + (n + 7) div 8"
    using C us by (simp add: Heap_calculate_memory_for_bytes_def Let_def n_def ceil_div_eq)
  moreover have "(n + 7) div 8 < n" using n by linarith
  then have "n * C + (n + 7) div 8 < n * (C + 1)" by simp
  ultimately show ?thesis by (simp add: cf Heap_calculate_chunks_def div_less_iff_less_mult)
qed

text \<open>
  The size computation of \<open>allocate\<close> wraps around: a request of nearly 4 GiB is served from
  one chunk, and a request of exactly \<open>2 ^ 32 - 4\<close> bytes needs none.
\<close>

lemma chunks_for_wraps:
  assumes "4 < C" "C < 2 ^ 31" "2 ^ 32 - 4 < bytes" "bytes < 2 ^ 32"
  shows "chunks_for C bytes = 1"
proof -
  have "usz (bytes + 4) = bytes + 4 - 2 ^ 32" unfolding usz_def using assms(3,4)
    by (simp add: le_mod_geq)
  moreover have "usz (bytes + 4 - 2 ^ 32 + C - 1) = bytes + 4 - 2 ^ 32 + C - 1"
    using assms by (intro usz_small) simp
  moreover have "(bytes + 4 - 2 ^ 32 + C - 1) div C = 1"
    using assms by (intro div_nat_eqI) simp_all
  ultimately show ?thesis by (simp add: chunks_for_def sizeof_AllocationHeader_def)
qed

lemma chunks_for_zero: "4 < C \<Longrightarrow> C < 2 ^ 31 \<Longrightarrow> chunks_for C (2 ^ 32 - 4) = 0"
  by (simp add: chunks_for_def sizeof_AllocationHeader_def usz_def)

end
