(* ===== verification/Disk_Cache.thy ===== *)
theory Disk_Cache
  imports Prelude
begin

text \<open>
  \<open>kernel/filesystem/BlockBasedFileSystem.cpp\<close>: the write-back cache of disk blocks. An entry
  is known by its index in the entry array; the two intrusive lists are lists of such indices
  (an entry is on one list at a time, so putting it on a list takes it off the other), and the
  hash map is a partial function from block indices to entries.

  The file behind the file system is a parameter: \<open>rd d off n ok\<close> and
  \<open>wr d off data\<close> give the result of \<open>FileDescription::read\<close> and \<open>write\<close> and
  the new state of the device; a read that fails may have put some bytes in the buffer, which come
  with the error. A caller's buffer that can be read is \<open>Inr\<close> of its bytes; \<open>Inl\<close> is one that faults,
  after the given bytes have been copied. \<open>ok\<close> tells whether a buffer can be written.
\<close>

section \<open>State\<close>

datatype kerror = EFAULT | EINVAL | Device_Error nat

type_synonym user_data = "u8 list + u8 list"
type_synonym 'd reader = "'d \<Rightarrow> nat \<Rightarrow> nat \<Rightarrow> bool \<Rightarrow> (kerror \<times> u8 list + u8 list) \<times> 'd"
type_synonym 'd writer = "'d \<Rightarrow> nat \<Rightarrow> user_data \<Rightarrow> (kerror + nat) \<times> 'd"

record cache_entry =
  ce_block_index :: nat
  ce_data :: "u8 list"
  ce_has_data :: bool

record disk_cache =
  dc_entries :: "cache_entry list"
  dc_hash :: "nat \<rightharpoonup> nat"
  dc_clean_list :: "nat list"
  dc_dirty_list :: "nat list"
  dc_dirty :: bool

record 'd block_fs =
  fs_cache :: disk_cache
  fs_dev :: 'd
  fs_block_size :: nat
  fs_logical_block_size :: nat

definition u64m :: "nat \<Rightarrow> nat" where
  "u64m n = n mod 2 ^ 64"

section \<open>DiskCache\<close>

definition EntryCount :: nat where
  "EntryCount = 10000"

text \<open>The constructor; the entries lie in zeroed memory.\<close>

definition DiskCache_create :: "nat \<Rightarrow> nat \<Rightarrow> u8 list \<Rightarrow> disk_cache" where
  "DiskCache_create entry_count block_size cached_block_data =
     \<lparr>dc_entries = map (\<lambda>i. \<lparr>ce_block_index = 0,
        ce_data = take block_size (drop (i * block_size) cached_block_data), ce_has_data = False\<rparr>) [0..<entry_count],
      dc_hash = Map.empty, dc_clean_list = [0..<entry_count], dc_dirty_list = [], dc_dirty = False\<rparr>"

definition DiskCache_prepend_clean :: "disk_cache \<Rightarrow> nat \<Rightarrow> disk_cache" where
  "DiskCache_prepend_clean c i =
     c\<lparr>dc_clean_list := i # remove1 i (dc_clean_list c), dc_dirty_list := remove1 i (dc_dirty_list c)\<rparr>"

fun mark_all_clean_loop :: "nat list \<Rightarrow> nat list \<Rightarrow> nat list" where
  "mark_all_clean_loop [] clean = clean"
| "mark_all_clean_loop (i # dirty) clean = mark_all_clean_loop dirty (i # clean)"

definition DiskCache_mark_all_clean :: "disk_cache \<Rightarrow> disk_cache" where
  "DiskCache_mark_all_clean c =
     c\<lparr>dc_clean_list := mark_all_clean_loop (dc_dirty_list c) (dc_clean_list c), dc_dirty_list := [],
       dc_dirty := False\<rparr>"

definition DiskCache_mark_dirty :: "disk_cache \<Rightarrow> nat \<Rightarrow> disk_cache" where
  "DiskCache_mark_dirty c i =
     c\<lparr>dc_dirty_list := i # remove1 i (dc_dirty_list c), dc_clean_list := remove1 i (dc_clean_list c),
       dc_dirty := True\<rparr>"

definition DiskCache_mark_clean :: "disk_cache \<Rightarrow> nat \<Rightarrow> disk_cache" where
  "DiskCache_mark_clean c i = DiskCache_prepend_clean c i"

section \<open>Flushing\<close>

text \<open>The callback of \<open>for_each_dirty_entry\<close>: the result of the write is ignored.\<close>

definition flush_entry :: "'d writer \<Rightarrow> disk_cache \<Rightarrow> nat \<Rightarrow> nat \<Rightarrow> 'd \<Rightarrow> 'd" where
  "flush_entry wr c base_offset i d = snd (wr d base_offset (Inr (ce_data (dc_entries c ! i))))"

definition flush_writes_impl :: "'d writer \<Rightarrow> 'd block_fs \<Rightarrow> 'd block_fs" where
  "flush_writes_impl wr fs =
     (let c = fs_cache fs in
      if \<not> dc_dirty c then fs
      else fs\<lparr>fs_dev := fold (\<lambda>i. flush_entry wr c (u64m (ce_block_index (dc_entries c ! i) * fs_block_size fs)) i)
                       (dc_dirty_list c) (fs_dev fs),
              fs_cache := DiskCache_mark_all_clean c\<rparr>)"

definition flush_writes :: "'d writer \<Rightarrow> 'd block_fs \<Rightarrow> 'd block_fs" where
  "flush_writes wr fs = flush_writes_impl wr fs"

text \<open>Here the offset is a \<open>size_t\<close>.\<close>

definition flush_specific_block_if_needed :: "'d writer \<Rightarrow> 'd block_fs \<Rightarrow> nat \<Rightarrow> 'd block_fs" where
  "flush_specific_block_if_needed wr fs index =
     (let c = fs_cache fs in
      if \<not> dc_dirty c then fs
      else let cleaned_entries = filter (\<lambda>i. ce_block_index (dc_entries c ! i) \<noteq> index) (dc_dirty_list c)
           in fs\<lparr>fs_dev := fold (\<lambda>i. flush_entry wr c
                            (usz (u64m (ce_block_index (dc_entries c ! i) * fs_block_size fs))) i)
                            cleaned_entries (fs_dev fs),
                 fs_cache := fold (\<lambda>i c. DiskCache_mark_clean c i) cleaned_entries c\<rparr>)"

section \<open>Looking up an entry\<close>

definition DiskCache_recycle :: "disk_cache \<Rightarrow> nat \<Rightarrow> nat \<Rightarrow> disk_cache" where
  "DiskCache_recycle c i block_index =
     (let e = dc_entries c ! i; c = DiskCache_prepend_clean c i in
      c\<lparr>dc_hash := ((dc_hash c)(ce_block_index e := None))(block_index \<mapsto> i),
        dc_entries := (dc_entries c)[i := e\<lparr>ce_block_index := block_index, ce_has_data := False\<rparr>]\<rparr>)"

text \<open>
  \<open>DiskCache::get\<close> calls itself after a flush; \<open>None\<close> stands for a call that does not
  return.
\<close>

partial_function (option) DiskCache_get :: "'d writer \<Rightarrow> 'd block_fs \<Rightarrow> nat \<Rightarrow> (nat \<times> 'd block_fs) res option" where
  "DiskCache_get wr fs block_index =
     (case dc_hash (fs_cache fs) block_index of
        Some i \<Rightarrow>
          Some (verify (ce_block_index (dc_entries (fs_cache fs) ! i) = block_index) (Inr (i, fs)))
      | None \<Rightarrow>
          if dc_clean_list (fs_cache fs) = []
          then DiskCache_get wr (flush_writes_impl wr fs) block_index
          else let i = last (dc_clean_list (fs_cache fs)) in
               Some (Inr (i, fs\<lparr>fs_cache := DiskCache_recycle (fs_cache fs) i block_index\<rparr>)))"

section \<open>BlockBasedFileSystem\<close>

definition BlockBasedFileSystem_initialize ::
  "(nat \<Rightarrow> u8 list option) \<Rightarrow> nat \<Rightarrow> 'd block_fs \<Rightarrow> (bool \<times> 'd block_fs) res" where
  "BlockBasedFileSystem_initialize try_create_with_size sizeof_CacheEntry fs =
     verify (fs_block_size fs \<noteq> 0)
       (case try_create_with_size (usz (EntryCount * fs_block_size fs)) of
          None \<Rightarrow> Inr (False, fs)
        | Some cached_block_data \<Rightarrow>
            (case try_create_with_size (EntryCount * sizeof_CacheEntry) of
               None \<Rightarrow> Inr (False, fs)
             | Some entries_data \<Rightarrow>
                 Inr (True, fs\<lparr>fs_cache := DiskCache_create EntryCount (fs_block_size fs) cached_block_data\<rparr>)))"

definition set_entry :: "'d block_fs \<Rightarrow> nat \<Rightarrow> cache_entry \<Rightarrow> 'd block_fs" where
  "set_entry fs i e = fs\<lparr>fs_cache := (fs_cache fs)\<lparr>dc_entries := (dc_entries (fs_cache fs))[i := e]\<rparr>\<rparr>"

text \<open>
  \<open>read_block\<close>: the buffer is \<open>None\<close> for a null pointer, else whether it can be written;
  the bytes copied to it are the result. The cached path fills the entry first.
\<close>

definition fill_entry :: "'d reader \<Rightarrow> 'd block_fs \<Rightarrow> nat \<Rightarrow> nat \<Rightarrow> (kerror option \<times> 'd block_fs) res" where
  "fill_entry rd fs i index =
     (let e = dc_entries (fs_cache fs) ! i in
      if ce_has_data e then Inr (None, fs)
      else (case rd (fs_dev fs) (u64m (index * fs_block_size fs)) (fs_block_size fs) True of
              (Inl (err, part), d) \<Rightarrow>
                rbind (memcpy_at (ce_data e) 0 part (min (length part) (fs_block_size fs))) (\<lambda>new.
                  Inr (Some err, set_entry (fs\<lparr>fs_dev := d\<rparr>) i (e\<lparr>ce_data := new\<rparr>)))
            | (Inr bytes, d) \<Rightarrow>
                verify (length bytes = fs_block_size fs)
                  (Inr (None, set_entry (fs\<lparr>fs_dev := d\<rparr>) i (e\<lparr>ce_data := bytes, ce_has_data := True\<rparr>)))))"

definition read_block ::
  "'d reader \<Rightarrow> 'd writer \<Rightarrow> 'd block_fs \<Rightarrow> nat \<Rightarrow> bool option \<Rightarrow> nat \<Rightarrow> nat \<Rightarrow> bool \<Rightarrow>
   ((kerror + u8 list) \<times> 'd block_fs) res option" where
  "read_block rd wr fs index buffer count offset allow_cache =
     (if \<not> (fs_logical_block_size fs \<noteq> 0 \<and> usz (offset + count) \<le> fs_block_size fs) then Some (Inl Verify_Failed)
      else if \<not> allow_cache
      then let fs = flush_specific_block_if_needed wr fs index in
           Some (case buffer of
             None \<Rightarrow> Inl Undefined_Behaviour
           | Some ok \<Rightarrow>
               (case rd (fs_dev fs) (u64m (index * fs_block_size fs + offset)) count ok of
                  (Inl (err, part), d) \<Rightarrow> Inr (Inl err, fs\<lparr>fs_dev := d\<rparr>)
                | (Inr bytes, d) \<Rightarrow> verify (length bytes = count) (Inr (Inr bytes, fs\<lparr>fs_dev := d\<rparr>))))
      else map_option (\<lambda>r. rbind r (\<lambda>(i, fs).
             rbind (fill_entry rd fs i index) (\<lambda>(err, fs).
               case err of
                 Some e \<Rightarrow> Inr (Inl e, fs)
               | None \<Rightarrow>
                   (case buffer of
                      None \<Rightarrow> Inr (Inr [], fs)
                    | Some ok \<Rightarrow>
                        if ok then Inr (Inr (take count (drop offset (ce_data (dc_entries (fs_cache fs) ! i)))), fs)
                        else Inr (Inl EFAULT, fs)))))
           (DiskCache_get wr fs index))"

definition store_entry ::
  "'d block_fs \<Rightarrow> nat \<Rightarrow> user_data \<Rightarrow> nat \<Rightarrow> nat \<Rightarrow> ((kerror + unit) \<times> 'd block_fs) res" where
  "store_entry fs i data count offset =
     (case data of
        Inl part \<Rightarrow>
          let e = dc_entries (fs_cache fs) ! i in
          rbind (memcpy_at (ce_data e) offset part (min (length part) count)) (\<lambda>new.
            Inr (Inl EFAULT, set_entry fs i (e\<lparr>ce_data := new\<rparr>)))
      | Inr bytes \<Rightarrow>
          rbind (memcpy_at (ce_data (dc_entries (fs_cache fs) ! i)) offset bytes count) (\<lambda>new.
            let fs = fs\<lparr>fs_cache := DiskCache_mark_dirty (fs_cache fs) i\<rparr> in
            Inr (Inr (), set_entry fs i
              ((dc_entries (fs_cache fs) ! i)\<lparr>ce_data := new, ce_has_data := True\<rparr>))))"

definition write_block ::
  "'d reader \<Rightarrow> 'd writer \<Rightarrow> 'd block_fs \<Rightarrow> nat \<Rightarrow> user_data \<Rightarrow> nat \<Rightarrow> nat \<Rightarrow> bool \<Rightarrow>
   ((kerror + unit) \<times> 'd block_fs) res option" where
  "write_block rd wr fs index data count offset allow_cache =
     (if \<not> (fs_logical_block_size fs \<noteq> 0 \<and> usz (offset + count) \<le> fs_block_size fs) then Some (Inl Verify_Failed)
      else if \<not> allow_cache
      then let fs = flush_specific_block_if_needed wr fs index in
           Some (case wr (fs_dev fs) (u64m (index * fs_block_size fs + offset)) (map_sum (take count) (take count) data) of
                   (Inl err, d) \<Rightarrow> Inr (Inl err, fs\<lparr>fs_dev := d\<rparr>)
                 | (Inr nwritten, d) \<Rightarrow> verify (nwritten = count) (Inr (Inr (), fs\<lparr>fs_dev := d\<rparr>)))
      else case DiskCache_get wr fs index of
             None \<Rightarrow> None
           | Some (Inl e) \<Rightarrow> Some (Inl e)
           | Some (Inr (i, fs)) \<Rightarrow>
               if count < fs_block_size fs
               then map_option (\<lambda>r. rbind r (\<lambda>(result, fs).
                      case result of
                        Inl err \<Rightarrow> Inr (Inl err, fs)
                      | Inr _ \<Rightarrow> store_entry fs i data count offset))
                    (read_block rd wr fs index None (fs_block_size fs) 0 True)
               else Some (store_entry fs i data count offset))"

text \<open>The loops over several blocks; a buffer is split at multiples of the block size.\<close>

fun write_blocks_loop ::
  "'d reader \<Rightarrow> 'd writer \<Rightarrow> 'd block_fs \<Rightarrow> nat \<Rightarrow> nat list \<Rightarrow> user_data \<Rightarrow> bool \<Rightarrow>
   ((kerror + unit) \<times> 'd block_fs) res option" where
  "write_blocks_loop rd wr fs index [] data allow_cache = Some (Inr (Inr (), fs))"
| "write_blocks_loop rd wr fs index (i # is) data allow_cache =
     (case write_block rd wr fs (u64m (index + i)) (map_sum (drop (i * fs_block_size fs)) (drop (i * fs_block_size fs)) data) (fs_block_size fs) 0 allow_cache of
        None \<Rightarrow> None
      | Some (Inl e) \<Rightarrow> Some (Inl e)
      | Some (Inr (Inl err, fs)) \<Rightarrow> Some (Inr (Inl err, fs))
      | Some (Inr (Inr _, fs)) \<Rightarrow> write_blocks_loop rd wr fs index is data allow_cache)"

definition write_blocks ::
  "'d reader \<Rightarrow> 'd writer \<Rightarrow> 'd block_fs \<Rightarrow> nat \<Rightarrow> nat \<Rightarrow> user_data \<Rightarrow> bool \<Rightarrow>
   ((kerror + unit) \<times> 'd block_fs) res option" where
  "write_blocks rd wr fs index count data allow_cache =
     (if fs_logical_block_size fs = 0 then Some (Inl Verify_Failed)
      else write_blocks_loop rd wr fs index [0..<count] data allow_cache)"

fun read_blocks_loop ::
  "'d reader \<Rightarrow> 'd writer \<Rightarrow> 'd block_fs \<Rightarrow> nat \<Rightarrow> nat list \<Rightarrow> bool \<Rightarrow> bool \<Rightarrow> u8 list \<Rightarrow>
   ((kerror + u8 list) \<times> 'd block_fs) res option" where
  "read_blocks_loop rd wr fs index [] ok allow_cache out = Some (Inr (Inr out, fs))"
| "read_blocks_loop rd wr fs index (i # is) ok allow_cache out =
     (case read_block rd wr fs (u64m (index + i)) (Some ok) (fs_block_size fs) 0 allow_cache of
        None \<Rightarrow> None
      | Some (Inl e) \<Rightarrow> Some (Inl e)
      | Some (Inr (Inl err, fs)) \<Rightarrow> Some (Inr (Inl err, fs))
      | Some (Inr (Inr bytes, fs)) \<Rightarrow> read_blocks_loop rd wr fs index is ok allow_cache (out @ bytes))"

definition read_blocks ::
  "'d reader \<Rightarrow> 'd writer \<Rightarrow> 'd block_fs \<Rightarrow> nat \<Rightarrow> nat \<Rightarrow> bool \<Rightarrow> bool \<Rightarrow>
   ((kerror + u8 list) \<times> 'd block_fs) res option" where
  "read_blocks rd wr fs index count ok allow_cache =
     (if fs_logical_block_size fs = 0 then Some (Inl Verify_Failed)
      else if count = 0 then Some (Inr (Inl EINVAL, fs))
      else if count = 1 then read_block rd wr fs index (Some ok) (fs_block_size fs) 0 allow_cache
      else read_blocks_loop rd wr fs index [0..<count] ok allow_cache [])"

text \<open>The uncached operations on logical blocks.\<close>

definition raw_read :: "'d reader \<Rightarrow> 'd block_fs \<Rightarrow> nat \<Rightarrow> bool \<Rightarrow> (u8 list \<times> 'd block_fs) res" where
  "raw_read rd fs index ok =
     (case rd (fs_dev fs) (u64m (index * fs_logical_block_size fs)) (fs_logical_block_size fs) ok of
        (Inl _, d) \<Rightarrow> Inl Verify_Failed
      | (Inr bytes, d) \<Rightarrow> verify (length bytes = fs_logical_block_size fs) (Inr (bytes, fs\<lparr>fs_dev := d\<rparr>)))"

definition raw_write :: "'d writer \<Rightarrow> 'd block_fs \<Rightarrow> nat \<Rightarrow> user_data \<Rightarrow> 'd block_fs res" where
  "raw_write wr fs index data =
     (case wr (fs_dev fs) (u64m (index * fs_logical_block_size fs)) (map_sum (take (fs_logical_block_size fs)) (take (fs_logical_block_size fs)) data) of
        (Inl _, d) \<Rightarrow> Inl Verify_Failed
      | (Inr nwritten, d) \<Rightarrow> verify (nwritten = fs_logical_block_size fs) (Inr (fs\<lparr>fs_dev := d\<rparr>)))"

fun raw_read_blocks :: "'d reader \<Rightarrow> 'd block_fs \<Rightarrow> nat \<Rightarrow> nat \<Rightarrow> bool \<Rightarrow> (u8 list \<times> 'd block_fs) res" where
  "raw_read_blocks rd fs block 0 ok = Inr ([], fs)"
| "raw_read_blocks rd fs block (Suc count) ok =
     rbind (raw_read rd fs block ok) (\<lambda>(bytes, fs).
     rbind (raw_read_blocks rd fs (block + 1) count ok) (\<lambda>(rest, fs). Inr (bytes @ rest, fs)))"

fun raw_write_blocks :: "'d writer \<Rightarrow> 'd block_fs \<Rightarrow> nat \<Rightarrow> nat \<Rightarrow> user_data \<Rightarrow> 'd block_fs res" where
  "raw_write_blocks wr fs block 0 data = Inr fs"
| "raw_write_blocks wr fs block (Suc count) data =
     rbind (raw_write wr fs block data) (\<lambda>fs.
     raw_write_blocks wr fs (block + 1) count (map_sum (drop (fs_logical_block_size fs)) (drop (fs_logical_block_size fs)) data))"

end
