(* ===== verification/Cache_Transparency.thy ===== *)
theory Cache_Transparency
  imports Disk_Cache
begin

text \<open>
  The disk cache is transparent: with a device that serves its blocks, the blocks a client sees
  through \<open>read_block\<close> and \<open>write_block\<close> are those of a plain array of blocks, a
  flush writes them to the device, and the lookup of an entry always returns. In two ways the code
  leaves this contract: for block 0, and for accesses that do not use the cache.
\<close>

section \<open>The state between operations\<close>

text \<open>
  What is assumed of the file: the blocks below \<open>N\<close> can be read and written at their
  offset. \<open>blk d\<close> gives the blocks of a device state.
\<close>

definition device_ok :: "'d reader \<Rightarrow> 'd writer \<Rightarrow> ('d \<Rightarrow> nat \<Rightarrow> u8 list) \<Rightarrow> nat \<Rightarrow> nat \<Rightarrow> bool" where
  "device_ok rd wr blk bs N \<longleftrightarrow> 0 < bs \<and> N * bs \<le> 2 ^ 64 \<and>
     (\<forall>d b. b < N \<longrightarrow> length (blk d b) = bs \<and>
       (\<exists>d'. rd d (b * bs) bs True = (Inr (blk d b), d') \<and> blk d' = blk d) \<and>
       (\<forall>data. length data = bs \<longrightarrow>
         (\<exists>d'. wr d (b * bs) (Inr data) = (Inr bs, d') \<and> blk d' = (blk d)(b := data))))"

text \<open>
  The state of the cache between operations. An entry is in use when the hash map leads to it;
  block 0 is never cached, so that the index 0 of fresh entries does not name a block.
\<close>

definition cache_inv :: "('d \<Rightarrow> nat \<Rightarrow> u8 list) \<Rightarrow> nat \<Rightarrow> nat \<Rightarrow> 'd block_fs \<Rightarrow> bool" where
  "cache_inv blk bs N fs \<longleftrightarrow>
     (let c = fs_cache fs; es = dc_entries c in
      fs_block_size fs = bs \<and> fs_logical_block_size fs \<noteq> 0 \<and> es \<noteq> [] \<and>
      (\<forall>e\<in>set es. length (ce_data e) = bs) \<and>
      distinct (dc_clean_list c @ dc_dirty_list c) \<and> set (dc_clean_list c @ dc_dirty_list c) = {..<length es} \<and>
      (dc_dirty_list c \<noteq> [] \<longrightarrow> dc_dirty c) \<and>
      dc_hash c 0 = None \<and>
      (\<forall>b i. dc_hash c b = Some i \<longrightarrow> b < N \<and> i < length es \<and> ce_block_index (es ! i) = b) \<and>
      (\<forall>i<length es. (\<forall>b. dc_hash c b \<noteq> Some i) \<longrightarrow> ce_block_index (es ! i) = 0) \<and>
      (\<forall>i\<in>set (dc_dirty_list c). dc_hash c (ce_block_index (es ! i)) = Some i \<and> ce_has_data (es ! i)) \<and>
      (\<forall>i\<in>set (dc_clean_list c). dc_hash c (ce_block_index (es ! i)) = Some i \<longrightarrow> ce_has_data (es ! i) \<longrightarrow>
         ce_data (es ! i) = blk (fs_dev fs) (ce_block_index (es ! i))))"

lemma cache_invD:
  assumes "cache_inv blk bs N fs" and "c = fs_cache fs"
  shows "fs_block_size fs = bs" "fs_logical_block_size fs \<noteq> 0" "dc_entries c \<noteq> []"
    "\<forall>e\<in>set (dc_entries c). length (ce_data e) = bs"
    "distinct (dc_clean_list c @ dc_dirty_list c)"
    "set (dc_clean_list c @ dc_dirty_list c) = {..<length (dc_entries c)}"
    "dc_dirty_list c \<noteq> [] \<longrightarrow> dc_dirty c" "dc_hash c 0 = None"
    "\<forall>b i. dc_hash c b = Some i \<longrightarrow> b < N \<and> i < length (dc_entries c) \<and> ce_block_index (dc_entries c ! i) = b"
    "\<forall>i<length (dc_entries c). (\<forall>b. dc_hash c b \<noteq> Some i) \<longrightarrow> ce_block_index (dc_entries c ! i) = 0"
    "\<forall>i\<in>set (dc_dirty_list c). dc_hash c (ce_block_index (dc_entries c ! i)) = Some i \<and> ce_has_data (dc_entries c ! i)"
    "\<forall>i\<in>set (dc_clean_list c). dc_hash c (ce_block_index (dc_entries c ! i)) = Some i \<longrightarrow> ce_has_data (dc_entries c ! i) \<longrightarrow>
       ce_data (dc_entries c ! i) = blk (fs_dev fs) (ce_block_index (dc_entries c ! i))"
  using assms(1) unfolding cache_inv_def Let_def assms(2) by - (elim conjE, assumption)+

lemma cache_invI:
  assumes "fs_block_size fs = bs" "fs_logical_block_size fs \<noteq> 0" "dc_entries (fs_cache fs) = es" "dc_hash (fs_cache fs) = h"
    "dc_clean_list (fs_cache fs) = cl" "dc_dirty_list (fs_cache fs) = dl" "dl \<noteq> [] \<longrightarrow> dc_dirty (fs_cache fs)"
    "es \<noteq> []" "\<forall>e\<in>set es. length (ce_data e) = bs" "distinct (cl @ dl)" "set (cl @ dl) = {..<length es}" "h 0 = None"
    "\<And>b i. h b = Some i \<Longrightarrow> b < N \<and> i < length es \<and> ce_block_index (es ! i) = b"
    "\<And>i. i < length es \<Longrightarrow> (\<And>b. h b \<noteq> Some i) \<Longrightarrow> ce_block_index (es ! i) = 0"
    "\<And>i. i \<in> set dl \<Longrightarrow> h (ce_block_index (es ! i)) = Some i \<and> ce_has_data (es ! i)"
    "\<And>i. i \<in> set cl \<Longrightarrow> h (ce_block_index (es ! i)) = Some i \<Longrightarrow> ce_has_data (es ! i) \<Longrightarrow>
       ce_data (es ! i) = blk (fs_dev fs) (ce_block_index (es ! i))"
  shows "cache_inv blk bs N fs"
  unfolding cache_inv_def Let_def assms(3-6) using assms(1,2,7-) by (intro conjI allI impI ballI) blast+

text \<open>The block a reader sees: the cached data, or the device's block.\<close>

definition block_view :: "('d \<Rightarrow> nat \<Rightarrow> u8 list) \<Rightarrow> 'd block_fs \<Rightarrow> nat \<Rightarrow> u8 list" where
  "block_view blk fs b =
     (case dc_hash (fs_cache fs) b of
        Some i \<Rightarrow> let e = dc_entries (fs_cache fs) ! i in if ce_has_data e then ce_data e else blk (fs_dev fs) b
      | None \<Rightarrow> blk (fs_dev fs) b)"

lemma u64m_block: "device_ok rd wr blk bs N \<Longrightarrow> b < N \<Longrightarrow> u64m (b * bs) = b * bs"
proof -
  assume d: "device_ok rd wr blk bs N" and b: "b < N"
  then have "0 < bs" "N * bs \<le> 2 ^ 64" by (simp_all add: device_ok_def)
  moreover have "b * bs < N * bs" using b \<open>0 < bs\<close> by simp
  ultimately have "b * bs < 2 ^ 64" by linarith
  then show ?thesis unfolding u64m_def by (rule mod_less)
qed

lemma device_write:
  assumes "device_ok rd wr blk bs N" "b < N" "length data = bs"
  shows "blk (snd (wr d (b * bs) (Inr data))) = (blk d)(b := data)"
  using assms unfolding device_ok_def by (metis snd_conv)

lemma mark_all_clean_loop_eq: "mark_all_clean_loop dirty clean = rev dirty @ clean"
  by (induction dirty arbitrary: clean) simp_all

text \<open>Writing the dirty entries to the device.\<close>

lemma flush_fold:
  assumes dev: "device_ok rd wr blk bs N" and off: "\<And>b. b < N \<Longrightarrow> off (b * bs) = b * bs"
  defines "bi \<equiv> \<lambda>c i. ce_block_index (dc_entries c ! i)"
  shows "\<forall>i\<in>set is. bi c i < N \<and> length (ce_data (dc_entries c ! i)) = bs \<Longrightarrow> distinct (map (bi c) is) \<Longrightarrow>
    D = fold (\<lambda>i. flush_entry wr c (off (bi c i * bs)) i) is d \<Longrightarrow>
    (\<forall>i\<in>set is. blk D (bi c i) = ce_data (dc_entries c ! i)) \<and> (\<forall>b. b \<notin> bi c ` set is \<longrightarrow> blk D b = blk d b)"
proof (induction "is" arbitrary: d)
  case Nil
  then show ?case by simp
next
  case (Cons i js)
  define d1 where "d1 = flush_entry wr c (off (bi c i * bs)) i d"
  have d1: "blk d1 = (blk d)(bi c i := ce_data (dc_entries c ! i))"
    using Cons.prems(1) off device_write [OF dev] by (simp add: d1_def flush_entry_def)
  have "(\<forall>i\<in>set js. blk D (bi c i) = ce_data (dc_entries c ! i)) \<and> (\<forall>b. b \<notin> bi c ` set js \<longrightarrow> blk D b = blk d1 b)"
    using Cons.prems by (intro Cons.IH) (simp_all add: d1_def)
  then show ?case using Cons.prems(2) d1 by auto
qed

lemma cache_inv_dirty_distinct:
  assumes "cache_inv blk bs N fs"
  shows "distinct (map (\<lambda>i. ce_block_index (dc_entries (fs_cache fs) ! i)) (dc_dirty_list (fs_cache fs)))"
proof -
  have "distinct (dc_dirty_list (fs_cache fs))"
    "\<forall>i\<in>set (dc_dirty_list (fs_cache fs)). dc_hash (fs_cache fs) (ce_block_index (dc_entries (fs_cache fs) ! i)) = Some i"
    using cache_invD(5,11) [OF assms refl] by simp_all
  then show ?thesis by (auto simp: distinct_map inj_on_def) (metis option.inject)
qed

lemma view_in_use:
  "dc_hash (fs_cache fs) b = Some i \<Longrightarrow> ce_has_data (dc_entries (fs_cache fs) ! i) \<Longrightarrow>
   block_view blk fs b = ce_data (dc_entries (fs_cache fs) ! i)"
  by (simp add: block_view_def)

lemma view_clean:
  assumes ci: "cache_inv blk bs N fs" and "\<And>k. k \<in> set (dc_dirty_list (fs_cache fs)) \<Longrightarrow> dc_hash (fs_cache fs) b \<noteq> Some k"
  shows "block_view blk fs b = blk (fs_dev fs) b"
proof (cases "dc_hash (fs_cache fs) b")
  case (Some k)
  note inv = cache_invD [OF ci refl]
  have k: "k < length (dc_entries (fs_cache fs))" "ce_block_index (dc_entries (fs_cache fs) ! k) = b"
    using inv(9) Some by blast+
  moreover have "k \<in> set (dc_clean_list (fs_cache fs))" using inv(6) k(1) assms(2) [of k] Some by (metis Un_iff lessThan_iff set_append)
  ultimately show ?thesis using inv(12) Some by (auto simp: block_view_def Let_def)
qed (simp add: block_view_def)

text \<open>Writing some of the dirty entries brings their blocks on the device to what readers see.\<close>

lemma flush_some:
  assumes dev: "device_ok rd wr blk bs N" and off: "\<And>b. b < N \<Longrightarrow> off (b * bs) = b * bs"
    and ci: "cache_inv blk bs N fs" and js: "js = filter P (dc_dirty_list (fs_cache fs))"
    and D: "D = fold (\<lambda>i. flush_entry wr (fs_cache fs) (off (ce_block_index (dc_entries (fs_cache fs) ! i) * bs)) i) js (fs_dev fs)"
  shows "k \<in> set js \<Longrightarrow> dc_hash (fs_cache fs) b = Some k \<Longrightarrow> blk D b = block_view blk fs b"
    "(\<And>k. k \<in> set js \<Longrightarrow> dc_hash (fs_cache fs) b \<noteq> Some k) \<Longrightarrow> blk D b = blk (fs_dev fs) b"
proof -
  define c bi where "c = fs_cache fs" and "bi = (\<lambda>i. ce_block_index (dc_entries c ! i))"
  note inv = cache_invD [OF ci c_def]
  have dirty: "dc_hash c (bi i) = Some i" "ce_has_data (dc_entries c ! i)" if "i \<in> set js" for i
    using inv(11) that js by (auto simp: bi_def c_def)
  have "\<forall>i\<in>set js. bi i < N \<and> length (ce_data (dc_entries c ! i)) = bs" using dirty(1) inv(4,9) nth_mem by blast
  moreover have "distinct (map bi js)"
    using cache_inv_dirty_distinct [OF ci] by (simp add: js bi_def c_def distinct_map inj_on_def)
  ultimately have fl: "(\<forall>i\<in>set js. blk D (bi i) = ce_data (dc_entries c ! i)) \<and> (\<forall>b. b \<notin> bi ` set js \<longrightarrow> blk D b = blk (fs_dev fs) b)"
    using flush_fold [OF dev off, of js c D "fs_dev fs"] by (simp add: D bi_def c_def)
  show "blk D b = block_view blk fs b" if k: "k \<in> set js" "dc_hash (fs_cache fs) b = Some k"
  proof -
    have "bi k = b" using inv(9) k(2) by (auto simp: bi_def c_def)
    then show ?thesis using fl k view_in_use [of fs b k blk] dirty [OF k(1)] by (auto simp: c_def)
  qed
  show "blk D b = blk (fs_dev fs) b" if "\<And>k. k \<in> set js \<Longrightarrow> dc_hash (fs_cache fs) b \<noteq> Some k"
    using fl dirty(1) that by (metis (no_types, lifting) c_def imageE)
qed

text \<open>After a flush the device holds what readers saw before it, and so do they.\<close>

lemma flush_device:
  assumes dev: "device_ok rd wr blk bs N" and ci: "cache_inv blk bs N fs"
  shows "blk (fs_dev (flush_writes_impl wr fs)) = block_view blk fs"
proof
  fix b
  let ?c = "fs_cache fs"
  have dirty: "dc_dirty_list ?c \<noteq> [] \<longrightarrow> dc_dirty ?c" "fs_block_size fs = bs" using cache_invD(1,7) [OF ci refl] by blast+
  then have D: "fs_dev (flush_writes_impl wr fs) =
      fold (\<lambda>i. flush_entry wr ?c (u64m (ce_block_index (dc_entries ?c ! i) * bs)) i) (dc_dirty_list ?c) (fs_dev fs)"
    by (auto simp: flush_writes_impl_def Let_def)
  have js: "dc_dirty_list ?c = filter (\<lambda>_. True) (dc_dirty_list ?c)" by simp
  note fl = flush_some [OF dev u64m_block [OF dev] ci js D]
  show "blk (fs_dev (flush_writes_impl wr fs)) b = block_view blk fs b"
  proof (cases "\<exists>k\<in>set (dc_dirty_list ?c). dc_hash ?c b = Some k")
    case True
    then show ?thesis using fl(1) by blast
  next
    case False
    then show ?thesis using fl(2) view_clean [OF ci, of b] by metis
  qed
qed

text \<open>Flushing for an uncached access: every dirty block but the one accessed.\<close>

lemma mark_clean_fold:
  "dc_hash (fold (\<lambda>i c. DiskCache_mark_clean c i) js c) = dc_hash c"
  "dc_entries (fold (\<lambda>i c. DiskCache_mark_clean c i) js c) = dc_entries c"
  "distinct (dc_dirty_list c) \<Longrightarrow>
   dc_dirty_list (fold (\<lambda>i c. DiskCache_mark_clean c i) js c) = filter (\<lambda>i. i \<notin> set js) (dc_dirty_list c)"
proof (induction js arbitrary: c)
  case (Cons j js)
  {
    case 3
    then show ?case using Cons.IH(3) [of "DiskCache_mark_clean c j"]
      by (auto simp: DiskCache_mark_clean_def DiskCache_prepend_clean_def distinct_remove1_removeAll removeAll_filter_not_eq
          intro: filter_cong)
  }
qed (simp_all add: DiskCache_mark_clean_def DiskCache_prepend_clean_def)

lemma flush_specific_device:
  assumes dev: "device_ok rd wr blk bs N" and ci: "cache_inv blk bs N fs" and sz: "N * bs \<le> 2 ^ 32"
    and fs': "fs' = flush_specific_block_if_needed wr fs index"
  shows "blk (fs_dev fs') = (block_view blk fs)(index := blk (fs_dev fs) index)"
proof
  fix b
  let ?c = "fs_cache fs"
  define off where "off = (\<lambda>n. usz (u64m n))"
  have off: "off (b * bs) = b * bs" if "b < N" for b
  proof -
    have "0 < bs" using dev by (simp add: device_ok_def)
    then have "b * bs < N * bs" using that by simp
    then have "b * bs < 2 ^ 32" using sz by linarith
    then show ?thesis using u64m_block [OF dev that] by (simp add: off_def)
  qed
  define js where "js = filter (\<lambda>i. ce_block_index (dc_entries ?c ! i) \<noteq> index) (dc_dirty_list ?c)"
  note inv = cache_invD [OF ci refl]
  have D: "fs_dev fs' = fold (\<lambda>i. flush_entry wr ?c (off (ce_block_index (dc_entries ?c ! i) * bs)) i) js (fs_dev fs)"
    using inv(1,7) by (auto simp: fs' flush_specific_block_if_needed_def Let_def js_def off_def)
  note fl = flush_some [OF dev off ci js_def D]
  show "blk (fs_dev fs') b = ((block_view blk fs)(index := blk (fs_dev fs) index)) b"
  proof (cases "b = index")
    case True
    have "dc_hash ?c b \<noteq> Some k" if "k \<in> set js" for k using inv(9) that True by (auto simp: js_def)
    then show ?thesis using fl(2) [of b] True by simp
  next
    case False
    show ?thesis
    proof (cases "\<exists>k\<in>set (dc_dirty_list ?c). dc_hash ?c b = Some k")
      case True
      then obtain k where "k \<in> set (dc_dirty_list ?c)" "dc_hash ?c b = Some k" by blast
      moreover from this have "k \<in> set js" using inv(9) False by (auto simp: js_def)
      ultimately show ?thesis using fl(1) [of k b] False by simp
    next
      case none: False
      then have "dc_hash ?c b \<noteq> Some k" if "k \<in> set js" for k using that by (auto simp: js_def)
      then show ?thesis using fl(2) [of b] view_clean [OF ci, of b] none False by (metis fun_upd_other)
    qed
  qed
qed

lemma flush_specific_lists:
  assumes "cache_inv blk bs N fs" and fs': "fs' = flush_specific_block_if_needed wr fs index"
  shows "dc_dirty_list (fs_cache fs') =
      filter (\<lambda>i. ce_block_index (dc_entries (fs_cache fs) ! i) = index) (dc_dirty_list (fs_cache fs))"
    "dc_hash (fs_cache fs') = dc_hash (fs_cache fs)" "dc_entries (fs_cache fs') = dc_entries (fs_cache fs)"
    "fs_block_size fs' = bs" "fs_logical_block_size fs' \<noteq> 0"
  using cache_invD(1,2,5,7) [OF assms(1) refl]
  by (auto simp: fs' flush_specific_block_if_needed_def Let_def mark_clean_fold intro: filter_cong)

lemma flush_specific_view:
  assumes dev: "device_ok rd wr blk bs N" and ci: "cache_inv blk bs N fs" and sz: "N * bs \<le> 2 ^ 32"
  shows "block_view blk (flush_specific_block_if_needed wr fs index) = block_view blk fs"
proof
  fix b
  let ?fs = "flush_specific_block_if_needed wr fs index"
  note l = flush_specific_lists(2,3) [OF ci refl] and d = flush_specific_device [OF dev ci sz refl]
  show "block_view blk ?fs b = block_view blk fs b"
    unfolding block_view_def [of blk ?fs] l d by (auto simp: block_view_def Let_def split: option.splits)
qed

lemma flush_fields:
  "dc_hash (fs_cache (flush_writes_impl wr fs)) = dc_hash (fs_cache fs)"
  "dc_entries (fs_cache (flush_writes_impl wr fs)) = dc_entries (fs_cache fs)"
  "fs_block_size (flush_writes_impl wr fs) = fs_block_size fs"
  "fs_logical_block_size (flush_writes_impl wr fs) = fs_logical_block_size fs"
  by (simp_all add: flush_writes_impl_def Let_def DiskCache_mark_all_clean_def)

lemma flush_lists:
  assumes "cache_inv blk bs N fs"
  shows "dc_dirty_list (fs_cache (flush_writes_impl wr fs)) = []"
    "set (dc_clean_list (fs_cache (flush_writes_impl wr fs))) = {..<length (dc_entries (fs_cache fs))}"
    "distinct (dc_clean_list (fs_cache (flush_writes_impl wr fs)))"
  using cache_invD(5-7) [OF assms refl]
  by (auto simp: flush_writes_impl_def Let_def DiskCache_mark_all_clean_def mark_all_clean_loop_eq)

lemma flush_inv:
  assumes dev: "device_ok rd wr blk bs N" and ci: "cache_inv blk bs N fs"
  shows "cache_inv blk bs N (flush_writes_impl wr fs)" "block_view blk (flush_writes_impl wr fs) = block_view blk fs"
proof -
  define fs' where "fs' = flush_writes_impl wr fs"
  note inv = cache_invD [OF ci refl]
  have f: "dc_hash (fs_cache fs') = dc_hash (fs_cache fs)" "dc_entries (fs_cache fs') = dc_entries (fs_cache fs)"
    "fs_block_size fs' = bs" "fs_logical_block_size fs' \<noteq> 0" "blk (fs_dev fs') = block_view blk fs"
    "dc_dirty_list (fs_cache fs') = []" "set (dc_clean_list (fs_cache fs')) = {..<length (dc_entries (fs_cache fs))}"
    "distinct (dc_clean_list (fs_cache fs'))"
    using inv(1,2) flush_device [OF dev ci] flush_lists [OF ci] by (simp_all add: fs'_def flush_fields)
  show "block_view blk fs' = block_view blk fs"
    by (rule ext) (auto simp: block_view_def f Let_def split: option.splits)
  show "cache_inv blk bs N fs'"
  proof (rule cache_invI [OF f(3,4,2,1) refl f(6)])
    show "ce_data (dc_entries (fs_cache fs) ! i) = blk (fs_dev fs') (ce_block_index (dc_entries (fs_cache fs) ! i))"
      if "dc_hash (fs_cache fs) (ce_block_index (dc_entries (fs_cache fs) ! i)) = Some i" "ce_has_data (dc_entries (fs_cache fs) ! i)" for i
      using view_in_use [OF that] by (simp add: f(5))
    show "ce_block_index (dc_entries (fs_cache fs) ! i) = 0"
      if "i < length (dc_entries (fs_cache fs))" "\<And>b. dc_hash (fs_cache fs) b \<noteq> Some i" for i
      using inv(10) that by blast
  qed (use inv(3,4,8,9) f(7,8) in auto)
qed

section \<open>Entries\<close>

lemma recycle_facts:
  assumes ci: "cache_inv blk bs N fs" and b: "dc_hash (fs_cache fs) b = None" and clean: "dc_clean_list (fs_cache fs) \<noteq> []"
  defines "i \<equiv> last (dc_clean_list (fs_cache fs))"
  defines "fs' \<equiv> fs\<lparr>fs_cache := DiskCache_recycle (fs_cache fs) i b\<rparr>"
  defines "es \<equiv> dc_entries (fs_cache fs)"
  shows "i \<in> set (dc_clean_list (fs_cache fs))" "i < length es" "i \<notin> set (dc_dirty_list (fs_cache fs))"
    "dc_entries (fs_cache fs') = es[i := (es ! i)\<lparr>ce_block_index := b, ce_has_data := False\<rparr>]"
    "\<And>b' k. dc_hash (fs_cache fs') b' = Some k \<longleftrightarrow> (if b' = b then k = i else k \<noteq> i \<and> dc_hash (fs_cache fs) b' = Some k)"
    "dc_clean_list (fs_cache fs') = i # remove1 i (dc_clean_list (fs_cache fs))"
    "dc_dirty_list (fs_cache fs') = dc_dirty_list (fs_cache fs)" "dc_dirty (fs_cache fs') = dc_dirty (fs_cache fs)"
    "fs_dev fs' = fs_dev fs" "fs_block_size fs' = bs" "fs_logical_block_size fs' \<noteq> 0"
proof -
  define c where "c = fs_cache fs"
  note inv = cache_invD [OF ci c_def]
  define bi where "bi = ce_block_index (es ! i)"
  show ic: "i \<in> set (dc_clean_list (fs_cache fs))" using clean by (simp add: i_def)
  then show il: "i < length es" and id: "i \<notin> set (dc_dirty_list (fs_cache fs))" using inv(5,6) by (auto simp: es_def c_def)
  have bi: "dc_hash c bi = Some i \<or> bi = 0" using inv(9,10) il unfolding bi_def es_def c_def by metis
  have other: "dc_hash c b' \<noteq> Some i" if "b' \<noteq> bi" for b' using inv(9) that by (auto simp: bi_def es_def c_def)
  show "dc_entries (fs_cache fs') = es[i := (es ! i)\<lparr>ce_block_index := b, ce_has_data := False\<rparr>]"
    "dc_clean_list (fs_cache fs') = i # remove1 i (dc_clean_list (fs_cache fs))"
    "dc_dirty_list (fs_cache fs') = dc_dirty_list (fs_cache fs)" "dc_dirty (fs_cache fs') = dc_dirty (fs_cache fs)"
    "fs_dev fs' = fs_dev fs" "fs_block_size fs' = bs" "fs_logical_block_size fs' \<noteq> 0"
    using id inv(1,2) by (simp_all add: fs'_def DiskCache_recycle_def DiskCache_prepend_clean_def Let_def es_def remove1_idem)
  have hash: "dc_hash (fs_cache fs') = ((dc_hash c)(bi := None))(b \<mapsto> i)"
    by (simp add: fs'_def DiskCache_recycle_def DiskCache_prepend_clean_def Let_def es_def bi_def c_def)
  show "dc_hash (fs_cache fs') b' = Some k \<longleftrightarrow> (if b' = b then k = i else k \<noteq> i \<and> dc_hash (fs_cache fs) b' = Some k)" for b' k
  proof (cases "b' = bi")
    case True
    then show ?thesis using bi b inv(8) by (auto simp: hash c_def)
  next
    case False
    then show ?thesis using other by (auto simp: hash c_def)
  qed
qed

lemma recycle_view:
  assumes ci: "cache_inv blk bs N fs" and b: "dc_hash (fs_cache fs) b = None" and clean: "dc_clean_list (fs_cache fs) \<noteq> []"
  defines "i \<equiv> last (dc_clean_list (fs_cache fs))"
  defines "fs' \<equiv> fs\<lparr>fs_cache := DiskCache_recycle (fs_cache fs) i b\<rparr>"
  shows "block_view blk fs' = block_view blk fs" "dc_hash (fs_cache fs') b = Some i"
proof -
  note inv = cache_invD [OF ci refl]
  note r = recycle_facts [OF ci b clean, folded i_def, folded fs'_def]
  show hit: "dc_hash (fs_cache fs') b = Some i" by (simp add: r(5))
  show "block_view blk fs' = block_view blk fs"
  proof
    fix b'
    have gone: "dc_hash (fs_cache fs') b' = None"
      if "b' \<noteq> b" "dc_hash (fs_cache fs) b' = None \<or> dc_hash (fs_cache fs) b' = Some i"
      using that r(5) [of b'] by (metis not_Some_eq option.inject)
    consider "b' = b" | "b' \<noteq> b" "dc_hash (fs_cache fs) b' = None" | "b' \<noteq> b" "dc_hash (fs_cache fs) b' = Some i"
      | k where "b' \<noteq> b" "dc_hash (fs_cache fs) b' = Some k" "k \<noteq> i" by (cases "dc_hash (fs_cache fs) b'") auto
    then show "block_view blk fs' b' = block_view blk fs b'"
    proof cases
      case 1
      then show ?thesis using b hit r(2) by (simp add: block_view_def r(4,9))
    next
      case 2
      then show ?thesis using gone by (simp add: block_view_def r(9))
    next
      case 3
      then have "ce_block_index (dc_entries (fs_cache fs) ! i) = b'" using inv(9) by blast
      then have "ce_has_data (dc_entries (fs_cache fs) ! i) \<longrightarrow> ce_data (dc_entries (fs_cache fs) ! i) = blk (fs_dev fs) b'"
        using inv(12) r(1) 3(2) by blast
      then show ?thesis using gone 3 by (simp add: block_view_def r(9) Let_def)
    next
      case 4
      then have "dc_hash (fs_cache fs') b' = Some k" using r(5) by simp
      then show ?thesis using 4 by (simp add: block_view_def r(4,9) Let_def)
    qed
  qed
qed

lemma recycle_inv:
  assumes ci: "cache_inv blk bs N fs" and b: "dc_hash (fs_cache fs) b = None" "0 < b" "b < N"
    and clean: "dc_clean_list (fs_cache fs) \<noteq> []"
  defines "i \<equiv> last (dc_clean_list (fs_cache fs))"
  defines "fs' \<equiv> fs\<lparr>fs_cache := DiskCache_recycle (fs_cache fs) i b\<rparr>"
  shows "cache_inv blk bs N fs'"
proof -
  define c es where "c = fs_cache fs" and "es = dc_entries c"
  note inv = cache_invD [OF ci c_def, folded es_def]
  note r = recycle_facts [OF ci b(1) clean, folded i_def, folded fs'_def, folded c_def, folded es_def]
  define es' hash' where "es' = dc_entries (fs_cache fs')" and "hash' = dc_hash (fs_cache fs')"
  note H = r(5) [folded hash'_def]
  have E: "es' ! k = (if k = i then (es ! i)\<lparr>ce_block_index := b, ce_has_data := False\<rparr> else es ! k)" "length es' = length es" for k
    using r(2) by (simp_all add: es'_def r(4) nth_list_update)
  show ?thesis
  proof (rule cache_invI [OF r(10,11) es'_def [symmetric] hash'_def [symmetric] r(6,7)])
    show "dc_dirty_list c \<noteq> [] \<longrightarrow> dc_dirty (fs_cache fs')" using inv(7) by (simp add: r(8))
    show "es' \<noteq> []" using r(2) E(2) by auto
    show "\<forall>e\<in>set es'. length (ce_data e) = bs"
      using inv(4) nth_mem [of _ es] r(2) unfolding all_set_conv_all_nth E(2) by (simp add: E(1))
    show "distinct ((i # remove1 i (dc_clean_list c)) @ dc_dirty_list c)"
      using inv(5) r(3) by (auto simp: set_remove1_eq)
    show "set ((i # remove1 i (dc_clean_list c)) @ dc_dirty_list c) = {..<length es'}"
      using inv(5,6) r(1) by (auto simp: set_remove1_eq E)
    show "hash' 0 = None" using H [of 0] inv(8) b(2) by (cases "hash' 0") auto
    show "b' < N \<and> k < length es' \<and> ce_block_index (es' ! k) = b'" if "hash' b' = Some k" for b' k
      using that inv(9) H [of b' k] b(3) r(2) by (auto simp: E split: if_splits)
    show "ce_block_index (es' ! k) = 0" if k: "k < length es'" "\<And>b'. hash' b' \<noteq> Some k" for k
    proof -
      have "k \<noteq> i" using k(2) [of b] H [of b i] by auto
      moreover have "dc_hash c b' \<noteq> Some k" for b' using k(2) [of b'] H [of b' k] b(1) \<open>k \<noteq> i\<close> by (auto simp: c_def split: if_splits)
      ultimately show ?thesis using inv(10) k(1) by (simp add: E)
    qed
    show "hash' (ce_block_index (es' ! k)) = Some k \<and> ce_has_data (es' ! k)" if "k \<in> set (dc_dirty_list c)" for k
      using that r(3) inv(11) H [of "ce_block_index (es ! k)" k] b(1) by (auto simp: E c_def)
    show "ce_data (es' ! k) = blk (fs_dev fs') (ce_block_index (es' ! k))"
      if k: "k \<in> set (i # remove1 i (dc_clean_list c))" "hash' (ce_block_index (es' ! k)) = Some k" "ce_has_data (es' ! k)" for k
    proof -
      have "k \<noteq> i" using k(3) by (auto simp: E)
      moreover from this have "k \<in> set (dc_clean_list c)" using k(1) by (auto dest: notin_set_remove1)
      ultimately show ?thesis using k(2,3) inv(12) H [of "ce_block_index (es ! k)" k] by (auto simp: E r(9) split: if_splits)
    qed
  qed
qed

lemma cache_get_spec:
  assumes dev: "device_ok rd wr blk bs N" and ci: "cache_inv blk bs N fs" and b: "0 < b" "b < N"
  shows "\<exists>i fs'. DiskCache_get wr fs b = Some (Inr (i, fs')) \<and> cache_inv blk bs N fs' \<and>
    block_view blk fs' = block_view blk fs \<and> dc_hash (fs_cache fs') b = Some i"
proof -
  have hit: ?thesis if h: "dc_hash (fs_cache fs) b = Some i" for i
  proof -
    have "ce_block_index (dc_entries (fs_cache fs) ! i) = b" using cache_invD(9) [OF ci refl] h by blast
    then have "DiskCache_get wr fs b = Some (Inr (i, fs))" using h by (simp add: DiskCache_get.simps [of wr fs b])
    then show ?thesis using ci h by blast
  qed
  have miss: "\<exists>i fs'. DiskCache_get wr f b = Some (Inr (i, fs')) \<and> cache_inv blk bs N fs' \<and>
      block_view blk fs' = block_view blk f \<and> dc_hash (fs_cache fs') b = Some i"
    if "cache_inv blk bs N f" "dc_hash (fs_cache f) b = None" "dc_clean_list (fs_cache f) \<noteq> []" for f
    using recycle_inv [OF that(1,2) b that(3)] recycle_view [OF that] that(2,3) by (simp add: DiskCache_get.simps [of wr f b] Let_def)
  show ?thesis
  proof (cases "dc_hash (fs_cache fs) b")
    case None
    show ?thesis
    proof (cases "dc_clean_list (fs_cache fs) = []")
      case True
      define f where "f = flush_writes_impl wr fs"
      have "cache_inv blk bs N f" "block_view blk f = block_view blk fs" using flush_inv [OF dev ci] by (simp_all add: f_def)
      moreover have "dc_hash (fs_cache f) b = None" using None by (simp add: f_def flush_fields)
      moreover have "dc_clean_list (fs_cache f) \<noteq> []"
        using flush_lists(2) [OF ci, of wr] cache_invD(3) [OF ci refl] unfolding f_def
        by (metis empty_iff length_greater_0_conv lessThan_iff list.set(1))
      moreover have "DiskCache_get wr fs b = DiskCache_get wr f b"
        using None True by (simp add: DiskCache_get.simps [of wr fs b] f_def)
      ultimately show ?thesis using miss [of f] by simp
    next
      case False
      then show ?thesis using miss [OF ci None] by blast
    qed
  qed (rule hit)
qed

lemma entry_facts:
  assumes ci: "cache_inv blk bs N fs" and h: "dc_hash (fs_cache fs) b = Some i"
  shows "i < length (dc_entries (fs_cache fs))" "ce_block_index (dc_entries (fs_cache fs) ! i) = b" "b < N" "b \<noteq> 0"
    "length (ce_data (dc_entries (fs_cache fs) ! i)) = bs"
proof -
  show i: "i < length (dc_entries (fs_cache fs))" "ce_block_index (dc_entries (fs_cache fs) ! i) = b" "b < N"
    using cache_invD(9) [OF ci refl] h by blast+
  show "b \<noteq> 0" using cache_invD(8) [OF ci refl] h by (metis option.distinct(1))
  show "length (ce_data (dc_entries (fs_cache fs) ! i)) = bs" using cache_invD(4) [OF ci refl] i(1) by simp
qed

text \<open>Filling an entry from the device.\<close>

lemma cache_fill_spec:
  assumes dev: "device_ok rd wr blk bs N" and ci: "cache_inv blk bs N fs" and h: "dc_hash (fs_cache fs) b = Some i"
  shows "\<exists>fs'. fill_entry rd fs i b = Inr (None, fs') \<and> cache_inv blk bs N fs' \<and> block_view blk fs' = block_view blk fs \<and>
    dc_hash (fs_cache fs') b = Some i \<and> ce_has_data (dc_entries (fs_cache fs') ! i)"
proof (cases "ce_has_data (dc_entries (fs_cache fs) ! i)")
  case True
  then show ?thesis using ci h by (simp add: fill_entry_def)
next
  case False
  note e = entry_facts [OF ci h] and inv = cache_invD [OF ci refl]
  define es where "es = dc_entries (fs_cache fs)"
  obtain d where d: "rd (fs_dev fs) (b * bs) bs True = (Inr (blk (fs_dev fs) b), d)" "blk d = blk (fs_dev fs)"
    "length (blk (fs_dev fs) b) = bs" using dev e(3) unfolding device_ok_def by blast
  define es' where "es' = es[i := (es ! i)\<lparr>ce_data := blk (fs_dev fs) b, ce_has_data := True\<rparr>]"
  define fs' where "fs' = set_entry (fs\<lparr>fs_dev := d\<rparr>) i ((es ! i)\<lparr>ce_data := blk (fs_dev fs) b, ce_has_data := True\<rparr>)"
  have f: "fill_entry rd fs i b = Inr (None, fs')"
    using False d u64m_block [OF dev e(3)] inv(1) by (simp add: fill_entry_def fs'_def es_def)
  have s: "fs_block_size fs' = bs" "fs_logical_block_size fs' \<noteq> 0" "dc_entries (fs_cache fs') = es'" "dc_hash (fs_cache fs') = dc_hash (fs_cache fs)"
    "dc_clean_list (fs_cache fs') = dc_clean_list (fs_cache fs)" "dc_dirty_list (fs_cache fs') = dc_dirty_list (fs_cache fs)"
    "dc_dirty (fs_cache fs') = dc_dirty (fs_cache fs)" "fs_dev fs' = d"
    using inv(1,2) by (simp_all add: fs'_def set_entry_def es'_def es_def)
  have E: "es' ! k = (if k = i then (es ! i)\<lparr>ce_data := blk (fs_dev fs) b, ce_has_data := True\<rparr> else es ! k)"
    "length es' = length es" "ce_block_index (es' ! k) = ce_block_index (es ! k)" for k
    using e(1) by (auto simp: es'_def es_def nth_list_update)
  have "cache_inv blk bs N fs'"
  proof (rule cache_invI [OF s(1-6)])
    show "\<forall>e\<in>set es'. length (ce_data e) = bs"
      using inv(4) d(3) set_update_subset_insert [of es i] unfolding es'_def es_def by (fastforce simp: es_def)
    show "ce_block_index (es' ! k) = 0" if "k < length es'" "\<And>b. dc_hash (fs_cache fs) b \<noteq> Some k" for k
      using inv(10) that unfolding E(2,3) by (simp add: es_def)
    show "ce_data (es' ! k) = blk (fs_dev fs') (ce_block_index (es' ! k))"
      if "k \<in> set (dc_clean_list (fs_cache fs))" "dc_hash (fs_cache fs) (ce_block_index (es' ! k)) = Some k" "ce_has_data (es' ! k)" for k
      using that inv(12) e(2) by (auto simp: E s(8) d(2) es_def)
  qed (use inv(3,5-9,11) E s(7) in \<open>auto simp: es_def\<close>)
  moreover have "block_view blk fs' = block_view blk fs"
  proof
    fix b'
    show "block_view blk fs' b' = block_view blk fs b'"
      using False h e(2) inv(9) by (cases "dc_hash (fs_cache fs) b'") (auto simp: block_view_def s E(1) d(2) Let_def es_def)
  qed
  ultimately show ?thesis using f h by (auto simp: s E)
qed

section \<open>Reading and writing through the cache\<close>

lemma read_filled:
  assumes dev: "device_ok rd wr blk bs N" and ci: "cache_inv blk bs N fs" and b: "0 < b" "b < N"
    and sz: "offset + count \<le> bs" "bs < 2 ^ 32"
  shows "\<exists>i fs'. read_block rd wr fs b buffer count offset True = Some (Inr
      (case buffer of None \<Rightarrow> Inr [] | Some ok \<Rightarrow> if ok then Inr (take count (drop offset (block_view blk fs b))) else Inl EFAULT, fs')) \<and>
    cache_inv blk bs N fs' \<and> block_view blk fs' = block_view blk fs \<and> dc_hash (fs_cache fs') b = Some i \<and>
    ce_has_data (dc_entries (fs_cache fs') ! i) \<and> (\<forall>k. dc_hash (fs_cache fs) b = Some k \<longrightarrow> k = i)"
proof -
  obtain i f where g: "DiskCache_get wr fs b = Some (Inr (i, f))" "cache_inv blk bs N f"
    "block_view blk f = block_view blk fs" "dc_hash (fs_cache f) b = Some i"
    using cache_get_spec [OF dev ci b] by blast
  obtain f' where f': "fill_entry rd f i b = Inr (None, f')" "cache_inv blk bs N f'" "block_view blk f' = block_view blk f"
    "dc_hash (fs_cache f') b = Some i" "ce_has_data (dc_entries (fs_cache f') ! i)"
    using cache_fill_spec [OF dev g(2,4)] by blast
  have "usz (offset + count) \<le> fs_block_size fs \<and> fs_logical_block_size fs \<noteq> 0"
    using sz cache_invD(1,2) [OF ci refl] by simp
  moreover have "ce_data (dc_entries (fs_cache f') ! i) = block_view blk fs b"
    using view_in_use [OF f'(4,5), of blk] f'(3) g(3) by simp
  ultimately have "read_block rd wr fs b buffer count offset True = Some (Inr
      (case buffer of None \<Rightarrow> Inr [] | Some ok \<Rightarrow> if ok then Inr (take count (drop offset (block_view blk fs b))) else Inl EFAULT, f'))"
    using g(1) f'(1) by (cases buffer) (simp_all add: read_block_def)
  moreover have "\<forall>k. dc_hash (fs_cache fs) b = Some k \<longrightarrow> k = i"
    using g(1) by (auto simp: DiskCache_get.simps [of wr fs b] verify_def split: if_splits)
  ultimately show ?thesis using f' g(3) by (intro exI [of _ i] exI [of _ f']) simp
qed

text \<open>A cached block with new data.\<close>

definition dirtied :: "'d block_fs \<Rightarrow> nat \<Rightarrow> u8 list \<Rightarrow> 'd block_fs" where
  "dirtied fs i new = set_entry (fs\<lparr>fs_cache := DiskCache_mark_dirty (fs_cache fs) i\<rparr>) i
     ((dc_entries (fs_cache fs) ! i)\<lparr>ce_data := new, ce_has_data := True\<rparr>)"

lemma dirtied_fields:
  shows "fs_block_size (dirtied fs i new) = fs_block_size fs" "fs_logical_block_size (dirtied fs i new) = fs_logical_block_size fs"
    "dc_entries (fs_cache (dirtied fs i new)) = (dc_entries (fs_cache fs))[i := (dc_entries (fs_cache fs) ! i)\<lparr>ce_data := new, ce_has_data := True\<rparr>]"
    "dc_hash (fs_cache (dirtied fs i new)) = dc_hash (fs_cache fs)" "dc_clean_list (fs_cache (dirtied fs i new)) = remove1 i (dc_clean_list (fs_cache fs))"
    "dc_dirty_list (fs_cache (dirtied fs i new)) = i # remove1 i (dc_dirty_list (fs_cache fs))" "dc_dirty (fs_cache (dirtied fs i new))" "fs_dev (dirtied fs i new) = fs_dev fs"
  by (simp_all add: dirtied_def set_entry_def DiskCache_mark_dirty_def)

lemma dirtied_view:
  assumes ci: "cache_inv blk bs N fs" and h: "dc_hash (fs_cache fs) b = Some i"
  shows "block_view blk (dirtied fs i new) = (block_view blk fs)(b := new)"
proof
  fix b'
  show "block_view blk (dirtied fs i new) b' = ((block_view blk fs)(b := new)) b'"
  proof (cases "dc_hash (fs_cache fs) b'")
    case None
    then show ?thesis using h by (auto simp: block_view_def dirtied_fields)
  next
    case (Some k)
    have "k = i \<longleftrightarrow> b' = b" using cache_invD(9) [OF ci refl] h Some by (metis option.inject)
    then show ?thesis using Some entry_facts(1) [OF ci h] by (auto simp: block_view_def dirtied_fields Let_def)
  qed
qed

lemma dirtied_inv:
  assumes ci: "cache_inv blk bs N fs" and h: "dc_hash (fs_cache fs) b = Some i" and ln: "length new = bs"
  shows "cache_inv blk bs N (dirtied fs i new)"
proof -
  define c es where "c = fs_cache fs" and "es = dc_entries c"
  note e = entry_facts [OF ci h, folded c_def, folded es_def] and inv = cache_invD [OF ci c_def, folded es_def]
  note s = dirtied_fields [of fs i new, folded c_def, folded es_def]
  define es' where "es' = es[i := (es ! i)\<lparr>ce_data := new, ce_has_data := True\<rparr>]"
  have E: "es' ! k = (if k = i then (es ! i)\<lparr>ce_data := new, ce_has_data := True\<rparr> else es ! k)"
    "length es' = length es" "ce_block_index (es' ! k) = ce_block_index (es ! k)" for k
    using e(1) by (auto simp: es'_def nth_list_update)
  have lists: "distinct (dc_clean_list c)" "distinct (dc_dirty_list c)" "i \<in> set (dc_clean_list c) \<or> i \<in> set (dc_dirty_list c)"
    using inv(5,6) e(1) by auto
  show ?thesis
  proof (rule cache_invI [OF s(1) [unfolded inv(1)] _ s(3) [folded es'_def] s(4-6)])
    show "fs_logical_block_size (dirtied fs i new) \<noteq> 0" using inv(2) by (simp add: s(2))
    show "es' \<noteq> []" using e(1) E(2) by auto
    show "\<forall>e\<in>set es'. length (ce_data e) = bs"
      using inv(4) nth_mem [of _ es] ln unfolding all_set_conv_all_nth E(2) by (simp add: E(1))
    show "distinct (remove1 i (dc_clean_list c) @ i # remove1 i (dc_dirty_list c))" using inv(5) by (auto simp: set_remove1_eq)
    show "set (remove1 i (dc_clean_list c) @ i # remove1 i (dc_dirty_list c)) = {..<length es'}"
      using inv(6) lists e(1) unfolding E(2) by (auto simp: set_remove1_eq)
    show "b' < N \<and> k < length es' \<and> ce_block_index (es' ! k) = b'" if "dc_hash c b' = Some k" for b' k
      using inv(9) that unfolding E(2,3) by simp
    show "ce_block_index (es' ! k) = 0" if "k < length es'" "\<And>b. dc_hash c b \<noteq> Some k" for k
      using inv(10) that unfolding E(2,3) by simp
    show "dc_hash c (ce_block_index (es' ! k)) = Some k \<and> ce_has_data (es' ! k)" if "k \<in> set (i # remove1 i (dc_dirty_list c))" for k
      using that h e(2) inv(11) lists(2) by (auto simp: E(1) c_def)
    show "ce_data (es' ! k) = blk (fs_dev (dirtied fs i new)) (ce_block_index (es' ! k))"
      if "k \<in> set (remove1 i (dc_clean_list c))" "dc_hash c (ce_block_index (es' ! k)) = Some k" "ce_has_data (es' ! k)" for k
      using that lists(1) inv(12) by (auto simp: E(1) s(8))
  qed (use inv(8) s(7) in simp_all)
qed

lemma store_spec:
  assumes ci: "cache_inv blk bs N fs" and h: "dc_hash (fs_cache fs) b = Some i"
    and sz: "offset + count \<le> bs" "count \<le> length bytes"
    and v: "ce_has_data (dc_entries (fs_cache fs) ! i) \<or> count = bs"
  defines "new \<equiv> take offset (block_view blk fs b) @ take count bytes @ drop (offset + count) (block_view blk fs b)"
  assumes lv: "length (block_view blk fs b) = bs"
  shows "\<exists>fs'. store_entry fs i (Inr bytes) count offset = Inr (Inr (), fs') \<and> cache_inv blk bs N fs' \<and>
    block_view blk fs' = (block_view blk fs)(b := new)"
proof -
  note e = entry_facts [OF ci h]
  let ?data = "ce_data (dc_entries (fs_cache fs) ! i)"
  have eq: "take offset ?data @ take count bytes @ drop (offset + count) ?data = new"
  proof (cases "ce_has_data (dc_entries (fs_cache fs) ! i)")
    case True
    then have "block_view blk fs b = ?data" using h by (simp add: block_view_def)
    then show ?thesis by (simp add: new_def)
  next
    case False
    then have "count = bs" using v by simp
    then show ?thesis using sz e(5) lv by (simp add: new_def)
  qed
  have "length new = bs" using sz lv by (simp add: new_def)
  moreover have "store_entry fs i (Inr bytes) count offset = Inr (Inr (), dirtied fs i new)"
    using sz e(5) eq by (simp add: store_entry_def memcpy_at_ok dirtied_def DiskCache_mark_dirty_def Let_def)
  ultimately show ?thesis using dirtied_inv [OF ci h] dirtied_view [OF ci h] by blast
qed

lemma view_length:
  assumes dev: "device_ok rd wr blk bs N" and ci: "cache_inv blk bs N fs" and b: "b < N"
  shows "length (block_view blk fs b) = bs"
proof -
  have "length (blk (fs_dev fs) b) = bs" using dev b unfolding device_ok_def by blast
  then show ?thesis using entry_facts(5) [OF ci] by (auto simp: block_view_def Let_def split: option.splits)
qed

text \<open>A write through the cache changes the bytes written and no others.\<close>

definition patch :: "u8 list \<Rightarrow> nat \<Rightarrow> u8 list \<Rightarrow> u8 list" where
  "patch xs offset bytes = take offset xs @ bytes @ drop (offset + length bytes) xs"

lemma write_spec:
  assumes dev: "device_ok rd wr blk bs N" and ci: "cache_inv blk bs N fs" and b: "0 < b" "b < N"
    and sz: "offset + length bytes \<le> bs" "bs < 2 ^ 32"
  shows "\<exists>fs'. write_block rd wr fs b (Inr bytes) (length bytes) offset True = Some (Inr (Inr (), fs')) \<and>
    cache_inv blk bs N fs' \<and> block_view blk fs' = (block_view blk fs)(b := patch (block_view blk fs b) offset bytes)"
proof -
  obtain i f where g: "DiskCache_get wr fs b = Some (Inr (i, f))" "cache_inv blk bs N f"
    "block_view blk f = block_view blk fs" "dc_hash (fs_cache f) b = Some i"
    using cache_get_spec [OF dev ci b] by blast
  have ok: "usz (offset + length bytes) \<le> fs_block_size fs \<and> fs_logical_block_size fs \<noteq> 0"
    using sz cache_invD(1,2) [OF ci refl] by simp
  have fb: "fs_block_size f = bs" using cache_invD(1) [OF g(2) refl] .
  show ?thesis
  proof (cases "length bytes < bs")
    case True
    have "0 + bs \<le> bs" by simp
    from read_filled [OF dev g(2) b this sz(2), of None] obtain k f' where
      r: "read_block rd wr f b None bs 0 True = Some (Inr (Inr [], f'))" "cache_inv blk bs N f'"
      "block_view blk f' = block_view blk f" "dc_hash (fs_cache f') b = Some i" "ce_has_data (dc_entries (fs_cache f') ! i)"
      using g(4) by auto
    from store_spec [OF r(2,4) sz(1) order_refl disjI1 [OF r(5)] view_length [OF dev r(2) b(2)]]
    show ?thesis using g r True ok fb by (auto simp: write_block_def patch_def)
  next
    case False
    then have full: "length bytes = bs" using sz(1) by simp
    from store_spec [OF g(2,4) sz(1) order_refl disjI2 [OF full] view_length [OF dev g(2) b(2)]]
    show ?thesis using g False ok fb by (auto simp: write_block_def patch_def)
  qed
qed

section \<open>Traces\<close>

text \<open>Operations of a client, run through the cache and on the plain blocks.\<close>

datatype block_op = Read_Block nat nat nat | Write_Block nat nat "u8 list" | Flush_Blocks

fun run_cached ::
  "'d reader \<Rightarrow> 'd writer \<Rightarrow> 'd block_fs \<Rightarrow> block_op list \<Rightarrow> ((kerror + u8 list) list \<times> 'd block_fs) res option" where
  "run_cached rd wr fs [] = Some (Inr ([], fs))"
| "run_cached rd wr fs (Read_Block b offset count # ops) =
     (case read_block rd wr fs b (Some True) count offset True of
        None \<Rightarrow> None
      | Some (Inl e) \<Rightarrow> Some (Inl e)
      | Some (Inr (out, fs)) \<Rightarrow>
          map_option (\<lambda>r. rbind r (\<lambda>(outs, fs). Inr (out # outs, fs))) (run_cached rd wr fs ops))"
| "run_cached rd wr fs (Write_Block b offset bytes # ops) =
     (case write_block rd wr fs b (Inr bytes) (length bytes) offset True of
        None \<Rightarrow> None
      | Some (Inl e) \<Rightarrow> Some (Inl e)
      | Some (Inr (out, fs)) \<Rightarrow>
          map_option (\<lambda>r. rbind r (\<lambda>(outs, fs). Inr (map_sum id (\<lambda>_. []) out # outs, fs))) (run_cached rd wr fs ops))"
| "run_cached rd wr fs (Flush_Blocks # ops) =
     map_option (\<lambda>r. rbind r (\<lambda>(outs, fs). Inr (Inr [] # outs, fs))) (run_cached rd wr (flush_writes wr fs) ops)"

fun run_plain :: "(nat \<Rightarrow> u8 list) \<Rightarrow> block_op list \<Rightarrow> (kerror + u8 list) list \<times> (nat \<Rightarrow> u8 list)" where
  "run_plain m [] = ([], m)"
| "run_plain m (Read_Block b offset count # ops) =
     (let (outs, m') = run_plain m ops in (Inr (take count (drop offset (m b))) # outs, m'))"
| "run_plain m (Write_Block b offset bytes # ops) =
     (let (outs, m) = run_plain (m(b := patch (m b) offset bytes)) ops in (Inr [] # outs, m))"
| "run_plain m (Flush_Blocks # ops) = (let (outs, m) = run_plain m ops in (Inr [] # outs, m))"


fun op_ok :: "nat \<Rightarrow> nat \<Rightarrow> block_op \<Rightarrow> bool" where
  "op_ok bs N (Read_Block b offset count) \<longleftrightarrow> 0 < b \<and> b < N \<and> offset + count \<le> bs"
| "op_ok bs N (Write_Block b offset bytes) \<longleftrightarrow> 0 < b \<and> b < N \<and> offset + length bytes \<le> bs"
| "op_ok bs N Flush_Blocks \<longleftrightarrow> True"

lemma run_cached_spec:
  assumes dev: "device_ok rd wr blk bs N" and bs: "bs < 2 ^ 32"
  shows "cache_inv blk bs N fs \<Longrightarrow> list_all (op_ok bs N) ops \<Longrightarrow>
    \<exists>fs'. run_cached rd wr fs ops = Some (Inr (fst (run_plain (block_view blk fs) ops), fs')) \<and>
      cache_inv blk bs N fs' \<and> block_view blk fs' = snd (run_plain (block_view blk fs) ops)"
proof (induction ops arbitrary: fs)
  case Nil
  then show ?case by simp
next
  case (Cons op ops)
  then have ops: "list_all (op_ok bs N) ops" by simp
  show ?case
  proof (cases op)
    case (Read_Block b offset count)
    then have "0 < b" "b < N" "offset + count \<le> bs" using Cons.prems(2) by simp_all
    from read_filled [OF dev Cons.prems(1) this bs, of "Some True"] obtain f where
      f: "read_block rd wr fs b (Some True) count offset True = Some (Inr (Inr (take count (drop offset (block_view blk fs b))), f))"
      "cache_inv blk bs N f" "block_view blk f = block_view blk fs" by auto
    from Cons.IH [OF f(2) ops] f show ?thesis by (auto simp: Read_Block case_prod_beta)
  next
    case (Write_Block b offset bytes)
    then have "0 < b" "b < N" "offset + length bytes \<le> bs" using Cons.prems(2) by simp_all
    from write_spec [OF dev Cons.prems(1) this bs] obtain f where
      f: "write_block rd wr fs b (Inr bytes) (length bytes) offset True = Some (Inr (Inr (), f))"
      "cache_inv blk bs N f" "block_view blk f = (block_view blk fs)(b := patch (block_view blk fs b) offset bytes)" by auto
    from Cons.IH [OF f(2) ops, unfolded f(3)] f(1) show ?thesis by (auto simp: Write_Block case_prod_beta simp del: fun_upd_apply)
  next
    case Flush_Blocks
    from Cons.IH [OF flush_inv(1) [OF dev Cons.prems(1)] ops] flush_inv(2) [OF dev Cons.prems(1)] show ?thesis
      by (auto simp: Flush_Blocks flush_writes_def case_prod_beta)
  qed
qed

text \<open>A new cache is in order and shows the blocks of the device.\<close>

lemma create_inv:
  assumes "0 < n" "length data = n * bs" "fs_block_size fs = bs" "fs_logical_block_size fs \<noteq> 0"
    "fs_cache fs = DiskCache_create n bs data"
  shows "cache_inv blk bs N fs" "block_view blk fs = blk (fs_dev fs)"
proof -
  have len: "length (take bs (drop (i * bs) data)) = bs" if "i < n" for i
  proof -
    have "(i + 1) * bs \<le> n * bs" using that by (intro mult_le_mono1) simp
    then show ?thesis using assms(2) by simp
  qed
  show "cache_inv blk bs N fs"
    by (rule cache_invI [OF assms(3,4) refl refl refl refl]) (use assms(1,5) len in \<open>auto simp: DiskCache_create_def\<close>)
  show "block_view blk fs = blk (fs_dev fs)" using assms(5) by (auto simp: block_view_def DiskCache_create_def)
qed

section \<open>A device in memory\<close>

text \<open>An instance of the device assumptions, on which the cache can be run.\<close>

type_synonym mem_device = "nat \<Rightarrow> u8"

definition mem_read :: "mem_device reader" where
  "mem_read d off n ok = (if ok then Inr (map d [off..<off + n]) else Inl (EFAULT, []), d)"

definition mem_write :: "mem_device writer" where
  "mem_write d off data =
     (case data of
        Inr bytes \<Rightarrow> (Inr (length bytes), \<lambda>j. if off \<le> j \<and> j < off + length bytes then bytes ! (j - off) else d j)
      | Inl part \<Rightarrow> (Inl EFAULT, d))"

definition mem_blk :: "nat \<Rightarrow> mem_device \<Rightarrow> nat \<Rightarrow> u8 list" where
  "mem_blk bs d b = map d [b * bs..<b * bs + bs]"

lemma mem_device_ok:
  assumes "0 < bs" "N * bs \<le> 2 ^ 64"
  shows "device_ok mem_read mem_write (mem_blk bs) bs N"
proof -
  have "mem_blk bs (\<lambda>j. if b * bs \<le> j \<and> j < b * bs + length data then data ! (j - b * bs) else d j) = (mem_blk bs d)(b := data)"
    if "length data = bs" for data b d
  proof
    fix b'
    show "mem_blk bs (\<lambda>j. if b * bs \<le> j \<and> j < b * bs + length data then data ! (j - b * bs) else d j) b' =
        ((mem_blk bs d)(b := data)) b'"
    proof (cases "b' = b")
      case True
      then show ?thesis using that by (auto simp: mem_blk_def intro: nth_equalityI)
    next
      case False
      then have "\<not> (b * bs \<le> j \<and> j < b * bs + bs)" if "b' * bs \<le> j" "j < b' * bs + bs" for j
        using that mult_le_mono1 [of "b + 1" b' bs] mult_le_mono1 [of "b' + 1" b bs]
        by (cases "b < b'") auto
      then show ?thesis using that False by (auto simp: mem_blk_def)
    qed
  qed
  then show ?thesis using assms by (auto simp: device_ok_def mem_read_def mem_write_def mem_blk_def)
qed

section \<open>Where the cache is not transparent\<close>

text \<open>
  Entries that were never used carry block index 0. The lookup that takes one for a block removes
  the index it carries from the hash map, and so block 0.
\<close>

lemma read_miss:
  assumes dev: "device_ok rd wr blk bs N" and bs: "bs < 2 ^ 32" "fs_block_size fs = bs" "fs_logical_block_size fs \<noteq> 0"
    and b: "b < N" "dc_hash (fs_cache fs) b = None"
    and cl: "dc_clean_list (fs_cache fs) = cl @ [i]" "i < length (dc_entries (fs_cache fs))"
  shows "\<exists>fs'. read_block rd wr fs b (Some True) bs 0 True = Some (Inr (Inr (blk (fs_dev fs) b), fs')) \<and>
    blk (fs_dev fs') = blk (fs_dev fs) \<and> fs_block_size fs' = bs \<and> fs_logical_block_size fs' \<noteq> 0 \<and>
    dc_hash (fs_cache fs') = ((dc_hash (fs_cache fs))(ce_block_index (dc_entries (fs_cache fs) ! i) := None))(b \<mapsto> i) \<and>
    dc_clean_list (fs_cache fs') = i # remove1 i (cl @ [i]) \<and> length (dc_entries (fs_cache fs')) = length (dc_entries (fs_cache fs))"
proof -
  obtain d where d: "rd (fs_dev fs) (b * bs) bs True = (Inr (blk (fs_dev fs) b), d)" "blk d = blk (fs_dev fs)"
    "length (blk (fs_dev fs) b) = bs" using dev b(1) unfolding device_ok_def by blast
  have "DiskCache_get wr fs b = Some (Inr (i, fs\<lparr>fs_cache := DiskCache_recycle (fs_cache fs) i b\<rparr>))"
    using b(2) cl(1) by (simp add: DiskCache_get.simps [of wr fs b])
  then show ?thesis using d bs cl u64m_block [OF dev b(1)]
    by (simp add: read_block_def fill_entry_def DiskCache_recycle_def DiskCache_prepend_clean_def set_entry_def Let_def)
qed

lemma write_zero_fresh:
  assumes "bs < 2 ^ 32" "length data = Suc m * bs" "length bytes = bs"
    and fs: "fs_cache fs = DiskCache_create (Suc m) bs data" "fs_block_size fs = bs" "fs_logical_block_size fs \<noteq> 0"
  shows "\<exists>fs'. write_block rd wr fs 0 (Inr bytes) bs 0 True = Some (Inr (Inr (), fs')) \<and>
    dc_hash (fs_cache fs') = [0 \<mapsto> m] \<and> dc_clean_list (fs_cache fs') = [0..<m] \<and> length (dc_entries (fs_cache fs')) = Suc m \<and>
    (\<forall>i\<le>m. ce_block_index (dc_entries (fs_cache fs') ! i) = 0) \<and> block_view blk fs' 0 = bytes \<and>
    fs_dev fs' = fs_dev fs \<and> fs_block_size fs' = bs \<and> fs_logical_block_size fs' \<noteq> 0"
proof -
  have "DiskCache_get wr fs 0 = Some (Inr (m, fs\<lparr>fs_cache := DiskCache_recycle (fs_cache fs) m 0\<rparr>))"
    using fs(1) by (simp add: DiskCache_get.simps [of wr fs 0] DiskCache_create_def)
  moreover have "length (take bs (drop (m * bs) data)) = bs" using assms(2) by simp
  moreover have "remove1 m [0..<Suc m] = [0..<m]" by (simp add: remove1_append)
  ultimately show ?thesis using assms
    by (simp add: write_block_def store_entry_def memcpy_at_ok DiskCache_recycle_def DiskCache_prepend_clean_def
        DiskCache_mark_dirty_def DiskCache_create_def set_entry_def block_view_def remove1_append nth_list_update Let_def
        nth_append less_Suc_eq_le del: upt_Suc)
qed

lemma block_zero_lost:
  assumes dev: "device_ok rd wr blk bs N" and bs: "bs < 2 ^ 32" and b: "0 < b" "b < N"
    and n: "2 \<le> n" "length data = n * bs" "length bytes = bs"
    and fs: "fs_cache fs = DiskCache_create n bs data" "fs_block_size fs = bs" "fs_logical_block_size fs \<noteq> 0"
  shows "\<exists>fs1 fs2 fs3. write_block rd wr fs 0 (Inr bytes) bs 0 True = Some (Inr (Inr (), fs1)) \<and> block_view blk fs1 0 = bytes \<and>
    read_block rd wr fs1 b (Some True) bs 0 True = Some (Inr (Inr (blk (fs_dev fs) b), fs2)) \<and> dc_hash (fs_cache fs2) 0 = None \<and>
    read_block rd wr fs2 0 (Some True) bs 0 True = Some (Inr (Inr (blk (fs_dev fs) 0), fs3))"
proof -
  obtain m where m: "n = Suc (Suc m)" using n(1) by (metis Suc_le_D numeral_2_eq_2 Suc_le_mono)
  obtain fs1 where w: "write_block rd wr fs 0 (Inr bytes) bs 0 True = Some (Inr (Inr (), fs1))" "dc_hash (fs_cache fs1) = [0 \<mapsto> Suc m]"
      "dc_clean_list (fs_cache fs1) = [0..<m] @ [m]" "length (dc_entries (fs_cache fs1)) = Suc (Suc m)"
      "ce_block_index (dc_entries (fs_cache fs1) ! m) = 0" "block_view blk fs1 0 = bytes" "fs_dev fs1 = fs_dev fs"
      "fs_block_size fs1 = bs" "fs_logical_block_size fs1 \<noteq> 0"
    using write_zero_fresh [OF bs n(2) [unfolded m] n(3) fs(1) [unfolded m] fs(2,3), of rd wr blk] by auto
  have "dc_hash (fs_cache fs1) b = None" "m < length (dc_entries (fs_cache fs1))" using w(2,4) b(1) by simp_all
  from read_miss [OF dev bs w(8,9) b(2) this(1) w(3) this(2)] obtain fs2 where
    r: "read_block rd wr fs1 b (Some True) bs 0 True = Some (Inr (Inr (blk (fs_dev fs) b), fs2))" "blk (fs_dev fs2) = blk (fs_dev fs)"
      "fs_block_size fs2 = bs" "fs_logical_block_size fs2 \<noteq> 0" "dc_hash (fs_cache fs2) 0 = None"
      "dc_clean_list (fs_cache fs2) = m # [0..<m]" "length (dc_entries (fs_cache fs2)) = Suc (Suc m)"
    using b(1) w(2,4,5,7) by (auto simp: remove1_append)
  define i where "i = last (m # [0..<m])"
  have "dc_clean_list (fs_cache fs2) = butlast (m # [0..<m]) @ [i]" "i < length (dc_entries (fs_cache fs2))"
    unfolding r(6,7) i_def by (simp_all add: append_butlast_last_id del: butlast.simps last.simps) (cases m; simp)
  moreover have "0 < N" using b(2) by simp
  ultimately show ?thesis using read_miss [OF dev bs r(3,4) _ r(5)] w(1,6) r(1,2,5) by metis
qed

text \<open>
  An uncached read first flushes the dirty blocks other than the one it reads, so it returns the
  block of the device, whatever was written to it through the cache.
\<close>

lemma uncached_read_device:
  assumes dev: "device_ok rd wr blk bs N" and ci: "cache_inv blk bs N fs" and sz: "N * bs \<le> 2 ^ 32" "bs < 2 ^ 32" "index < N"
  shows "\<exists>fs'. read_block rd wr fs index (Some True) bs 0 False = Some (Inr (Inr (blk (fs_dev fs) index), fs'))"
proof -
  let ?fs = "flush_specific_block_if_needed wr fs index"
  have "blk (fs_dev ?fs) index = blk (fs_dev fs) index" using flush_specific_device [OF dev ci sz(1) refl] by simp
  moreover obtain d where "rd (fs_dev ?fs) (index * bs) bs True = (Inr (blk (fs_dev ?fs) index), d)"
      "length (blk (fs_dev ?fs) index) = bs" using dev sz(3) unfolding device_ok_def by blast
  ultimately show ?thesis using sz(2) u64m_block [OF dev sz(3)] cache_invD(1,2) [OF ci refl] flush_specific_lists(4) [OF ci refl]
    by (simp add: read_block_def Let_def)
qed

text \<open>A small cache over a device of zeros, for examples.\<close>

definition small_fs :: "mem_device block_fs" where
  "small_fs = \<lparr>fs_cache = DiskCache_create 3 1 [0, 0, 0], fs_dev = (\<lambda>_. 0), fs_block_size = 1, fs_logical_block_size = 512\<rparr>"

lemma small_fs_inv:
  "cache_inv (mem_blk 1) 1 100 small_fs" "block_view (mem_blk 1) small_fs = mem_blk 1 (\<lambda>_. 0)"
  using create_inv(1) [of 3 "[0, 0, 0]" 1 small_fs "mem_blk 1" 100] create_inv(2) [of 3 "[0, 0, 0]" 1 small_fs "mem_blk 1"]
  by (simp_all add: small_fs_def)

lemma small_device: "device_ok mem_read mem_write (mem_blk 1) 1 100"
  by (rule mem_device_ok) simp_all

lemma small_fs_written:
  "\<exists>fs. write_block mem_read mem_write small_fs 1 (Inr [7]) 1 0 True = Some (Inr (Inr (), fs)) \<and>
     cache_inv (mem_blk 1) 1 100 fs \<and> block_view (mem_blk 1) fs 1 = [7] \<and> mem_blk 1 (fs_dev fs) 1 = [0]"
proof -
  obtain fs where fs: "write_block mem_read mem_write small_fs 1 (Inr [7]) 1 0 True = Some (Inr (Inr (), fs))"
      "cache_inv (mem_blk 1) 1 100 fs" "block_view (mem_blk 1) fs 1 = [7]"
    using write_spec [OF small_device small_fs_inv(1), of 1 0 "[7]"] unfolding small_fs_inv(2)
    by (auto simp: patch_def mem_blk_def)
  moreover have "fs_dev fs = (\<lambda>_. 0)"
    using fs(1) by (auto simp: small_fs_def write_block_def DiskCache_get.simps DiskCache_create_def DiskCache_recycle_def
        DiskCache_prepend_clean_def DiskCache_mark_dirty_def store_entry_def set_entry_def memcpy_at_def Let_def upt_rec)
  ultimately show ?thesis by (auto simp: mem_blk_def)
qed

end
