(* ===== verification/Characters.thy ===== *)
theory Characters
  imports Prelude
begin

text \<open>
  \<open>base/CharacterTypes.h\<close>: classes and conversions of code points, as 32-bit words. A
  \<open>char\<close> is a byte; where the code passes one for a code point it is sign-extended.
\<close>

section \<open>Classes\<close>

definition is_ascii :: "u32 \<Rightarrow> bool" where
  "is_ascii code_point \<longleftrightarrow> code_point < 0x80"

definition is_ascii_digit :: "u32 \<Rightarrow> bool" where
  "is_ascii_digit code_point \<longleftrightarrow> code_point \<ge> 0x30 \<and> code_point \<le> 0x39"

definition is_ascii_upper_alpha :: "u32 \<Rightarrow> bool" where
  "is_ascii_upper_alpha code_point \<longleftrightarrow> code_point \<ge> 0x41 \<and> code_point \<le> 0x5A"

definition is_ascii_lower_alpha :: "u32 \<Rightarrow> bool" where
  "is_ascii_lower_alpha code_point \<longleftrightarrow> code_point \<ge> 0x61 \<and> code_point \<le> 0x7A"

definition is_ascii_alpha :: "u32 \<Rightarrow> bool" where
  "is_ascii_alpha code_point \<longleftrightarrow> is_ascii_lower_alpha code_point \<or> is_ascii_upper_alpha code_point"

definition is_ascii_alphanumeric :: "u32 \<Rightarrow> bool" where
  "is_ascii_alphanumeric code_point \<longleftrightarrow> is_ascii_alpha code_point \<or> is_ascii_digit code_point"

definition is_ascii_hex_digit :: "u32 \<Rightarrow> bool" where
  "is_ascii_hex_digit code_point \<longleftrightarrow> is_ascii_digit code_point \<or>
     (code_point \<ge> 0x41 \<and> code_point \<le> 0x46) \<or> (code_point \<ge> 0x61 \<and> code_point \<le> 0x66)"

definition is_ascii_blank :: "u32 \<Rightarrow> bool" where
  "is_ascii_blank code_point \<longleftrightarrow> code_point = 0x09 \<or> code_point = 0x20"

definition is_ascii_space :: "u32 \<Rightarrow> bool" where
  "is_ascii_space code_point \<longleftrightarrow> code_point = 0x20 \<or> code_point = 0x09 \<or> code_point = 0x0A \<or>
     code_point = 0x0B \<or> code_point = 0x0C \<or> code_point = 0x0D"

definition is_ascii_punctuation :: "u32 \<Rightarrow> bool" where
  "is_ascii_punctuation code_point \<longleftrightarrow>
     (code_point \<ge> 0x21 \<and> code_point \<le> 0x2F) \<or> (code_point \<ge> 0x3A \<and> code_point \<le> 0x40) \<or>
     (code_point \<ge> 0x5B \<and> code_point \<le> 0x60) \<or> (code_point \<ge> 0x7B \<and> code_point \<le> 0x7E)"

definition is_ascii_graphical :: "u32 \<Rightarrow> bool" where
  "is_ascii_graphical code_point \<longleftrightarrow> code_point \<ge> 0x21 \<and> code_point \<le> 0x7E"

definition is_ascii_printable :: "u32 \<Rightarrow> bool" where
  "is_ascii_printable code_point \<longleftrightarrow> code_point \<ge> 0x20 \<and> code_point \<le> 0x7E"

definition is_ascii_c0_control :: "u32 \<Rightarrow> bool" where
  "is_ascii_c0_control code_point \<longleftrightarrow> code_point < 0x20"

definition is_ascii_control :: "u32 \<Rightarrow> bool" where
  "is_ascii_control code_point \<longleftrightarrow> is_ascii_c0_control code_point \<or> code_point = 0x7F"

definition is_unicode :: "u32 \<Rightarrow> bool" where
  "is_unicode code_point \<longleftrightarrow> code_point \<le> 0x10FFFF"

definition is_unicode_control :: "u32 \<Rightarrow> bool" where
  "is_unicode_control code_point \<longleftrightarrow> is_ascii_c0_control code_point \<or> (code_point \<ge> 0x7E \<and> code_point \<le> 0x9F)"

definition is_unicode_surrogate :: "u32 \<Rightarrow> bool" where
  "is_unicode_surrogate code_point \<longleftrightarrow> code_point \<ge> 0xD800 \<and> code_point \<le> 0xDFFF"

definition is_unicode_scalar_value :: "u32 \<Rightarrow> bool" where
  "is_unicode_scalar_value code_point \<longleftrightarrow> is_unicode code_point \<and> \<not> is_unicode_surrogate code_point"

definition is_unicode_noncharacter :: "u32 \<Rightarrow> bool" where
  "is_unicode_noncharacter code_point \<longleftrightarrow> is_unicode code_point \<and>
     ((code_point \<ge> 0xFDD0 \<and> code_point \<le> 0xFDEF) \<or> code_point AND 0xFFFE = 0xFFFE \<or> code_point AND 0xFFFF = 0xFFFF)"

section \<open>Conversions\<close>

definition to_ascii_lowercase :: "u32 \<Rightarrow> u32" where
  "to_ascii_lowercase code_point = (if is_ascii_upper_alpha code_point then code_point + 0x20 else code_point)"

definition to_ascii_uppercase :: "u32 \<Rightarrow> u32" where
  "to_ascii_uppercase code_point = (if is_ascii_lower_alpha code_point then code_point - 0x20 else code_point)"

definition parse_ascii_digit :: "u32 \<Rightarrow> u32 res" where
  "parse_ascii_digit code_point =
     (if is_ascii_digit code_point then Inr (code_point - 0x30) else Inl Verify_Failed)"

definition parse_ascii_hex_digit :: "u32 \<Rightarrow> u32 res" where
  "parse_ascii_hex_digit code_point =
     (if is_ascii_digit code_point then parse_ascii_digit code_point
      else if code_point \<ge> 0x41 \<and> code_point \<le> 0x46 then Inr (code_point - 0x41 + 10)
      else if code_point \<ge> 0x61 \<and> code_point \<le> 0x66 then Inr (code_point - 0x61 + 10)
      else Inl Verify_Failed)"

definition parse_ascii_base36_digit :: "u32 \<Rightarrow> u32 res" where
  "parse_ascii_base36_digit code_point =
     (if is_ascii_digit code_point then parse_ascii_digit code_point
      else if code_point \<ge> 0x41 \<and> code_point \<le> 0x5A then Inr (code_point - 0x41 + 10)
      else if code_point \<ge> 0x61 \<and> code_point \<le> 0x7A then Inr (code_point - 0x61 + 10)
      else Inl Verify_Failed)"

definition base36_map :: "u32 list" where
  "base36_map = [0x30, 0x31, 0x32, 0x33, 0x34, 0x35, 0x36, 0x37, 0x38, 0x39, 0x61, 0x62, 0x63, 0x64, 0x65, 0x66,
     0x67, 0x68, 0x69, 0x6A, 0x6B, 0x6C, 0x6D, 0x6E, 0x6F, 0x70, 0x71, 0x72, 0x73, 0x74, 0x75, 0x76, 0x77,
     0x78, 0x79, 0x7A]"

definition to_ascii_base36_digit :: "u32 \<Rightarrow> u32 res" where
  "to_ascii_base36_digit digit = verify (digit < 36) (read_at base36_map (unat digit))"

text \<open>A \<open>char\<close> used as a code point.\<close>

definition char_code :: "u8 \<Rightarrow> u32" where
  "char_code c = signed_take_bit 7 (ucast c)"

definition lower_char :: "u8 \<Rightarrow> u32" where
  "lower_char c = to_ascii_lowercase (char_code c)"

section \<open>Facts\<close>

lemma char_code_inj [simp]: "char_code a = char_code b \<longleftrightarrow> a = b"
proof
  assume "char_code a = char_code b"
  then have "bit (char_code a) n = bit (char_code b) n" for n by simp
  note eq = this
  have "bit a n = bit b n" if "n < 8" for n
    using that eq [of n] by (cases "n = 7") (simp_all add: char_code_def bit_signed_take_bit_iff bit_ucast_iff min_def)
  then show "a = b" by (auto intro: bit_word_eqI)
qed simp

lemma lowercase_idem: "to_ascii_lowercase (to_ascii_lowercase c) = to_ascii_lowercase c"
proof -
  have "\<not> (c + 0x20 \<ge> 0x41 \<and> c + 0x20 \<le> 0x5A)" if "c \<ge> 0x41" "c \<le> 0x5A"
    using that by (simp add: word_le_nat_alt unat_word_ariths)
  then show ?thesis by (auto simp: to_ascii_lowercase_def is_ascii_upper_alpha_def)
qed

lemma base36_values: "k < 36 \<Longrightarrow> parse_ascii_base36_digit (base36_map ! k) = Inr (of_nat k)"
proof -
  have "\<forall>k\<in>set [0..<36]. parse_ascii_base36_digit (base36_map ! k) = Inr (of_nat k)"
    by code_simp
  then show "k < 36 \<Longrightarrow> parse_ascii_base36_digit (base36_map ! k) = Inr (of_nat k)" by simp
qed

lemma base36_roundtrip:
  "d < 36 \<Longrightarrow> \<exists>c. to_ascii_base36_digit d = Inr c \<and> parse_ascii_base36_digit c = Inr d"
proof -
  assume d: "d < 36"
  then have k: "unat d < 36" by (simp add: word_less_nat_alt)
  then have "to_ascii_base36_digit d = Inr (base36_map ! unat d)"
    using d by (simp add: to_ascii_base36_digit_def read_at_ok base36_map_def)
  then show ?thesis using base36_values [OF k] by simp
qed

text \<open>Every ASCII code point is a control, the space, a punctuation mark, a digit or a letter.\<close>

lemma ascii_partition:
  "is_ascii c \<longleftrightarrow> is_ascii_control c \<or> c = 0x20 \<or> is_ascii_punctuation c \<or> is_ascii_digit c \<or> is_ascii_alpha c"
  unfolding is_ascii_def is_ascii_control_def is_ascii_c0_control_def is_ascii_punctuation_def is_ascii_digit_def
    is_ascii_alpha_def is_ascii_lower_alpha_def is_ascii_upper_alpha_def
  by (simp add: word_le_nat_alt word_less_nat_alt word_unat_eq_iff) linarith

lemma printable_iff: "is_ascii_printable c \<longleftrightarrow> is_ascii c \<and> \<not> is_ascii_control c"
  unfolding is_ascii_def is_ascii_control_def is_ascii_c0_control_def is_ascii_printable_def
  by (simp add: word_le_nat_alt word_less_nat_alt word_unat_eq_iff) linarith

lemma graphical_iff: "is_ascii_graphical c \<longleftrightarrow> is_ascii_alphanumeric c \<or> is_ascii_punctuation c"
  unfolding is_ascii_graphical_def is_ascii_alphanumeric_def is_ascii_punctuation_def is_ascii_digit_def
    is_ascii_alpha_def is_ascii_lower_alpha_def is_ascii_upper_alpha_def
  by (simp add: word_le_nat_alt word_less_nat_alt) linarith

text \<open>\<open>is_unicode_control\<close> takes the tilde for a control.\<close>

lemma tilde_is_control: "is_unicode_control 0x7E \<and> is_ascii_printable 0x7E \<and> \<not> is_ascii_control 0x7E"
  by (simp add: is_unicode_control_def is_ascii_printable_def is_ascii_control_def is_ascii_c0_control_def)

end
