(* ===== verification/Word_Facts.thy ===== *)
theory Word_Facts
  imports Prelude
begin

text \<open>
  Generic facts on machine words that the codecs share: shifts, masks and disjoint unions of bits
  read as arithmetic on natural numbers, and equality of bytes bit by bit.
\<close>

lemma unat_push_bit:
  "unat w * 2 ^ n < 2 ^ LENGTH('a) \<Longrightarrow> unat (push_bit n (w :: 'a::len word)) = unat w * 2 ^ n"
proof -
  assume less: "unat w * 2 ^ n < 2 ^ LENGTH('a)"
  have "unat (push_bit n w) = take_bit LENGTH('a) (push_bit n (unat w))" by (rule unsigned_push_bit_eq)
  also have "push_bit n (unat w) = unat w * 2 ^ n" by (rule push_bit_eq_mult)
  also have "take_bit LENGTH('a) (unat w * 2 ^ n) = unat w * 2 ^ n" using less by (rule take_bit_nat_eq_self)
  finally show ?thesis .
qed

lemma drop_push_bit:
  "unat w * 2 ^ n < 2 ^ LENGTH('a) \<Longrightarrow> drop_bit n (push_bit n w) = (w :: 'a::len word)"
  by (simp only: word_unat_eq_iff unat_drop_bit unat_push_bit) simp

lemma nat_not_bit_ge: "(m::nat) < 2 ^ n \<Longrightarrow> n \<le> k \<Longrightarrow> \<not> bit m k"
  by (metis bit_take_bit_iff linorder_not_less take_bit_nat_eq_self)

lemma nat_or_shifted: "(a::nat) < 2 ^ n \<Longrightarrow> a OR b * 2 ^ n = a + b * 2 ^ n"
proof -
  assume a: "a < 2 ^ n"
  have "\<not> bit a k \<or> \<not> bit (push_bit n b) k" for k
    using nat_not_bit_ge [OF a, of k] by (cases "n \<le> k") (auto simp: bit_push_bit_iff)
  then have "a + push_bit n b = a OR push_bit n b" by (rule disjunctive_add)
  then show ?thesis by (simp only: push_bit_eq_mult)
qed

lemma unat_or: "unat (v OR w) = unat v OR unat w"
  by (rule bit_eqI) (simp add: bit_unsigned_iff bit_or_iff)

lemma unat_and: "unat (v AND w) = unat v AND unat w"
  by (rule bit_eqI) (auto simp add: bit_unsigned_iff bit_and_iff)

lemma unat_or_shifted:
  "unat r < 2 ^ n \<Longrightarrow> unat w * 2 ^ n < 2 ^ LENGTH('a) \<Longrightarrow>
   unat (r OR push_bit n (w :: 'a::len word)) = unat r + unat w * 2 ^ n"
  by (simp only: unat_or unat_push_bit nat_or_shifted)

lemma unat_and_mask: "unat (w AND mask n) = unat w mod 2 ^ n"
proof -
  have "w AND mask n = take_bit n w" by (rule take_bit_eq_mask [symmetric])
  then have "unat (w AND mask n) = take_bit n (unat w)" by (simp only: unsigned_take_bit_eq)
  then show ?thesis by (simp only: take_bit_eq_mod)
qed

lemma unat_u8_less: "unat (b :: u8) < 256"
  using unsigned_less [of b] by simp

lemma u8_eqI:
  assumes "bit a 0 = bit b 0" "bit a 1 = bit b 1" "bit a 2 = bit b 2" "bit a 3 = bit b 3"
    and "bit a 4 = bit b 4" "bit a 5 = bit b 5" "bit a 6 = bit b 6" "bit a 7 = bit b 7"
  shows "(a :: u8) = b"
proof (rule bit_word_eqI)
  fix n assume "n < LENGTH(8)"
  then have "n = 0 \<or> n = 1 \<or> n = 2 \<or> n = 3 \<or> n = 4 \<or> n = 5 \<or> n = 6 \<or> n = 7" by (simp, arith)
  then show "bit a n = bit b n" using assms by blast
qed

lemma unat_lt_power: "LENGTH('a) \<le> n \<Longrightarrow> unat (w :: 'a::len word) < 2 ^ n"
  by (metis (no_types, lifting) less_le_trans power_increasing one_le_numeral unsigned_less)

lemma unat_ucast_up:
  "LENGTH('a) \<le> LENGTH('b) \<Longrightarrow> unat (ucast (w :: 'a::len word) :: 'b::len word) = unat w"
  using unat_lt_power [of "LENGTH('b)" w] by (simp add: unsigned_ucast_eq take_bit_nat_eq_self)

lemma unat_of_nat_less: "n < 2 ^ LENGTH('a) \<Longrightarrow> unat (of_nat n :: 'a::len word) = n"
  by (simp add: unat_of_nat take_bit_nat_eq_self)

end
