(* ===== verification/Codecs.thy ===== *)
theory Codecs
  imports Characters Word_Facts
begin

text \<open>
  Encodings of bytes and numbers: \<open>base/Hex.h\<close> and \<open>base/Hex.cpp\<close> (decoding),
  \<open>base/Base64.cpp\<close>, the input stream of \<open>base/MemoryStream.h\<close> and the LEB128 readers of
  \<open>base/LEB128.h\<close> on it. The theorems are round trips.

  \<open>encode_hex\<close> goes through the format library and is not modelled.
\<close>

section \<open>Hexadecimal\<close>

definition decode_hex_digit :: "u8 \<Rightarrow> u8" where
  "decode_hex_digit digit =
     (if sint digit \<ge> 0x30 \<and> sint digit \<le> 0x39 then digit - 0x30
      else if sint digit \<ge> 0x61 \<and> sint digit \<le> 0x66 then 10 + (digit - 0x61)
      else if sint digit \<ge> 0x41 \<and> sint digit \<le> 0x46 then 10 + (digit - 0x41)
      else 255)"

fun decode_hex_loop :: "u8 list \<Rightarrow> u8 list \<Rightarrow> u8 list option" where
  "decode_hex_loop (a # b # input) output =
     (let c1 = decode_hex_digit a in
      if c1 \<ge> 16 then None
      else let c2 = decode_hex_digit b in
        if c2 \<ge> 16 then None
        else decode_hex_loop input (output @ [push_bit 4 c1 + c2]))"
| "decode_hex_loop _ output = Some output"

definition decode_hex :: "u8 list \<Rightarrow> u8 list option" where
  "decode_hex input = (if length input mod 2 \<noteq> 0 then None else decode_hex_loop input [])"

section \<open>Base64\<close>

definition base64_alphabet :: "u8 list" where
  "base64_alphabet = map of_nat ([0x41..<0x5B] @ [0x61..<0x7B] @ [0x30..<0x3A] @ [0x2B, 0x2F])"

definition make_lookup_table :: "u8 list" where
  "make_lookup_table =
     foldl (\<lambda>table i. table[unat (base64_alphabet ! i) := of_nat i]) (replicate 256 0) [0..<length base64_alphabet]"

text \<open>
  The lambda \<open>get\<close> of the decoder: the value and whether it read padding. The index of the table
  is a \<open>char\<close>: a negative one is a huge \<open>size_t\<close>, which the array's check refuses.
\<close>

definition base64_get :: "u8 list \<Rightarrow> nat \<Rightarrow> (u8 \<times> bool) res" where
  "base64_get input offset =
     (if offset \<ge> length input then Inr (0, False)
      else let c = input ! offset in
        if c = 0x3D then Inr (0, True)
        else verify (sint c \<ge> 0) (rbind (vec_at make_lookup_table (unat c)) (\<lambda>v. Inr (v, False))))"

function decode_base64_loop :: "u8 list \<Rightarrow> nat \<Rightarrow> u8 list \<Rightarrow> u8 list res" where
  "decode_base64_loop input i output =
     (if i < length input then
        rbind (base64_get input i) (\<lambda>(in0, _).
        rbind (base64_get input (i + 1)) (\<lambda>(in1, _).
        rbind (base64_get input (i + 2)) (\<lambda>(in2, in2_is_padding).
        rbind (base64_get input (i + 3)) (\<lambda>(in3, in3_is_padding).
          let out0 = push_bit 2 in0 OR (drop_bit 4 in1 AND 3);
              out1 = push_bit 4 (in1 AND 0xf) OR (drop_bit 2 in2 AND 0xf);
              out2 = push_bit 6 (in2 AND 0x3) OR in3;
              output = output @ [out0];
              output = (if \<not> in2_is_padding then output @ [out1] else output);
              output = (if \<not> in3_is_padding then output @ [out2] else output)
          in decode_base64_loop input (i + 4) output))))
      else Inr output)"
  by pat_completeness auto
termination
  by (relation "measure (\<lambda>(input, i, output). length input - i)") auto

declare decode_base64_loop.simps [simp del]

definition decode_base64 :: "u8 list \<Rightarrow> u8 list res" where
  "decode_base64 input = decode_base64_loop input 0 []"

text \<open>The lambda \<open>get\<close> of the encoder: the value and whether padding is needed.\<close>

definition base64_byte :: "u8 list \<Rightarrow> nat \<Rightarrow> u8 \<times> bool" where
  "base64_byte input offset = (if offset \<ge> length input then (0, True) else (input ! offset, False))"

function encode_base64_loop :: "u8 list \<Rightarrow> nat \<Rightarrow> u8 list \<Rightarrow> u8 list" where
  "encode_base64_loop input i output =
     (if i < length input then
        let (in0, _) = base64_byte input i;
            (in1, is_16bit) = base64_byte input (i + 1);
            (in2, is_8bit) = base64_byte input (i + 2);
            index0 = drop_bit 2 in0 AND 0x3f;
            index1 = (push_bit 4 in0 OR drop_bit 4 in1) AND 0x3f;
            index2 = (push_bit 2 in1 OR drop_bit 6 in2) AND 0x3f;
            index3 = in2 AND 0x3f;
            out0 = base64_alphabet ! unat index0;
            out1 = base64_alphabet ! unat index1;
            out2 = (if is_16bit then 0x3D else base64_alphabet ! unat index2);
            out3 = (if is_8bit then 0x3D else base64_alphabet ! unat index3)
        in encode_base64_loop input (i + 3) (output @ [out0] @ [out1] @ [out2] @ [out3])
      else output)"
  by pat_completeness auto
termination
  by (relation "measure (\<lambda>(input, i, output). length input - i)") auto

declare encode_base64_loop.simps [simp del]

definition encode_base64 :: "u8 list \<Rightarrow> u8 list" where
  "encode_base64 input = encode_base64_loop input 0 []"

definition calculate_base64_decoded_length :: "u8 list \<Rightarrow> nat" where
  "calculate_base64_decoded_length input = usz (length input * 3) div 4"

definition calculate_base64_encoded_length :: "u8 list \<Rightarrow> nat" where
  "calculate_base64_encoded_length input = unat (of_nat (usz (4 * length input) div 3 + 3) AND NOT (3 :: u32))"

section \<open>Input memory streams\<close>

record input_stream =
  is_bytes :: "u8 list"
  is_offset :: nat
  is_recoverable_error :: bool
  is_fatal_error :: bool

definition Stream_has_any_error :: "input_stream \<Rightarrow> bool" where
  "Stream_has_any_error s \<longleftrightarrow> is_recoverable_error s \<or> is_fatal_error s"

definition Stream_set_fatal_error :: "input_stream \<Rightarrow> input_stream" where
  "Stream_set_fatal_error s = s\<lparr>is_fatal_error := True\<rparr>"

definition Stream_handle_recoverable_error :: "input_stream \<Rightarrow> (bool \<times> input_stream) res" where
  "Stream_handle_recoverable_error s =
     verify (\<not> is_fatal_error s) (Inr (is_recoverable_error s, s\<lparr>is_recoverable_error := False\<rparr>))"

definition Stream_handle_fatal_error :: "input_stream \<Rightarrow> bool \<times> input_stream" where
  "Stream_handle_fatal_error s = (is_fatal_error s, s\<lparr>is_fatal_error := False\<rparr>)"

definition Stream_handle_any_error :: "input_stream \<Rightarrow> bool \<times> input_stream" where
  "Stream_handle_any_error s =
     (if Stream_has_any_error s then (True, s\<lparr>is_recoverable_error := False, is_fatal_error := False\<rparr>)
      else (False, s))"

definition InputMemoryStream_create :: "u8 list \<Rightarrow> input_stream" where
  "InputMemoryStream_create bytes =
     \<lparr>is_bytes = bytes, is_offset = 0, is_recoverable_error = False, is_fatal_error = False\<rparr>"

definition InputMemoryStream_eof :: "input_stream \<Rightarrow> bool" where
  "InputMemoryStream_eof s \<longleftrightarrow> is_offset s \<ge> length (is_bytes s)"

definition InputMemoryStream_remaining :: "input_stream \<Rightarrow> nat" where
  "InputMemoryStream_remaining s = usub (length (is_bytes s)) (is_offset s)"

definition InputMemoryStream_read :: "input_stream \<Rightarrow> nat \<Rightarrow> u8 list \<times> input_stream" where
  "InputMemoryStream_read s n =
     (if Stream_has_any_error s then ([], s)
      else let count = min n (InputMemoryStream_remaining s)
        in (take count (drop (is_offset s) (is_bytes s)), s\<lparr>is_offset := is_offset s + count\<rparr>))"

definition InputMemoryStream_read_or_error :: "input_stream \<Rightarrow> nat \<Rightarrow> u8 list option \<times> input_stream" where
  "InputMemoryStream_read_or_error s n =
     (if InputMemoryStream_remaining s < n then (None, s\<lparr>is_recoverable_error := True\<rparr>)
      else (Some (take n (drop (is_offset s) (is_bytes s))), s\<lparr>is_offset := is_offset s + n\<rparr>))"

definition InputMemoryStream_discard_or_error :: "input_stream \<Rightarrow> nat \<Rightarrow> bool \<times> input_stream" where
  "InputMemoryStream_discard_or_error s count =
     (if InputMemoryStream_remaining s < count then (False, s\<lparr>is_recoverable_error := True\<rparr>)
      else (True, s\<lparr>is_offset := is_offset s + count\<rparr>))"

definition InputMemoryStream_seek :: "input_stream \<Rightarrow> nat \<Rightarrow> input_stream res" where
  "InputMemoryStream_seek s offset = verify (offset < length (is_bytes s)) (Inr (s\<lparr>is_offset := offset\<rparr>))"

definition InputMemoryStream_peek_or_error :: "input_stream \<Rightarrow> (u8 \<times> input_stream) res" where
  "InputMemoryStream_peek_or_error s =
     (if InputMemoryStream_remaining s = 0 then Inr (0, s\<lparr>is_recoverable_error := True\<rparr>)
      else rbind (vec_at (is_bytes s) (is_offset s)) (\<lambda>b. Inr (b, s)))"

text \<open>\<open>input_stream >> byte\<close>, with \<open>byte\<close> zero before.\<close>

definition stream_byte :: "input_stream \<Rightarrow> u8 \<times> input_stream" where
  "stream_byte s =
     (case InputMemoryStream_read_or_error s 1 of
        (Some bs, s) \<Rightarrow> (hd bs, s) | (None, s) \<Rightarrow> (0, s))"

section \<open>LEB128\<close>

text \<open>
  \<open>read_unsigned\<close> into an unsigned type of \<open>LENGTH('a)\<close> bits. \<open>masked_byte << n\<close> is a shift of the
  promoted operand: of an \<open>int\<close> for a type that is narrower, where it wraps to a signed value of 32
  bits, and of the type itself otherwise; a shift by the promoted width or more is undefined. The
  value of the shift is an integer here, as it is wider than the result for the narrow types. Each
  turn of the loop consumes a byte or returns.
\<close>

definition promoted_width :: "'a::len word \<Rightarrow> nat" where
  "promoted_width x = max 32 LENGTH('a)"

definition promoted_shl :: "'a::len word \<Rightarrow> nat \<Rightarrow> int" where
  "promoted_shl x n =
     (if LENGTH('a) < 32 then signed_take_bit 31 (push_bit n (uint x))
      else take_bit LENGTH('a) (push_bit n (uint x)))"

lemma stream_byte_shrinks:
  assumes "(b, y) = stream_byte s" "\<not> InputMemoryStream_eof s" "\<not> Stream_has_any_error y"
  shows "length (is_bytes y) - is_offset y < length (is_bytes s) - is_offset s"
  using assms
  by (auto simp: stream_byte_def InputMemoryStream_read_or_error_def Stream_has_any_error_def InputMemoryStream_eof_def
      split: if_splits)

function LEB128_unsigned_loop ::
  "nat \<Rightarrow> input_stream \<Rightarrow> 'a::len word \<Rightarrow> nat \<Rightarrow> (bool \<times> 'a word \<times> input_stream) res" where
  "LEB128_unsigned_loop backup_offset s result num_bytes =
     (if InputMemoryStream_eof s then
        rbind (InputMemoryStream_seek s backup_offset) (\<lambda>s. Inr (False, result, Stream_set_fatal_error s))
      else
        let (byte, s') = stream_byte s in
        if Stream_has_any_error s' then Inr (False, result, s')
        else
          let masked_byte = ucast (byte AND 0x7F) :: 'a word in
          if num_bytes * 7 \<ge> promoted_width masked_byte then Inl Undefined_Behaviour
          else
            let shift_too_large_for_result = (num_bytes * 7 > LENGTH('a) \<and> masked_byte \<noteq> 0);
                shift_too_large_for_byte =
                  (drop_bit (num_bytes * 7) (promoted_shl masked_byte (num_bytes * 7)) \<noteq> uint masked_byte)
            in if shift_too_large_for_result \<or> shift_too_large_for_byte then Inr (False, result, s')
               else
                 let result = word_of_int (uint result OR promoted_shl masked_byte (num_bytes * 7))
                 in if byte AND 0x80 = 0 then Inr (True, result, s')
                    else LEB128_unsigned_loop backup_offset s' result (num_bytes + 1))"
  by pat_completeness auto
termination
  by (relation "measure (\<lambda>(b, s, r, n). length (is_bytes s) - is_offset s)")
    (auto intro: stream_byte_shrinks)

declare LEB128_unsigned_loop.simps [simp del]

definition LEB128_read_unsigned :: "input_stream \<Rightarrow> (bool \<times> 'a::len word \<times> input_stream) res" where
  "LEB128_read_unsigned s = LEB128_unsigned_loop (is_offset s) s 0 0"

text \<open>
  \<open>read_signed\<close> accumulates 64 bits and then checks the range of a signed type of \<open>w\<close> bits.
\<close>

function LEB128_signed_loop ::
  "nat \<Rightarrow> input_stream \<Rightarrow> u64 \<Rightarrow> nat \<Rightarrow> ((u64 \<times> u8 \<times> nat) option \<times> input_stream) res" where
  "LEB128_signed_loop backup_offset s temp num_bytes =
     (if InputMemoryStream_eof s then
        rbind (InputMemoryStream_seek s backup_offset) (\<lambda>s. Inr (None, Stream_set_fatal_error s))
      else
        let (byte, s') = stream_byte s in
        if Stream_has_any_error s' then Inr (None, s')
        else
          let masked_byte = ucast (byte AND 0x7F) :: u64;
              shift_too_large_for_result =
                (num_bytes * 7 \<ge> 64 \<and> masked_byte \<noteq> (if sint temp < 0 then 0x7F else 0));
              shift_too_large_for_byte = (num_bytes * 7 = 63 \<and> masked_byte \<noteq> 0 \<and> masked_byte \<noteq> 0x7F)
          in if shift_too_large_for_result \<or> shift_too_large_for_byte then Inr (None, s')
             else if num_bytes * 7 \<ge> 64 then Inl Undefined_Behaviour
             else
               let temp = temp OR push_bit (num_bytes * 7) masked_byte
               in if byte AND 0x80 \<noteq> 0 then LEB128_signed_loop backup_offset s' temp (num_bytes + 1)
                  else Inr (Some (temp, byte, num_bytes + 1), s'))"
  by pat_completeness auto
termination
  by (relation "measure (\<lambda>(b, s, r, n). length (is_bytes s) - is_offset s)") (auto intro: stream_byte_shrinks)

declare LEB128_signed_loop.simps [simp del]

definition LEB128_read_signed :: "nat \<Rightarrow> input_stream \<Rightarrow> (bool \<times> int \<times> input_stream) res" where
  "LEB128_read_signed w s =
     rbind (LEB128_signed_loop (is_offset s) s 0 0) (\<lambda>(r, s).
       case r of
         None \<Rightarrow> Inr (False, 0, s)
       | Some (temp, byte, num_bytes) \<Rightarrow>
           let temp = (if num_bytes * 7 < 64 \<and> byte AND 0x40 \<noteq> 0 then temp OR push_bit (num_bytes * 7) (- 1) else temp)
           in if w < 64 \<and> (sint temp > 2 ^ (w - 1) - 1 \<or> sint temp < - (2 ^ (w - 1))) then Inr (False, 0, s)
              else Inr (True, sint temp, s))"

section \<open>Round trips\<close>

text \<open>The two lower-case digits of a byte.\<close>

definition hex_of_byte :: "u8 \<Rightarrow> u8 list" where
  "hex_of_byte b = map (\<lambda>d. if d < 10 then 0x30 + d else 0x61 + (d - 10)) [drop_bit 4 b, b AND 0xf]"

lemma decode_hex_digit_of: "d < 16 \<Longrightarrow> decode_hex_digit (if d < 10 then 0x30 + d else 0x61 + (d - 10)) = d"
proof -
  have "\<forall>k\<in>set [0..<16]. decode_hex_digit (if of_nat k < (10 :: u8) then 0x30 + of_nat k else 0x61 + (of_nat k - 10)) =
      of_nat k"
    by code_simp
  then show "d < 16 \<Longrightarrow> decode_hex_digit (if d < 10 then 0x30 + d else 0x61 + (d - 10)) = d"
    by (rule small_word_cases) (simp add: word_less_nat_alt)
qed

lemma nibbles: "push_bit 4 (drop_bit 4 b) + (b AND 0xf) = (b :: u8)" "drop_bit 4 b < 16" "b AND 0xf < 16"
proof -
  have m: "(0xf :: u8) = mask 4" by (simp add: mask_eq_exp_minus_1)
  show "push_bit 4 (drop_bit 4 b) + (b AND 0xf) = b"
    unfolding m by (metis bits_ident take_bit_eq_mask)
  have "unat b < 256" using unsigned_less [of b] by simp
  then have "unat (drop_bit 4 b) < 16" by (simp add: unat_drop_bit del: drop_bit_numeral_minus_bit1)
  then show "drop_bit 4 b < 16" by (simp add: word_less_nat_alt)
  have "unat (b AND 0xf) < 16" unfolding m take_bit_eq_mask [symmetric] by (simp add: take_bit_eq_mod unat_mod_distrib)
  then show "b AND 0xf < 16" by (simp add: word_less_nat_alt)
qed

lemma decode_hex_loop_encoded: "decode_hex_loop (concat (map hex_of_byte bs)) out = Some (out @ bs)"
proof (induction bs arbitrary: out)
  case (Cons b bs)
  have "decode_hex_loop (hex_of_byte b @ rest) out = decode_hex_loop rest (out @ [b])" for rest out
    using decode_hex_digit_of [OF nibbles(2) [of b]] decode_hex_digit_of [OF nibbles(3) [of b]] nibbles [of b]
    by (simp add: hex_of_byte_def Let_def not_le [symmetric] del: if_split_eq1 if_split_eq2) 
  with Cons show ?case by simp
qed simp

lemma decode_hex_encoded: "decode_hex (concat (map hex_of_byte bs)) = Some bs"
proof -
  have "length (concat (map hex_of_byte bs)) = 2 * length bs"
    by (induction bs) (simp_all add: hex_of_byte_def)
  then show ?thesis using decode_hex_loop_encoded [of bs "[]"] by (simp add: decode_hex_def)
qed

lemma length_foldl_updates: "length (foldl (\<lambda>t i. t[f i := g i]) t xs) = length t"
  by (induction xs arbitrary: t) simp_all

lemma nth_foldl_updates:
  assumes "inj_on f {0..<n}" "\<And>i. i < n \<Longrightarrow> f i < length t" "k < n"
  shows "foldl (\<lambda>t i. t[f i := g i]) t [0..<n] ! f k = g k"
  using assms
proof (induction n)
  case (Suc n)
  show ?case
  proof (cases "k = n")
    case True
    then show ?thesis using Suc.prems(2) [of n] by (simp add: length_foldl_updates)
  next
    case False
    then have "f k \<noteq> f n" using Suc.prems(1,3) by (auto dest: inj_onD)
    moreover have "foldl (\<lambda>t i. t[f i := g i]) t [0..<n] ! f k = g k"
      using Suc.prems False by (intro Suc.IH) (auto intro: inj_on_subset)
    ultimately show ?thesis by simp
  qed
qed simp

lemma length_base64_alphabet: "length base64_alphabet = 64"
  by (simp add: base64_alphabet_def)

definition base64_codes :: "nat list" where
  "base64_codes = [0x41..<0x5B] @ [0x61..<0x7B] @ [0x30..<0x3A] @ [0x2B, 0x2F]"

lemmas base64_code_sets = base64_codes_def set_upt set_append atLeastLessThan_iff Un_iff list.set insert_iff empty_iff

lemma base64_codes_range: "x \<in> set base64_codes \<Longrightarrow> x < 128 \<and> x \<noteq> 0x3D"
  by (simp only: base64_code_sets) auto

lemma base64_codes_distinct: "distinct base64_codes"
  by (simp only: distinct_append distinct_upt disjoint_iff distinct.simps base64_code_sets) auto

lemma length_base64_codes: "length base64_codes = 64"
  by (simp add: base64_codes_def del: upt_rec_numeral)

lemma base64_alphabet_nth:
  assumes "k < 64"
  shows "unat (base64_alphabet ! k) = base64_codes ! k" "base64_codes ! k < 128" "base64_codes ! k \<noteq> 0x3D"
proof -
  have "base64_codes ! k \<in> set base64_codes" using assms by (intro nth_mem) (simp add: length_base64_codes)
  from base64_codes_range [OF this] show r: "base64_codes ! k < 128" "base64_codes ! k \<noteq> 0x3D" by simp_all
  have "base64_alphabet = map of_nat base64_codes" by (simp only: base64_alphabet_def base64_codes_def)
  moreover have "k < length base64_codes" using assms unfolding length_base64_codes .
  ultimately have "base64_alphabet ! k = of_nat (base64_codes ! k)" by (metis nth_map)
  moreover have "unat (of_nat (base64_codes ! k) :: u8) = base64_codes ! k"
    using r(1) by (simp add: unat_of_nat take_bit_nat_eq_self)
  ultimately show "unat (base64_alphabet ! k) = base64_codes ! k" by (simp only:)
qed

lemma base64_alphabet_chars:
  assumes "k < 64"
  shows "unat (base64_alphabet ! k) < 128" "base64_alphabet ! k \<noteq> 0x3D"
  using base64_alphabet_nth [OF assms] by auto

lemma base64_alphabet_inj: "inj_on (\<lambda>k. unat (base64_alphabet ! k)) {0..<64}"
  by (rule inj_onI) (simp add: base64_alphabet_nth nth_eq_iff_index_eq base64_codes_distinct length_base64_codes)

lemma lookup_table_inverse:
  assumes "k < 64"
  shows "vec_at make_lookup_table (unat (base64_alphabet ! k)) = Inr (of_nat k)"
proof -
  have len: "length make_lookup_table = 256" by (simp add: make_lookup_table_def length_foldl_updates)
  have "unat c < 256" for c :: u8 using unsigned_less [of c] by simp
  then have "make_lookup_table ! unat (base64_alphabet ! k) = of_nat k"
    unfolding make_lookup_table_def length_base64_alphabet
    using assms base64_alphabet_inj by (intro nth_foldl_updates) simp_all
  then show ?thesis using base64_alphabet_chars(1) [OF assms] len by (simp add: vec_at_ok)
qed

lemma base64_get_alphabet:
  assumes "i < length input" "input ! i = base64_alphabet ! unat v" "v AND 0x3f = v"
  shows "base64_get input i = Inr (v, False)"
proof -
  have "v \<le> 0x3f" using word_and_le1 [of v "0x3f"] assms(3) by simp
  then have v: "unat v < 64" by (simp add: word_le_nat_alt)
  have "sint (base64_alphabet ! unat v) \<ge> 0" using sint_small [OF base64_alphabet_chars(1) [OF v]] by simp
  then show ?thesis
    using assms base64_alphabet_chars [OF v] lookup_table_inverse [OF v] by (simp add: base64_get_def)
qed

text \<open>The encoding, group by group.\<close>

definition b64 :: "u8 \<Rightarrow> u8" where
  "b64 v = base64_alphabet ! unat v"

fun base64_groups :: "u8 list \<Rightarrow> u8 list" where
  "base64_groups [] = []"
| "base64_groups [a] = [b64 (drop_bit 2 a AND 0x3f), b64 ((push_bit 4 a OR drop_bit 4 0) AND 0x3f), 0x3D, 0x3D]"
| "base64_groups [a, b] = [b64 (drop_bit 2 a AND 0x3f), b64 ((push_bit 4 a OR drop_bit 4 b) AND 0x3f),
     b64 ((push_bit 2 b OR drop_bit 6 0) AND 0x3f), 0x3D]"
| "base64_groups (a # b # c # r) = [b64 (drop_bit 2 a AND 0x3f), b64 ((push_bit 4 a OR drop_bit 4 b) AND 0x3f),
     b64 ((push_bit 2 b OR drop_bit 6 c) AND 0x3f), b64 (c AND 0x3f)] @ base64_groups r"

lemma encode_base64_loop_groups:
  "encode_base64_loop (pre @ x) (length pre) out = out @ base64_groups x"
proof (induction x arbitrary: pre out rule: base64_groups.induct)
  case 1
  then show ?case by (simp add: encode_base64_loop.simps [of pre])
next
  case (2 a)
  have "encode_base64_loop (pre @ [a]) (length pre + 3) o' = o'" for o'
    by (simp add: encode_base64_loop.simps [of "pre @ [a]" "length pre + 3"])
  then show ?case
    by (simp add: encode_base64_loop.simps [of "pre @ [a]" "length pre"] base64_byte_def b64_def nth_append)
next
  case (3 a b)
  have "encode_base64_loop (pre @ [a, b]) (length pre + 3) o' = o'" for o'
    by (simp add: encode_base64_loop.simps [of "pre @ [a, b]" "length pre + 3"])
  then show ?case
    by (simp add: encode_base64_loop.simps [of "pre @ [a, b]" "length pre"] base64_byte_def b64_def nth_append)
next
  case (4 a b c r)
  have three: "length pre + 3 = Suc (Suc (Suc (length pre)))" by simp
  show ?case using "4.IH" [of "pre @ [a, b, c]"]
    by (simp add: three encode_base64_loop.simps [of "pre @ a # b # c # r" "length pre"] base64_byte_def b64_def nth_append)
qed

text \<open>The bits of a group survive.\<close>

lemma masks8: "(0x3f :: u8) = mask 6" "(3 :: u8) = mask 2" "(0xf :: u8) = mask 4"
  by (simp_all add: mask_eq_exp_minus_1)

lemmas group_bits = bit_or_iff bit_and_iff bit_push_bit_iff bit_drop_bit_eq bit_mask_iff comp_def possible_bit_word

lemma group_out0:
  "push_bit 2 (drop_bit 2 a AND 0x3f) OR (drop_bit 4 ((push_bit 4 a OR drop_bit 4 b) AND 0x3f) AND 3) = (a :: u8)"
  unfolding masks8
  by (rule u8_eqI) (simp_all only: group_bits, auto dest: bit_imp_le_length)

lemma group_out1:
  "push_bit 4 (((push_bit 4 a OR drop_bit 4 b) AND 0x3f) AND 0xf) OR
     (drop_bit 2 ((push_bit 2 b OR drop_bit 6 c) AND 0x3f) AND 0xf) = (b :: u8)"
  unfolding masks8
  by (rule u8_eqI) (simp_all only: group_bits, auto dest: bit_imp_le_length)

lemma group_out2:
  "push_bit 6 (((push_bit 2 b OR drop_bit 6 c) AND 0x3f) AND 0x3) OR (c AND 0x3f) = (c :: u8)"
  unfolding masks8
  by (rule u8_eqI) (simp_all only: group_bits, auto dest: bit_imp_le_length)

lemma base64_get_b64:
  assumes "i < length input" "input ! i = b64 (v AND 0x3f)"
  shows "base64_get input i = Inr (v AND 0x3f, False)"
  using assms base64_get_alphabet [of i input "v AND 0x3f"] by (simp add: b64_def and.assoc)

lemma base64_get_pad: "i < length input \<Longrightarrow> input ! i = 0x3D \<Longrightarrow> base64_get input i = Inr (0, True)"
  by (simp add: base64_get_def)

lemma decode_base64_step:
  assumes "i < length input"
    and "base64_get input i = Inr (in0, p0)" "base64_get input (i + 1) = Inr (in1, p1)"
    and "base64_get input (i + 2) = Inr (in2, p2)" "base64_get input (i + 3) = Inr (in3, p3)"
  shows "decode_base64_loop input i out = decode_base64_loop input (i + 4)
    (out @ [push_bit 2 in0 OR (drop_bit 4 in1 AND 3)] @
      (if p2 then [] else [push_bit 4 (in1 AND 0xf) OR (drop_bit 2 in2 AND 0xf)]) @
      (if p3 then [] else [push_bit 6 (in2 AND 0x3) OR in3]))"
  using assms by (subst decode_base64_loop.simps) (simp add: Let_def)

lemma decode_base64_end: "length input \<le> i \<Longrightarrow> decode_base64_loop input i out = Inr out"
  by (simp add: decode_base64_loop.simps [of input i])

lemma decode_base64_group:
  fixes pre rest va vb xb xc
  defines "input \<equiv> pre @ [b64 (va AND 0x3f), b64 (vb AND 0x3f), xb, xc] @ rest"
  assumes xb: "pb \<and> xb = 0x3D \<and> inb = 0 \<or> \<not> pb \<and> (\<exists>v. xb = b64 (v AND 0x3f) \<and> inb = v AND 0x3f)"
    and xc: "pc \<and> xc = 0x3D \<and> inc = 0 \<or> \<not> pc \<and> (\<exists>v. xc = b64 (v AND 0x3f) \<and> inc = v AND 0x3f)"
  shows "decode_base64_loop input (length pre) out = decode_base64_loop input (length pre + 4)
    (out @ [push_bit 2 (va AND 0x3f) OR (drop_bit 4 (vb AND 0x3f) AND 3)] @
      (if pb then [] else [push_bit 4 ((vb AND 0x3f) AND 0xf) OR (drop_bit 2 inb AND 0xf)]) @
      (if pc then [] else [push_bit 6 (inb AND 0x3) OR inc]))"
proof (rule decode_base64_step)
  have len: "length pre + 3 < length input" by (simp add: input_def)
  have nth: "input ! length pre = b64 (va AND 0x3f)" "input ! (length pre + 1) = b64 (vb AND 0x3f)"
      "input ! (length pre + 2) = xb" "input ! (length pre + 3) = xc"
    by (simp_all add: input_def nth_append)
  show "length pre < length input" using len by simp
  show "base64_get input (length pre) = Inr (va AND 0x3f, False)"
    using len nth by (intro base64_get_b64) auto
  show "base64_get input (length pre + 1) = Inr (vb AND 0x3f, False)"
    using len nth by (intro base64_get_b64) auto
  show "base64_get input (length pre + 2) = Inr (inb, pb)"
    using len nth(3) xb base64_get_pad [of "length pre + 2" input] base64_get_b64 [of "length pre + 2" input] by auto
  show "base64_get input (length pre + 3) = Inr (inc, pc)"
    using len nth(4) xc base64_get_pad [of "length pre + 3" input] base64_get_b64 [of "length pre + 3" input] by auto
qed

lemma decode_base64_groups:
  "decode_base64_loop (pre @ base64_groups x) (length pre) out = Inr (out @ x)"
proof (induction x arbitrary: pre out rule: base64_groups.induct)
  case 1
  then show ?case by (simp add: decode_base64_end)
next
  case (2 a)
  show ?case
    using decode_base64_group [where pb = True and xb = "0x3D" and inb = 0 and pc = True and xc = "0x3D"
        and inc = 0 and pre = pre and va = "drop_bit 2 a" and vb = "push_bit 4 a OR drop_bit 4 0" and rest = "[]"]
      group_out0 [of a 0]
    by (simp add: decode_base64_end)
next
  case (3 a b)
  show ?case
    using decode_base64_group [where pb = False and xb = "b64 ((push_bit 2 b OR drop_bit 6 0) AND 0x3f)"
        and inb = "(push_bit 2 b OR drop_bit 6 0) AND 0x3f" and pc = True and xc = "0x3D" and inc = 0
        and pre = pre and va = "drop_bit 2 a" and vb = "push_bit 4 a OR drop_bit 4 b" and rest = "[]"] group_out0 [of a b] group_out1 [of a b 0]
    by (simp add: decode_base64_end) blast
next
  case (4 a b c r)
  let ?g = "[b64 (drop_bit 2 a AND 0x3f), b64 ((push_bit 4 a OR drop_bit 4 b) AND 0x3f),
     b64 ((push_bit 2 b OR drop_bit 6 c) AND 0x3f), b64 (c AND 0x3f)]"
  have "decode_base64_loop (pre @ ?g @ base64_groups r) (length pre) out =
      decode_base64_loop (pre @ ?g @ base64_groups r) (length pre + 4) (out @ [a, b, c])"
    by (subst decode_base64_group [where pb = False and inb = "(push_bit 2 b OR drop_bit 6 c) AND 0x3f"
        and pc = False and inc = "c AND 0x3f"])
      (auto simp only: group_out0 group_out1 group_out2 if_False append.simps)
  moreover have "decode_base64_loop ((pre @ ?g) @ base64_groups r) (length (pre @ ?g)) (out @ [a, b, c]) =
      Inr ((out @ [a, b, c]) @ r)"
    by (rule "4.IH")
  moreover have "length (pre @ ?g) = length pre + 4" by simp
  ultimately show ?case by (simp only: append_assoc base64_groups.simps) simp
qed

lemma base64_roundtrip: "decode_base64 (encode_base64 x) = Inr x"
  using encode_base64_loop_groups [of "[]" x "[]"] decode_base64_groups [of "[]" x "[]"]
  by (simp add: decode_base64_def encode_base64_def)

text \<open>The LEB128 form of a number.\<close>

function leb128 :: "nat \<Rightarrow> u8 list" where
  "leb128 n = (if n < 128 then [of_nat n] else of_nat (n mod 128 + 128) # leb128 (n div 128))"
  by pat_completeness auto
termination
  by (relation "measure id") auto

declare leb128.simps [simp del]

lemma low7: "unat (b AND 0x7F :: u8) = unat b mod 128"
proof -
  have "(0x7F :: u8) = mask 7" by (simp add: mask_eq_exp_minus_1)
  then show ?thesis using unat_and_mask [of b 7] by simp
qed

lemma top_bit: "b AND 0x80 = 0 \<longleftrightarrow> unat (b :: u8) < 128"
proof -
  have "b AND 2 ^ 7 = 0 \<longleftrightarrow> \<not> bit b 7" by (rule and_exp_eq_0_iff_not_bit)
  moreover have "bit b 7 \<longleftrightarrow> bit (unat b) 7" by (simp add: bit_unsigned_iff)
  moreover have "bit (unat b) 7 \<longleftrightarrow> odd (unat b div 2 ^ 7)" by (rule bit_iff_odd)
  moreover have "unat b < 128 \<longleftrightarrow> even (unat b div 2 ^ 7)"
  proof (cases "unat b < 128")
    case False
    then have "unat b = 128 + (unat b - 128)" "unat b - 128 < 128" using unat_u8_less [of b] by simp_all
    then have "unat b div 2 ^ 7 = 1" by (simp add: div_nat_eqI)
    then show ?thesis using False by simp
  qed simp
  ultimately show ?thesis by simp
qed

lemma stream_byte_at:
  assumes "is_bytes s = pre @ b # rest" "is_offset s = length pre" "length (is_bytes s) < 2 ^ 32"
  shows "\<not> InputMemoryStream_eof s \<and> stream_byte s = (b, s\<lparr>is_offset := Suc (length pre)\<rparr>)"
  using assms by (simp add: InputMemoryStream_eof_def stream_byte_def InputMemoryStream_read_or_error_def
      InputMemoryStream_remaining_def)

lemma promoted_shl_fits:
  fixes x :: "'a::len word"
  assumes "unat x * 2 ^ n < 2 ^ LENGTH('a)"
  shows "promoted_shl x n = uint (push_bit n x)"
proof -
  have p: "push_bit n (uint x) = int (unat x * 2 ^ n)" by (simp add: push_bit_eq_mult)
  have "signed_take_bit 31 (push_bit n (uint x)) = push_bit n (uint x)" if "LENGTH('a) < 32"
  proof (rule signed_take_bit_int_eq_self)
    have "(2::nat) ^ LENGTH('a) \<le> 2 ^ 31" using that by (intro power_increasing) simp_all
    with assms have "unat x * 2 ^ n < 2 ^ 31" by linarith
    then show "push_bit n (uint x) < 2 ^ 31" unfolding p by (simp flip: of_nat_less_iff [where 'a = int])
    show "- (2 ^ 31) \<le> push_bit n (uint x)" unfolding p by (rule order_trans [of _ 0]) simp_all
  qed
  moreover have "take_bit LENGTH('a) (push_bit n (uint x)) = push_bit n (uint x)"
    unfolding p using assms by (simp only: take_bit_of_nat take_bit_nat_eq_self)
  ultimately show ?thesis by (simp add: promoted_shl_def unsigned_push_bit_eq)
qed

lemma LEB128_step:
  fixes r :: "'a::len word"
  assumes s: "is_bytes s = pre @ b # rest" "is_offset s = length pre" "length (is_bytes s) < 2 ^ 32"
    and e: "\<not> Stream_has_any_error s"
    and w: "8 \<le> LENGTH('a)" "7 * k < LENGTH('a)" "(unat b mod 128) * 2 ^ (7 * k) < 2 ^ LENGTH('a)"
    and r: "unat r < 2 ^ (7 * k)"
  shows "\<exists>r'. unat r' = unat r + (unat b mod 128) * 2 ^ (7 * k) \<and>
    LEB128_unsigned_loop backup s r k =
      (if unat b < 128 then Inr (True, r', s\<lparr>is_offset := Suc (length pre)\<rparr>)
       else LEB128_unsigned_loop backup (s\<lparr>is_offset := Suc (length pre)\<rparr>) r' (Suc k))"
proof -
  define m where "m = (ucast (b AND 0x7F) :: 'a word)"
  have m: "unat m = unat b mod 128" using w(1) low7 [of b] by (simp add: m_def unat_ucast_up)
  have fits: "unat m * 2 ^ (k * 7) < 2 ^ LENGTH('a)" using w(3) m by (simp add: mult.commute)
  define r' where "r' = r OR push_bit (k * 7) m"
  have "unat r' = unat r + (unat b mod 128) * 2 ^ (7 * k)"
    unfolding r'_def using unat_or_shifted [of r "7 * k" m] w(3) r m by (simp add: mult.commute)
  moreover have "drop_bit (k * 7) (promoted_shl m (k * 7)) = uint m"
    using arg_cong [OF drop_push_bit [OF fits], of uint] 
    by (simp add: promoted_shl_fits [OF fits] unsigned_drop_bit_eq bintr_uint)
  moreover have "word_of_int (uint r OR promoted_shl m (k * 7)) = r'"
    unfolding promoted_shl_fits [OF fits] r'_def by (simp flip: unsigned_or_eq)
  moreover have "\<not> Stream_has_any_error (s\<lparr>is_offset := Suc (length pre)\<rparr>)"
    using e by (simp add: Stream_has_any_error_def)
  moreover have "k * 7 < promoted_width m" using w(2) by (simp add: promoted_width_def)
  ultimately show ?thesis using stream_byte_at [OF s] w(2) top_bit [of b]
    by (subst LEB128_unsigned_loop.simps) (auto simp: Let_def mult.commute simp flip: m_def)
qed

lemma LEB128_unsigned_loop_spec:
  fixes r :: "'a::len word"
  assumes "is_bytes s = pre @ leb128 n @ rest" "is_offset s = length pre" "length (is_bytes s) < 2 ^ 32"
    and "\<not> Stream_has_any_error s" "8 \<le> LENGTH('a)" "unat r < 2 ^ (7 * k)"
    and "unat r + n * 2 ^ (7 * k) < 2 ^ LENGTH('a)" "n = 0 \<Longrightarrow> k = 0"
  shows "LEB128_unsigned_loop backup s r k =
    Inr (True, of_nat (unat r + n * 2 ^ (7 * k)), s\<lparr>is_offset := length pre + length (leb128 n)\<rparr>)"
  using assms
proof (induction n arbitrary: s pre r k rule: less_induct)
  case (less n)
  define b :: u8 where "b = (if n < 128 then of_nat n else of_nat (n mod 128 + 128))"
  have b: "unat b = (if n < 128 then n else n mod 128 + 128)"
  proof -
    have "n mod 128 + 128 < 2 ^ LENGTH(8)" using mod_less_divisor [of 128 n] by simp
    then have "unat (of_nat (n mod 128 + 128) :: u8) = n mod 128 + 128" by (rule unat_of_nat_less)
    moreover have "n < 128 \<Longrightarrow> unat (of_nat n :: u8) = n" by (simp add: unat_of_nat_less)
    ultimately show ?thesis by (simp only: b_def split: if_split) blast
  qed
  have bm: "unat b mod 128 = n mod 128" by (simp add: b)
  have "7 * k < LENGTH('a)"
  proof (cases "n = 0")
    case False
    then have "2 ^ (7 * k) \<le> unat r + n * 2 ^ (7 * k)" by (cases n) auto
    then have "2 ^ (7 * k) < (2::nat) ^ LENGTH('a)" using less.prems(7) by linarith
    then show ?thesis by simp
  qed (use less.prems in simp)
  moreover have "(n mod 128) * 2 ^ (7 * k) \<le> n * 2 ^ (7 * k)" by (intro mult_right_mono) simp_all
  then have "(unat b mod 128) * 2 ^ (7 * k) < 2 ^ LENGTH('a)" unfolding bm using less.prems(7) by linarith
  moreover define tail where "tail = (if n < 128 then [] else leb128 (n div 128))"
  have leb: "leb128 n = b # tail" by (simp add: leb128.simps [of n] b_def tail_def)
  moreover have "is_bytes s = pre @ b # (tail @ rest)" using less.prems(1) leb by simp
  ultimately obtain r' where r': "unat r' = unat r + (n mod 128) * 2 ^ (7 * k)"
      "LEB128_unsigned_loop backup s r k =
        (if n < 128 then Inr (True, r', s\<lparr>is_offset := Suc (length pre)\<rparr>)
         else LEB128_unsigned_loop backup (s\<lparr>is_offset := Suc (length pre)\<rparr>) r' (Suc k))"
    using LEB128_step [of s pre b "tail @ rest" k r backup] less.prems(2-6) bm by (auto simp: b split: if_splits)
  show ?case
  proof (cases "n < 128")
    case True
    then have "unat r' = unat r + n * 2 ^ (7 * k)" using r'(1) by simp
    moreover have "r' = of_nat (unat r')" by simp
    ultimately have "r' = of_nat (unat r + n * 2 ^ (7 * k))" by (simp only:)
    then show ?thesis using r'(2) True leb by (simp add: tail_def)
  next
    case False
    have pow: "(2::nat) ^ (7 * Suc k) = 128 * 2 ^ (7 * k)" by (simp add: power_add mult.commute)
    have split: "unat r' + (n div 128) * 2 ^ (7 * Suc k) = unat r + n * 2 ^ (7 * k)"
    proof -
      have "(128 * (n div 128) + n mod 128) * 2 ^ (7 * k) = n * 2 ^ (7 * k)" by (simp only: mult_div_mod_eq)
      then show ?thesis unfolding r'(1) pow by (simp only: add_mult_distrib add_mult_distrib2 ac_simps)
    qed
    have "n mod 128 \<le> 127" using mod_less_divisor [of 128 n] by linarith
    then have "(n mod 128) * 2 ^ (7 * k) \<le> 127 * 2 ^ (7 * k)" by (rule mult_right_mono) simp
    then have lt: "unat r' < 2 ^ (7 * Suc k)" unfolding r'(1) pow using less.prems(6) by linarith
    have "n div 128 \<noteq> 0" using False by (simp add: div_eq_0_iff)
    then have "LEB128_unsigned_loop backup (s\<lparr>is_offset := Suc (length pre)\<rparr>) r' (Suc k) =
        Inr (True, of_nat (unat r' + (n div 128) * 2 ^ (7 * Suc k)),
          s\<lparr>is_offset := Suc (length pre)\<rparr>\<lparr>is_offset := length (pre @ [b]) + length (leb128 (n div 128))\<rparr>)"
      using False less.prems(1-5,7) leb lt split
      by (intro less.IH) (auto simp: tail_def Stream_has_any_error_def)
    then show ?thesis unfolding split r'(2) using False leb by (simp add: tail_def del: of_nat_add of_nat_mult)
  qed
qed

lemma LEB128_unsigned_roundtrip:
  fixes v :: "'a::len word"
  assumes "is_bytes s = pre @ leb128 (unat v) @ rest" "is_offset s = length pre" "length (is_bytes s) < 2 ^ 32"
    and "\<not> Stream_has_any_error s" "8 \<le> LENGTH('a)"
  shows "LEB128_read_unsigned s = Inr (True, v, s\<lparr>is_offset := length pre + length (leb128 (unat v))\<rparr>)"
  using LEB128_unsigned_loop_spec [OF assms, of 0 0 "is_offset s"]
  by (simp add: LEB128_read_unsigned_def)

text \<open>In a narrow type the shift loses nothing as an \<open>int\<close>, and bits that do not fit the type are dropped.\<close>

lemma LEB128_narrow_truncates:
  "LEB128_read_unsigned (InputMemoryStream_create [0x80, 0x03]) =
     Inr (True, 0x80 :: u8, (InputMemoryStream_create [0x80, 0x03])\<lparr>is_offset := 2\<rparr>)"
  by (simp add: LEB128_read_unsigned_def LEB128_unsigned_loop.simps InputMemoryStream_create_def InputMemoryStream_eof_def
      stream_byte_def InputMemoryStream_read_or_error_def InputMemoryStream_remaining_def Stream_has_any_error_def
      promoted_width_def promoted_shl_def Let_def)

text \<open>At the end of the stream the readers abort: they seek to the offset they started from, which
  is the size, and \<open>seek\<close> refuses it.\<close>

lemma LEB128_eof_aborts:
  "is_offset s \<ge> length (is_bytes s) \<Longrightarrow>
   (LEB128_read_unsigned s :: (bool \<times> 'a::len word \<times> input_stream) res) = Inl Verify_Failed \<and>
   LEB128_read_signed w s = Inl Verify_Failed"
  by (simp add: LEB128_read_unsigned_def LEB128_read_signed_def InputMemoryStream_eof_def InputMemoryStream_seek_def
      LEB128_unsigned_loop.simps [of _ s] LEB128_signed_loop.simps [of _ s])

end
