(* ===== verification/Mem_Search.thy ===== *)
theory Mem_Search
  imports Prelude
begin

text \<open>
  \<open>base/MemMem.h\<close>: the search for a byte string in another, by a bit-parallel automaton for
  short needles and by Knuth, Morris and Pratt's algorithm for long ones, with the proof that both
  return the first occurrence (the automaton for needles of at most 30 bytes).

  The haystack and the needle are byte lists, whose lengths are the lengths the code passes. The
  \<open>int\<close> candidates of the failure table stay below the needle's length, so they are integers.
\<close>

section \<open>The bit-parallel automaton\<close>

text \<open>\<open>0x00000001 << i\<close> is an \<open>int\<close>: it is sign-extended where it meets a \<open>u64\<close>.\<close>

definition int_shl1 :: "nat \<Rightarrow> u64" where
  "int_shl1 i = scast (push_bit i (1 :: 32 word))"

definition int_not_shl1 :: "nat \<Rightarrow> u64" where
  "int_not_shl1 i = scast (NOT (push_bit i (1 :: 32 word)))"

fun bitap_masks :: "u8 list \<Rightarrow> nat \<Rightarrow> u64 list \<Rightarrow> u64 list" where
  "bitap_masks [] i needle_mask = needle_mask"
| "bitap_masks (c # needle) i needle_mask =
     bitap_masks needle (i + 1) (needle_mask[unat c := (needle_mask ! unat c) AND int_not_shl1 i])"

fun bitap_loop :: "u64 list \<Rightarrow> nat \<Rightarrow> u64 \<Rightarrow> u8 list \<Rightarrow> nat \<Rightarrow> nat option" where
  "bitap_loop needle_mask needle_length lookup [] i = None"
| "bitap_loop needle_mask needle_length lookup (c # haystack) i =
     (let lookup = push_bit 1 (lookup OR (needle_mask ! unat c))
      in if lookup AND int_shl1 needle_length = 0 then Some (i + 1 - needle_length)
         else bitap_loop needle_mask needle_length lookup haystack (i + 1))"

definition bitap_bitwise :: "u8 list \<Rightarrow> u8 list \<Rightarrow> nat option res" where
  "bitap_bitwise haystack needle =
     verify (length needle < 32)
       (Inr (bitap_loop (bitap_masks needle 0 (replicate 256 0xffffffff)) (length needle) 0xfffffffe haystack 0))"

section \<open>Knuth-Morris-Pratt\<close>

text \<open>
  \<open>candidate\<close> and \<open>needle_index\<close> are of type \<open>int\<close>. They stay below the length of the needle, and a
  needle of 2^31 bytes would need a table of 8 GiB, so their width is left out.

  First the \<open>do ... while\<close> loop of the table's preparation.
\<close>

partial_function (option) kmp_shift :: "u8 list \<Rightarrow> int list \<Rightarrow> nat \<Rightarrow> int \<Rightarrow> int res option" where
  "kmp_shift needle table position candidate =
     lift_res (vec_at table (nat candidate)) (\<lambda>candidate.
       if candidate \<ge> 0 then
         lift_res (vec_at needle (nat candidate)) (\<lambda>a.
         lift_res (vec_at needle position) (\<lambda>b.
           if a \<noteq> b then kmp_shift needle table position candidate else Some (Inr candidate)))
       else Some (Inr candidate))"

partial_function (option) kmp_prepare :: "u8 list \<Rightarrow> int list \<Rightarrow> nat \<Rightarrow> int \<Rightarrow> int list res option" where
  "kmp_prepare needle table position candidate =
     (if position < length needle then
        lift_res (vec_at needle position) (\<lambda>a.
        lift_res (vec_at needle (nat candidate)) (\<lambda>b.
          if a = b then
            lift_res (vec_at table (nat candidate)) (\<lambda>t.
            lift_res (vec_set table position t) (\<lambda>table.
              kmp_prepare needle table (position + 1) (candidate + 1)))
          else
            lift_res (vec_set table position candidate) (\<lambda>table.
            xbind (kmp_shift needle table position candidate) (\<lambda>candidate.
              kmp_prepare needle table (position + 1) (candidate + 1)))))
      else Some (Inr table))"

definition prepare_kmp_partial_table :: "u8 list \<Rightarrow> int list res option" where
  "prepare_kmp_partial_table needle =
     lift_res (vec_set (replicate (length needle) 0) 0 (- 1)) (\<lambda>table. kmp_prepare needle table 1 0)"

partial_function (option) kmp_loop ::
  "u8 list \<Rightarrow> int list \<Rightarrow> u8 list list \<Rightarrow> nat \<Rightarrow> nat \<Rightarrow> int \<Rightarrow> nat option res option" where
  "kmp_loop needle table haystack current_haystack_index total_haystack_index needle_index =
     (case haystack of
        [] \<Rightarrow> Some (Inr None)
      | chunk # haystack' \<Rightarrow>
          if current_haystack_index \<ge> length chunk
          then kmp_loop needle table haystack' 0 total_haystack_index needle_index
          else
            lift_res (vec_at needle (nat needle_index)) (\<lambda>a.
            lift_res (vec_at chunk current_haystack_index) (\<lambda>b.
              if a = b then
                if needle_index + 1 = int (length needle)
                then Some (Inr (Some (total_haystack_index + 1 - nat (needle_index + 1))))
                else kmp_loop needle table haystack (current_haystack_index + 1) (total_haystack_index + 1) (needle_index + 1)
              else
                lift_res (vec_at table (nat needle_index)) (\<lambda>needle_index.
                  if needle_index < 0
                  then kmp_loop needle table haystack (current_haystack_index + 1) (total_haystack_index + 1) (needle_index + 1)
                  else kmp_loop needle table haystack current_haystack_index total_haystack_index needle_index))))"

definition memmem_chunks :: "u8 list list \<Rightarrow> u8 list \<Rightarrow> nat option res option" where
  "memmem_chunks haystack needle =
     xbind (prepare_kmp_partial_table needle) (\<lambda>table. kmp_loop needle table haystack 0 0 0)"

section \<open>The entry points\<close>

definition memmem_optional :: "u8 list \<Rightarrow> u8 list \<Rightarrow> nat option res option" where
  "memmem_optional haystack needle =
     (if length needle = 0 then Some (Inr (Some 0))
      else if length haystack < length needle then Some (Inr None)
      else if length haystack = length needle then Some (Inr (if haystack = needle then Some 0 else None))
      else if length needle < 32 then Some (bitap_bitwise haystack needle)
      else memmem_chunks [haystack] needle)"

text \<open>\<open>memmem\<close> returns a pointer into the haystack, here its offset, or null.\<close>

definition memmem :: "u8 list \<Rightarrow> u8 list \<Rightarrow> nat option res option" where
  "memmem haystack needle =
     xbind (memmem_optional haystack needle) (\<lambda>offset.
       case offset of Some n \<Rightarrow> Some (Inr (Some n)) | None \<Rightarrow> Some (Inr None))"

section \<open>The first occurrence\<close>

definition occurs_at :: "'a list \<Rightarrow> 'a list \<Rightarrow> nat \<Rightarrow> bool" where
  "occurs_at haystack needle s \<longleftrightarrow>
     s + length needle \<le> length haystack \<and> take (length needle) (drop s haystack) = needle"

definition first_occurrence :: "'a list \<Rightarrow> 'a list \<Rightarrow> nat option" where
  "first_occurrence haystack needle = List.find (occurs_at haystack needle) [0..<Suc (length haystack)]"

lemma occurs_at_nth:
  "occurs_at h p s \<longleftrightarrow> s + length p \<le> length h \<and> (\<forall>k<length p. h ! (s + k) = p ! k)"
  by (auto simp: occurs_at_def list_eq_iff_nth_eq)

lemma find_upt_Some:
  assumes "P s" "s < n" "\<And>t. t < s \<Longrightarrow> \<not> P t"
  shows "List.find P [0..<n] = Some s"
  unfolding find_Some_iff using assms by (intro exI [of _ s]) simp

lemma first_occurrenceI:
  assumes "occurs_at h p s" "\<And>t. t < s \<Longrightarrow> \<not> occurs_at h p t"
  shows "first_occurrence h p = Some s"
  unfolding first_occurrence_def using assms by (intro find_upt_Some) (auto simp: occurs_at_def)

lemma no_occurrenceI:
  assumes "\<And>t. \<not> occurs_at h p t"
  shows "first_occurrence h p = None"
  unfolding first_occurrence_def using assms by (simp add: find_None_iff)

lemma first_occurrence_Some_iff:
  "first_occurrence h p = Some s \<longleftrightarrow> occurs_at h p s \<and> (\<forall>t. t < s \<longrightarrow> \<not> occurs_at h p t)"
proof
  assume "first_occurrence h p = Some s"
  then obtain i where i: "i < Suc (length h)" "occurs_at h p ([0..<Suc (length h)] ! i)"
      "s = [0..<Suc (length h)] ! i" "\<forall>j<i. \<not> occurs_at h p ([0..<Suc (length h)] ! j)"
    by (auto simp: first_occurrence_def find_Some_iff simp del: upt_Suc)
  then show "occurs_at h p s \<and> (\<forall>t. t < s \<longrightarrow> \<not> occurs_at h p t)" by (simp del: upt_Suc)
qed (blast intro: first_occurrenceI)

lemma first_occurrence_None_iff: "first_occurrence h p = None \<longleftrightarrow> (\<forall>t. \<not> occurs_at h p t)"
  by (auto simp: first_occurrence_def find_None_iff occurs_at_def simp del: upt_Suc)

section \<open>The automaton finds it\<close>

lemma bit_int_shl1: "i < 31 \<Longrightarrow> bit (int_shl1 i) k \<longleftrightarrow> k = i"
  by (auto simp: int_shl1_def bit_simps)

lemma bit_int_shl1_31: "31 \<le> k \<Longrightarrow> k < 64 \<Longrightarrow> bit (int_shl1 31) k"
proof -
  have "bit (push_bit 31 (1 :: 32 word)) 31" by (simp only: bit_push_bit_iff) simp
  then show "31 \<le> k \<Longrightarrow> k < 64 \<Longrightarrow> bit (int_shl1 31) k"
    by (simp add: int_shl1_def bit_signed_iff min_def del: push_bit_of_1)
qed

lemma and_int_shl1_eq_0: "i < 31 \<Longrightarrow> w AND int_shl1 i = 0 \<longleftrightarrow> \<not> bit w i"
proof -
  assume i: "i < 31"
  have "w AND int_shl1 i = 0" if "\<not> bit w i"
    by (rule bit_word_eqI) (use that i in \<open>auto simp only: bit_and_iff bit_int_shl1 bit_0_eq bot_apply bot_bool_def\<close>)
  moreover have "bit (w AND int_shl1 i) i" if "bit w i"
    using that i by (simp only: bit_and_iff bit_int_shl1)
  ultimately show ?thesis by (metis bit_0_eq bot_apply bot_bool_def)
qed

lemma bit_push1: "bit (push_bit 1 (w::u64)) k \<longleftrightarrow> 0 < k \<and> k < 64 \<and> bit w (k - 1)"
  by (auto simp only: bit_push_bit_iff possible_bit_word) (auto simp: Suc_le_eq dest: bit_imp_le_length)

lemma bit_int_not_shl1: "i < 31 \<Longrightarrow> bit (int_not_shl1 i) k \<longleftrightarrow> k < 64 \<and> k \<noteq> i"
  by (auto simp: int_not_shl1_def bit_simps)

lemma length_bitap_masks [simp]: "length (bitap_masks needle i m) = length m"
  by (induction needle i m rule: bitap_masks.induct) simp_all

lemma bit_bitap_masks:
  assumes "i + length needle \<le> 31" "length m = 256"
  shows "bit (bitap_masks needle i m ! unat (c::u8)) k \<longleftrightarrow>
    bit (m ! unat c) k \<and> \<not> (i \<le> k \<and> k < i + length needle \<and> needle ! (k - i) = c)"
  using assms
proof (induction needle i m rule: bitap_masks.induct)
  case (1 i m)
  then show ?case by simp
next
  case (2 d needle i m)
  let ?m = "m[unat d := (m ! unat d) AND int_not_shl1 i]"
  have u: "unat x < 256" for x :: u8 using unsigned_less [of x] by simp
  have inj: "unat d = unat c \<longleftrightarrow> d = c" by (simp flip: word_unat_eq_iff)
  have "bit (?m ! unat c) k \<longleftrightarrow> bit (m ! unat c) k \<and> \<not> (k = i \<and> d = c)"
    using 2 u [of c] inj by (cases "d = c") (auto simp: bit_and_iff bit_int_not_shl1 dest: bit_imp_le_length)
  then show ?case using 2 by (auto simp: nth_Cons' Suc_le_eq)
qed

definition suffix_matches :: "'a list \<Rightarrow> 'a list \<Rightarrow> nat \<Rightarrow> nat \<Rightarrow> bool" where
  "suffix_matches h p i k \<longleftrightarrow> k \<le> i \<and> (\<forall>j<k. h ! (i - k + j) = p ! j)"

lemma suffix_matches_0 [simp]: "suffix_matches h p i 0"
  by (simp add: suffix_matches_def)

lemma suffix_matches_Suc:
  "suffix_matches h p (Suc i) (Suc k) \<longleftrightarrow> suffix_matches h p i k \<and> h ! i = p ! k"
proof -
  have "(\<forall>j<Suc k. h ! (i - k + j) = p ! j) \<longleftrightarrow> (\<forall>j<k. h ! (i - k + j) = p ! j) \<and> h ! (i - k + k) = p ! k"
    by (auto simp: less_Suc_eq)
  then show ?thesis by (auto simp: suffix_matches_def)
qed

lemma suffix_matches_occurs:
  "suffix_matches h p i (length p) \<Longrightarrow> i \<le> length h \<Longrightarrow> occurs_at h p (i - length p)"
  by (auto simp: suffix_matches_def occurs_at_nth)

lemma occurs_suffix_matches: "occurs_at h p s \<Longrightarrow> suffix_matches h p (s + length p) (length p)"
  by (simp add: suffix_matches_def occurs_at_nth)

definition bitap_state :: "u8 list \<Rightarrow> u8 list \<Rightarrow> nat \<Rightarrow> u64 \<Rightarrow> bool" where
  "bitap_state h p i lookup \<longleftrightarrow> (\<forall>k\<le>length p. \<not> bit lookup k \<longleftrightarrow> suffix_matches h p i k)"

definition bitap_table :: "u8 list \<Rightarrow> u64 list \<Rightarrow> bool" where
  "bitap_table p m \<longleftrightarrow> (\<forall>c k. k < 32 \<longrightarrow> (bit (m ! unat (c::u8)) k \<longleftrightarrow> \<not> (k < length p \<and> p ! k = c)))"

lemma bit_ones32: "bit (0xffffffff :: u64) k \<longleftrightarrow> k < 32"
proof -
  have "(0xffffffff :: u64) = mask 32" by (simp add: mask_eq_exp_minus_1)
  then show ?thesis by (simp only: bit_mask_iff) auto
qed

lemma bitap_table_masks: "length p \<le> 31 \<Longrightarrow> bitap_table p (bitap_masks p 0 (replicate 256 0xffffffff))"
proof -
  assume p: "length p \<le> 31"
  define m :: "u64 list" where "m = replicate 256 0xffffffff"
  have l: "length m = 256" by (simp only: m_def length_replicate)
  have u: "unat c < 256" for c :: u8 using unsigned_less [of c] by simp
  have "bit (m ! unat (c::u8)) k \<longleftrightarrow> k < 32" for c k
    using u [of c] by (simp only: m_def nth_replicate bit_ones32)
  then have "bitap_table p (bitap_masks p 0 m)"
    using p l bit_bitap_masks [of 0 p m] unfolding bitap_table_def by auto
  then show ?thesis by (simp only: m_def)
qed

lemma bitap_start: "length p \<le> 31 \<Longrightarrow> bitap_state h p 0 0xfffffffe"
proof -
  assume p: "length p \<le> 31"
  define l :: u64 where "l = 0xfffffffe"
  have l: "l = 0xffffffff AND NOT 1" by (simp add: l_def)
  have "bit l k \<longleftrightarrow> k \<noteq> 0" if "k \<le> 31" for k
    using that unfolding l by (simp only: bit_and_iff bit_not_iff bit_ones32 bit_1_iff possible_bit_word) auto
  then have "bitap_state h p 0 l" using p unfolding bitap_state_def suffix_matches_def by auto
  then show ?thesis by (simp only: l_def)
qed

lemma bitap_step:
  assumes "bitap_state h p i lookup" "bitap_table p m" "length p \<le> 31" "i < length h"
  shows "bitap_state h p (Suc i) (push_bit 1 (lookup OR (m ! unat (h ! i))))"
  unfolding bitap_state_def
proof (intro allI impI)
  fix k assume k: "k \<le> length p"
  show "\<not> bit (push_bit 1 (lookup OR (m ! unat (h ! i)))) k \<longleftrightarrow> suffix_matches h p (Suc i) k"
  proof (cases k)
    case 0
    then show ?thesis by (simp only: bit_push1) simp
  next
    case (Suc j)
    with k have j: "j < length p" by simp
    have "bit lookup j \<longleftrightarrow> \<not> suffix_matches h p i j"
      using assms(1) j unfolding bitap_state_def by (meson less_imp_le_nat)
    moreover have "bit (m ! unat (h ! i)) j \<longleftrightarrow> \<not> (p ! j = h ! i)"
      using assms(2,3) j by (simp add: bitap_table_def)
    ultimately show ?thesis using j assms(3) by (simp only: Suc bit_push1 bit_or_iff suffix_matches_Suc) auto
  qed
qed

lemma bitap_loop_spec:
  assumes "bitap_state h p i lookup" "bitap_table p m" "length p \<le> 30" "0 < length p" "i \<le> length h"
    and "\<And>s. s + length p \<le> i \<Longrightarrow> \<not> occurs_at h p s"
  shows "bitap_loop m (length p) lookup (drop i h) i = first_occurrence h p"
  using assms
proof (induction "length h - i" arbitrary: i lookup)
  case 0
  then have "\<not> occurs_at h p s" for s by (auto simp: occurs_at_def)
  with 0 show ?case by (simp add: no_occurrenceI)
next
  case (Suc n)
  define l where "l = push_bit 1 (lookup OR (m ! unat (h ! i)))"
  from Suc have i: "i < length h" by simp
  have st: "bitap_state h p (Suc i) l" unfolding l_def using Suc.prems i by (intro bitap_step) auto
  have test: "l AND int_shl1 (length p) = 0 \<longleftrightarrow> suffix_matches h p (Suc i) (length p)"
    using st Suc.prems(3) by (simp add: bitap_state_def and_int_shl1_eq_0)
  have unf: "bitap_loop m (length p) lookup (drop i h) i =
      (if suffix_matches h p (Suc i) (length p) then Some (i + 1 - length p)
       else bitap_loop m (length p) l (drop (Suc i) h) (Suc i))"
    using i by (simp only: Cons_nth_drop_Suc [symmetric] bitap_loop.simps Let_def test flip: l_def) simp
  show ?case
  proof (cases "suffix_matches h p (Suc i) (length p)")
    case True
    then have "first_occurrence h p = Some (Suc i - length p)"
      using Suc.prems i by (intro first_occurrenceI suffix_matches_occurs) (auto simp: suffix_matches_def)
    with True unf show ?thesis by simp
  next
    case False
    have "\<not> occurs_at h p s" if "s + length p \<le> Suc i" for s
      using that Suc.prems(6) [of s] False occurs_suffix_matches [of h p s] by (cases "s + length p = Suc i") auto
    then have "bitap_loop m (length p) l (drop (Suc i) h) (Suc i) = first_occurrence h p"
      using Suc.hyps(2) Suc.prems(2-4) st i by (intro Suc.hyps(1)) auto
    with False unf show ?thesis by simp
  qed
qed

lemma bitap_finds_first:
  assumes "0 < length p" "length p \<le> 30"
  shows "bitap_bitwise h p = Inr (first_occurrence h p)"
  using bitap_loop_spec [OF bitap_start bitap_table_masks, of p h] assms
  by (simp add: bitap_bitwise_def occurs_at_def)

text \<open>
  With 31 bytes the shift is \<open>1 << 31\<close>, negative, so that the test reads bits 31 to 63 of
  the state; bit 32 is set by every step, and nothing is ever found.
\<close>

lemma bitap_loop_31:
  assumes "bitap_table p m" "length p = 31"
  shows "bitap_loop m 31 lookup h i = None"
  using assms
proof (induction h arbitrary: lookup i)
  case (Cons c h)
  define l where "l = push_bit 1 (lookup OR (m ! unat c))"
  have "bit l 32" unfolding l_def using Cons.prems by (simp only: bit_push1 bit_or_iff bitap_table_def) simp
  then have "bit (l AND int_shl1 31) 32" by (simp add: bit_and_iff bit_int_shl1_31)
  then have "l AND int_shl1 31 \<noteq> 0" by (metis bit_0_eq bot_apply bot_bool_def)
  then show ?case using Cons by (simp only: bitap_loop.simps Let_def flip: l_def) simp
qed simp

lemma bitap_misses_31: "length p = 31 \<Longrightarrow> bitap_bitwise h p = Inr None"
  using bitap_loop_31 [OF bitap_table_masks] by (simp add: bitap_bitwise_def)

section \<open>Knuth-Morris-Pratt finds it\<close>

definition border :: "'a list \<Rightarrow> nat \<Rightarrow> nat \<Rightarrow> bool" where
  "border p j k \<longleftrightarrow> k < j \<and> suffix_matches p p j k"

definition longest_border :: "'a list \<Rightarrow> nat \<Rightarrow> nat \<Rightarrow> bool" where
  "longest_border p j c \<longleftrightarrow> border p j c \<and> (\<forall>k. border p j k \<longrightarrow> k \<le> c)"

text \<open>
  An entry of the failure table: the longest border that is not continued the same way, or -1.
\<close>

definition fail_entry :: "'a list \<Rightarrow> nat \<Rightarrow> int \<Rightarrow> bool" where
  "fail_entry p j t \<longleftrightarrow> - 1 \<le> t \<and> t < int j \<and> (0 \<le> t \<longrightarrow> border p j (nat t) \<and> p ! nat t \<noteq> p ! j) \<and>
     (\<forall>k. border p j k \<longrightarrow> t < int k \<longrightarrow> p ! k = p ! j)"

definition fail_table :: "'a list \<Rightarrow> int list \<Rightarrow> nat \<Rightarrow> bool" where
  "fail_table p table n \<longleftrightarrow> length table = length p \<and> (\<forall>j<n. fail_entry p j (table ! j))"

text \<open>What matches before a position, seen from a shorter match at the same position.\<close>

lemma suffix_matches_shorter:
  assumes "suffix_matches h p t j" "k \<le> j"
  shows "suffix_matches h p t k \<longleftrightarrow> suffix_matches p p j k"
proof -
  have "h ! (t - k + i) = p ! (j - k + i)" if "i < k" for i
  proof -
    have "j - k + i < j" using assms(2) that by simp
    then have "h ! (t - j + (j - k + i)) = p ! (j - k + i)"
      using assms(1) unfolding suffix_matches_def by blast
    moreover have "t - j + (j - k + i) = t - k + i"
      using assms by (simp add: suffix_matches_def)
    ultimately show ?thesis by simp
  qed
  with assms show ?thesis by (auto simp: suffix_matches_def)
qed

lemma border_shorter: "border p j c \<Longrightarrow> k < c \<Longrightarrow> border p j k \<longleftrightarrow> border p c k"
  using suffix_matches_shorter [of p p j c k] by (auto simp: border_def)

lemma border_Suc: "border p (Suc j) (Suc k) \<longleftrightarrow> border p j k \<and> p ! j = p ! k"
  by (auto simp: border_def suffix_matches_Suc)

lemma longest_border_Suc:
  assumes "0 < j" "- 1 \<le> r" "r < int j" "0 \<le> r \<longrightarrow> border p j (nat r) \<and> p ! nat r = p ! j"
    and "\<And>k. border p j k \<Longrightarrow> r < int k \<Longrightarrow> p ! k \<noteq> p ! j"
  shows "longest_border p (Suc j) (nat (r + 1))"
proof -
  have "border p (Suc j) (nat (r + 1))"
  proof (cases "r = - 1")
    case True
    then show ?thesis by (simp add: border_def)
  next
    case False
    then show ?thesis using assms(2,4) by (simp add: Suc_nat_eq_nat_zadd1 [symmetric] border_Suc add.commute)
  qed
  moreover have "k \<le> nat (r + 1)" if "border p (Suc j) k" for k
  proof (cases k)
    case (Suc k')
    then show ?thesis using that assms(5) [of k'] by (fastforce simp: border_Suc)
  qed simp
  ultimately show ?thesis by (simp add: longest_border_def)
qed

lemma kmp_shift_spec:
  assumes "fail_table p table position" "position < length p"
  shows "border p position c \<Longrightarrow> p ! c \<noteq> p ! position \<Longrightarrow>
    (\<And>k. border p position k \<Longrightarrow> c < k \<Longrightarrow> p ! k \<noteq> p ! position) \<Longrightarrow>
    \<exists>r. kmp_shift p table position (int c) = Some (Inr r) \<and> - 1 \<le> r \<and> r < int position \<and>
      (0 \<le> r \<longrightarrow> border p position (nat r) \<and> p ! nat r = p ! position) \<and>
      (\<forall>k. border p position k \<longrightarrow> r < int k \<longrightarrow> p ! k \<noteq> p ! position)"
proof (induction c rule: less_induct)
  case (less c)
  define t where "t = table ! c"
  have c: "c < position" using less.prems(1) by (simp add: border_def)
  then have e: "fail_entry p c t" and l: "c < length table"
    using assms by (auto simp: fail_table_def t_def)
  have skip: "p ! k \<noteq> p ! position" if "border p position k" "t < int k" for k
  proof (cases k c rule: linorder_cases)
    case less
    then have "p ! k = p ! c" using that e border_shorter [OF less.prems(1)] by (auto simp: fail_entry_def)
    then show ?thesis using \<open>p ! c \<noteq> p ! position\<close> by simp
  qed (use less.prems that in auto)
  have unf: "kmp_shift p table position (int c) =
      (if 0 \<le> t then lift_res (vec_at p (nat t)) (\<lambda>a. lift_res (vec_at p position) (\<lambda>b.
         if a \<noteq> b then kmp_shift p table position t else Some (Inr t))) else Some (Inr t))"
    by (subst kmp_shift.simps) (simp only: vec_at_ok [OF l] nat_int lift_res_simps flip: t_def)
  show ?case
  proof (cases "0 \<le> t")
    case False
    then show ?thesis using unf skip e c by (intro exI [of _ t]) (auto simp: fail_entry_def)
  next
    case True
    then obtain k where k: "t = int k" using nonneg_int_cases by blast
    have b: "border p position k" "k < c" "k < length p"
      using e k c assms(2) border_shorter [OF less.prems(1)] by (auto simp: fail_entry_def)
    show ?thesis
    proof (cases "p ! k = p ! position")
      case True
      then show ?thesis using unf skip b c k assms(2) by (intro exI [of _ t]) (auto simp: vec_at_ok)
    next
      case False
      then show ?thesis using less.IH [OF b(2,1)] skip unf k b assms(2) by (simp add: vec_at_ok)
    qed
  qed
qed

lemma fail_entry_cases: "fail_entry p j e \<Longrightarrow> e = - 1 \<or> (\<exists>k<j. e = int k)"
proof (cases "0 \<le> e")
  case True
  moreover assume "fail_entry p j e"
  ultimately have "nat e < j" "e = int (nat e)" by (auto simp: fail_entry_def)
  then show ?thesis by blast
qed (simp add: fail_entry_def)

lemma fail_table_extend:
  assumes "fail_table p table n" "fail_entry p n t" "n < length p"
  shows "fail_table p (table[n := t]) (Suc n)"
  using assms by (auto simp: fail_table_def nth_list_update less_Suc_eq)

lemma fail_entry_same:
  assumes "longest_border p n c" "p ! n = p ! c" "fail_entry p c t"
  shows "fail_entry p n t"
proof -
  have c: "border p n c" "c < n" using assms(1) by (auto simp: longest_border_def border_def)
  have "p ! k = p ! n" if "border p n k" "t < int k" for k
  proof (cases "k = c")
    case False
    then have "border p c k" using that assms(1) border_shorter [OF c(1), of k]
      by (force simp: longest_border_def)
    then show ?thesis using that assms by (simp add: fail_entry_def)
  qed (use assms in simp)
  moreover have "border p n (nat t) \<and> p ! nat t \<noteq> p ! n" if "0 \<le> t"
    using that assms(2,3) c(1) border_shorter [OF c(1), of "nat t"] by (auto simp: fail_entry_def)
  ultimately show ?thesis using assms(3) c(2) by (simp add: fail_entry_def)
qed

lemma fail_entry_differs:
  "longest_border p n c \<Longrightarrow> p ! n \<noteq> p ! c \<Longrightarrow> fail_entry p n (int c)"
  unfolding fail_entry_def longest_border_def by (force simp: border_def)

lemma kmp_prepare_spec:
  assumes "fail_table p table position" "longest_border p position c" "0 < position" "position \<le> length p"
  shows "\<exists>tbl. kmp_prepare p table position (int c) = Some (Inr tbl) \<and> fail_table p tbl (length p)"
  using assms
proof (induction "length p - position" arbitrary: table position c)
  case 0
  then have "kmp_prepare p table position (int c) = Some (Inr table)"
    by (subst kmp_prepare.simps) simp
  with 0 show ?case by auto
next
  case (Suc n)
  have pos: "position < length p" and n: "n = length p - Suc position" using Suc.hyps(2) by simp_all
  have c: "c < position" "border p position c" using Suc.prems(2) by (auto simp: longest_border_def border_def)
  have len: "length table = length p" using Suc.prems(1) by (simp add: fail_table_def)
  have Suc_int: "int c + 1 = int (Suc c)" for c by simp
  show ?case
  proof (cases "p ! position = p ! c")
    case True
    define tbl where "tbl = table[position := table ! c]"
    have "fail_entry p c (table ! c)" using Suc.prems(1) c(1) by (simp add: fail_table_def)
    then have ft: "fail_table p tbl (Suc position)"
      unfolding tbl_def using Suc.prems pos True fail_entry_same [OF Suc.prems(2)]
      by (intro fail_table_extend) simp_all
    have "longest_border p (Suc position) (nat (int c + 1))"
      using c True Suc.prems(2,3) by (intro longest_border_Suc) (auto simp: longest_border_def)
    then have "\<exists>tbl'. kmp_prepare p tbl (Suc position) (int (Suc c)) = Some (Inr tbl') \<and> fail_table p tbl' (length p)"
      using pos ft n by (intro Suc.hyps(1)) (simp_all add: nat_int_add [of c 1, simplified])
    moreover have "kmp_prepare p table position (int c) = kmp_prepare p tbl (Suc position) (int (Suc c))"
      using pos c(1) len True
      by (subst kmp_prepare.simps) (simp add: vec_at_ok vec_set_ok tbl_def add.commute)
    ultimately show ?thesis by simp
  next
    case False
    define tbl where "tbl = table[position := int c]"
    have ft: "fail_table p tbl (Suc position)"
      unfolding tbl_def using Suc.prems pos False
      by (intro fail_table_extend fail_entry_differs) simp_all
    then have "fail_table p tbl position" by (simp add: fail_table_def)
    moreover have "p ! k \<noteq> p ! position" if "border p position k" "c < k" for k
      using that Suc.prems(2) by (auto simp: longest_border_def)
    ultimately obtain r where r: "kmp_shift p tbl position (int c) = Some (Inr r)" "- 1 \<le> r" "r < int position"
        "0 \<le> r \<longrightarrow> border p position (nat r) \<and> p ! nat r = p ! position"
        "\<And>k. border p position k \<Longrightarrow> r < int k \<Longrightarrow> p ! k \<noteq> p ! position"
      using kmp_shift_spec [of p tbl position c] pos c(2) False by metis
    have lb: "longest_border p (Suc position) (nat (r + 1))"
      using Suc.prems(3) r(2-5) by (rule longest_border_Suc)
    obtain d where d: "r + 1 = int d" using r(2) nonneg_int_cases [of "r + 1"] by auto
    have "\<exists>tbl'. kmp_prepare p tbl (Suc position) (int d) = Some (Inr tbl') \<and> fail_table p tbl' (length p)"
      using pos ft n lb d by (intro Suc.hyps(1)) simp_all
    moreover have "kmp_prepare p table position (int c) = kmp_prepare p tbl (Suc position) (int d)"
      using pos c(1) len False r(1) d
      by (subst kmp_prepare.simps) (simp add: vec_at_ok vec_set_ok flip: tbl_def)
    ultimately show ?thesis by simp
  qed
qed

lemma prepare_kmp_spec:
  assumes "p \<noteq> []"
  shows "\<exists>tbl. prepare_kmp_partial_table p = Some (Inr tbl) \<and> fail_table p tbl (length p)"
proof -
  have "\<exists>tbl. kmp_prepare p ((replicate (length p) 0)[0 := - 1]) 1 (int 0) = Some (Inr tbl) \<and> fail_table p tbl (length p)"
  proof (rule kmp_prepare_spec)
    show "fail_table p ((replicate (length p) 0)[0 := - 1]) 1"
      using assms by (simp add: fail_table_def fail_entry_def border_def)
    show "longest_border p 1 0" by (simp add: longest_border_def border_def)
  qed (use assms in \<open>simp_all add: Suc_le_eq\<close>)
  then show ?thesis using assms by (simp add: prepare_kmp_partial_table_def vec_set_ok)
qed

text \<open>What is left of the haystack at an index of its first chunk.\<close>

definition rest_of :: "'a list list \<Rightarrow> nat \<Rightarrow> 'a list" where
  "rest_of chunks i = (case chunks of [] \<Rightarrow> [] | c # cs \<Rightarrow> drop i c @ concat cs)"

lemma occurs_prefix:
  "occurs_at h p s \<Longrightarrow> k < length p \<Longrightarrow> suffix_matches h p (s + k) k \<and> h ! (s + k) = p ! k"
  by (auto simp: suffix_matches_def occurs_at_nth)

text \<open>After a mismatch nothing occurs before the position the table sends the search to.\<close>

lemma mismatch_skips:
  assumes "suffix_matches h p t j" "j < length p" "p ! j \<noteq> h ! t" "fail_entry p j e"
    and "\<And>s. s + j < t \<Longrightarrow> \<not> occurs_at h p s" "int s + e < int t"
  shows "\<not> occurs_at h p s"
proof
  assume occ: "occurs_at h p s"
  then have "t \<le> s + j" using assms(5) [of s] by force
  moreover have "s < t + 1" using assms(4,6) by (simp add: fail_entry_def)
  ultimately obtain k where k: "t = s + k" "k \<le> j" by (auto simp: le_iff_add less_Suc_eq_le)
  have m: "suffix_matches h p t k" "h ! t = p ! k"
    using occurs_prefix [OF occ, of k] k assms(2) by simp_all
  have "k < j" using m(2) assms(3) k(2) by (cases "k = j") auto
  then have "border p j k" using m(1) suffix_matches_shorter [OF assms(1), of k] by (simp add: border_def)
  then have "p ! k = p ! j" using assms(4,6) k(1) by (simp add: fail_entry_def)
  then show False using m(2) assms(3) by simp
qed

lemma drop_eq_Cons_nth: "drop t h = c # cs \<Longrightarrow> t < length h \<and> h ! t = c \<and> drop (Suc t) h = cs"
  by (cases "t < length h") (simp_all add: Cons_nth_drop_Suc [symmetric])

lemma rest_of_step:
  assumes "drop t h = rest_of (chunk # chunks) i" "i < length chunk"
  shows "t < length h" "h ! t = chunk ! i" "drop (Suc t) h = rest_of (chunk # chunks) (Suc i)"
proof -
  have "drop t h = chunk ! i # rest_of (chunk # chunks) (Suc i)"
    using assms by (simp add: rest_of_def Cons_nth_drop_Suc [symmetric])
  then show "t < length h" "h ! t = chunk ! i" "drop (Suc t) h = rest_of (chunk # chunks) (Suc i)"
    by (auto dest: drop_eq_Cons_nth)
qed

lemma kmp_loop_step:
  assumes "i < length chunk" "j < length p" "j < length table"
  shows "kmp_loop p table (chunk # chunks) i t (int j) =
    (if p ! j = chunk ! i then
       if Suc j = length p then Some (Inr (Some (Suc t - Suc j)))
       else kmp_loop p table (chunk # chunks) (Suc i) (Suc t) (int (Suc j))
     else if table ! j < 0 then kmp_loop p table (chunk # chunks) (Suc i) (Suc t) (table ! j + 1)
     else kmp_loop p table (chunk # chunks) i t (table ! j))"
  using assms by (subst kmp_loop.simps) (simp add: vec_at_ok add.commute nat_add_distrib)

lemma kmp_loop_spec:
  assumes "fail_table p table (length p)" "p \<noteq> []"
    and "drop t h = rest_of chunks i" "t \<le> length h" "suffix_matches h p t j" "j < length p"
    and "\<And>s. s + j < t \<Longrightarrow> \<not> occurs_at h p s"
  shows "kmp_loop p table chunks i t (int j) = Some (Inr (first_occurrence h p))"
  using assms
proof (induction "length chunks + 2 * (length h - t) + j" arbitrary: chunks i t j rule: less_induct)
  case less
  show ?case
  proof (cases chunks)
    case Nil
    then have "t = length h" using less.prems(3,4) by (simp add: rest_of_def)
    then have "\<not> occurs_at h p s" for s
      using less.prems(6) less.prems(7) [of s] by (auto simp: occurs_at_def)
    with Nil show ?thesis by (subst kmp_loop.simps) (simp add: no_occurrenceI)
  next
    case (Cons chunk chunks')
    show ?thesis
    proof (cases "length chunk \<le> i")
      case True
      have "drop t h = rest_of chunks' 0" using less.prems(3) True Cons by (cases chunks') (auto simp: rest_of_def)
      then have "kmp_loop p table chunks' 0 t (int j) = Some (Inr (first_occurrence h p))"
        using less.prems Cons by (intro less.hyps) auto
      with True Cons show ?thesis by (subst kmp_loop.simps) simp
    next
      case False
      then have i: "i < length chunk" by simp
      have t: "t < length h" "h ! t = chunk ! i" "drop (Suc t) h = rest_of chunks (Suc i)"
        using rest_of_step [OF less.prems(3) [unfolded Cons] i] Cons by simp_all
      define e where "e = table ! j"
      have e: "fail_entry p j e" "j < length table" using less.prems(1,6) by (auto simp: fail_table_def e_def)
      note unf = kmp_loop_step [OF i less.prems(6) e(2), of chunks' t, folded Cons e_def t(2)]
      consider "p ! j = h ! t" "Suc j = length p" | "p ! j = h ! t" "Suc j < length p"
        | "p ! j \<noteq> h ! t" "e = - 1" | k where "p ! j \<noteq> h ! t" "e = int k" "k < j"
        using less.prems(6) fail_entry_cases [OF e(1)] by (metis Suc_lessI)
      then show ?thesis
      proof cases
        case 1
        then have "suffix_matches h p (Suc t) (length p)" using less.prems(5) suffix_matches_Suc [of h p t j] by simp
        then have "first_occurrence h p = Some (Suc t - length p)"
          using t(1) 1 less.prems(7) by (intro first_occurrenceI suffix_matches_occurs) auto
        then show ?thesis using unf 1 by simp
      next
        case 2
        have "kmp_loop p table chunks (Suc i) (Suc t) (int (Suc j)) = Some (Inr (first_occurrence h p))"
          using less.prems t 2 by (intro less.hyps) (auto simp: suffix_matches_Suc)
        then show ?thesis using unf 2 by simp
      next
        case 3
        have "kmp_loop p table chunks (Suc i) (Suc t) (int 0) = Some (Inr (first_occurrence h p))"
          using less.prems t mismatch_skips [OF less.prems(5,6) 3(1) e(1) less.prems(7)] 3(2)
          by (intro less.hyps) auto
        then show ?thesis using unf 3 by simp
      next
        case 4
        have "suffix_matches h p t k"
          using e(1) 4 suffix_matches_shorter [OF less.prems(5), of k] by (auto simp: fail_entry_def border_def)
        then have "kmp_loop p table chunks i t (int k) = Some (Inr (first_occurrence h p))"
          using less.prems(1-4,6) 4 mismatch_skips [OF less.prems(5,6) 4(1) e(1) less.prems(7)]
          by (intro less.hyps) auto
        then show ?thesis using unf 4 by simp
      qed
    qed
  qed
qed

lemma memmem_chunks_first:
  assumes "p \<noteq> []"
  shows "memmem_chunks chunks p = Some (Inr (first_occurrence (concat chunks) p))"
proof -
  obtain tbl where tbl: "prepare_kmp_partial_table p = Some (Inr tbl)" "fail_table p tbl (length p)"
    using prepare_kmp_spec [OF assms] by blast
  have "kmp_loop p tbl chunks 0 0 (int 0) = Some (Inr (first_occurrence (concat chunks) p))"
    using tbl(2) assms by (intro kmp_loop_spec) (auto simp: rest_of_def split: list.splits)
  then show ?thesis using tbl(1) by (simp add: memmem_chunks_def)
qed

section \<open>The entry points\<close>

lemma occurs_at_full: "length h = length p \<Longrightarrow> occurs_at h p s \<longleftrightarrow> s = 0 \<and> h = p"
  by (auto simp: occurs_at_def)

lemma memmem_optional_first:
  assumes "length p \<noteq> 31 \<or> length h \<le> 31"
  shows "memmem_optional h p = Some (Inr (first_occurrence h p))"
proof -
  consider "p = []" | "length h < length p" | "p \<noteq> []" "length h = length p"
    | "p \<noteq> []" "length h > length p" "length p \<le> 30" | "length h > length p" "length p \<ge> 32"
    using assms by linarith
  then show ?thesis
  proof cases
    case 1
    then have "first_occurrence h p = Some 0" by (intro first_occurrenceI) (auto simp: occurs_at_def)
    with 1 show ?thesis by (simp add: memmem_optional_def)
  next
    case 2
    then have "first_occurrence h p = None" by (intro no_occurrenceI) (auto simp: occurs_at_def)
    with 2 show ?thesis by (auto simp: memmem_optional_def)
  next
    case 3
    then have "first_occurrence h p = (if h = p then Some 0 else None)"
      by (auto simp: occurs_at_full intro: first_occurrenceI no_occurrenceI)
    with 3 show ?thesis by (simp add: memmem_optional_def)
  next
    case 4
    then show ?thesis by (simp add: memmem_optional_def bitap_finds_first)
  next
    case 5
    then have "p \<noteq> []" by auto
    with 5 show ?thesis using memmem_chunks_first [of p "[h]"] by (simp add: memmem_optional_def)
  qed
qed

lemma memmem_first:
  "length p \<noteq> 31 \<or> length h \<le> 31 \<Longrightarrow> memmem h p = Some (Inr (first_occurrence h p))"
  by (simp add: memmem_def memmem_optional_first split: option.splits)

lemma memmem_optional_misses_31:
  "length p = 31 \<Longrightarrow> 31 < length h \<Longrightarrow> memmem_optional h p = Some (Inr None)"
  by (simp add: memmem_optional_def bitap_misses_31)

lemma memmem_total:
  "memmem h p = Some (Inr (if length p = 31 \<and> 31 < length h then None else first_occurrence h p))"
  using memmem_first [of p h] memmem_optional_misses_31 [of p h] by (auto simp: memmem_def)

end
