(* ===== verification/String_View.thy ===== *)
theory String_View
  imports Characters Mem_Search
begin

text \<open>
  \<open>base/StringView.h\<close>, \<open>base/StringView.cpp\<close> and \<open>base/StringUtils.cpp\<close>: views of
  character strings, their searches, comparisons, splitting, trimming and conversion to numbers.

  The characters of a view are a byte list. A view that may be null, where the code looks at
  that, is an option; \<open>is_null\<close> is \<open>None\<close>. Comparisons of \<open>char\<close>s are signed.
\<close>

type_synonym chars = "u8 list"
type_synonym view = "u8 list option"

definition view_chars :: "view \<Rightarrow> chars" where
  "view_chars v = (case v of None \<Rightarrow> [] | Some s \<Rightarrow> s)"

datatype case_sensitivity = CaseInsensitive | CaseSensitive
datatype trim_mode = TrimLeft | TrimRight | TrimBoth
datatype search_direction = Forward | Backward

section \<open>Views\<close>

definition StringView_substring_view :: "chars \<Rightarrow> nat \<Rightarrow> nat \<Rightarrow> chars res" where
  "StringView_substring_view s start len =
     verify (usz (start + len) \<le> length s)
       (if start + len \<le> length s then Inr (take len (drop start s)) else Inl Out_Of_Bounds)"

definition StringView_substring_view_from :: "chars \<Rightarrow> nat \<Rightarrow> chars res" where
  "StringView_substring_view_from s start = StringView_substring_view s start (usub (length s) start)"

text \<open>
  A substring of a view is given by its offset in it; the offset and the end of the substring
  are what the two checks of the code compare with the view's bounds.
\<close>

definition StringView_substring_view_starting_from_substring :: "chars \<Rightarrow> nat \<Rightarrow> chars res" where
  "StringView_substring_view_starting_from_substring s offset =
     verify (offset \<le> length s) (Inr (drop offset s))"

definition StringView_substring_view_starting_after_substring :: "chars \<Rightarrow> nat \<Rightarrow> nat \<Rightarrow> chars res" where
  "StringView_substring_view_starting_after_substring s offset len =
     verify (offset + len \<le> length s) (Inr (drop (offset + len) s))"

definition StringView_equals :: "view \<Rightarrow> view \<Rightarrow> bool" where
  "StringView_equals a b =
     (case a of None \<Rightarrow> b = None
      | Some s \<Rightarrow> (case b of None \<Rightarrow> False | Some t \<Rightarrow> if length s \<noteq> length t then False else s = t))"

text \<open>\<open>operator==(const char*)\<close>: the C string is its bytes before the terminator.\<close>

fun equals_cstring_loop :: "chars \<Rightarrow> chars \<Rightarrow> bool" where
  "equals_cstring_loop [] cp \<longleftrightarrow> cp = []"
| "equals_cstring_loop (c # s) [] \<longleftrightarrow> False"
| "equals_cstring_loop (c # s) (d # cp) \<longleftrightarrow> (if c \<noteq> d then False else equals_cstring_loop s cp)"

definition StringView_equals_cstring :: "view \<Rightarrow> chars option \<Rightarrow> bool" where
  "StringView_equals_cstring v cstring =
     (case v of None \<Rightarrow> cstring = None
      | Some s \<Rightarrow> (case cstring of None \<Rightarrow> False | Some cp \<Rightarrow> equals_cstring_loop s cp))"

text \<open>\<open>__builtin_memcmp\<close> compares unsigned bytes.\<close>

fun memcmp :: "chars \<Rightarrow> chars \<Rightarrow> nat \<Rightarrow> int" where
  "memcmp (a # s) (b # t) (Suc n) = (if a = b then memcmp s t n else if a < b then - 1 else 1)"
| "memcmp _ _ _ = 0"

definition StringView_less :: "chars \<Rightarrow> chars \<Rightarrow> bool" where
  "StringView_less s t =
     (let c = memcmp s t (min (length s) (length t))
      in if c \<noteq> 0 then c < 0 else length s < length t)"

definition StringView_starts_with_char :: "chars \<Rightarrow> u8 \<Rightarrow> bool" where
  "StringView_starts_with_char s ch = (if s = [] then False else ch = s ! 0)"

definition StringView_ends_with_char :: "chars \<Rightarrow> u8 \<Rightarrow> bool" where
  "StringView_ends_with_char s ch = (if s = [] then False else ch = s ! (length s - 1))"

fun StringView_contains_char :: "chars \<Rightarrow> u8 \<Rightarrow> bool" where
  "StringView_contains_char [] needle = False"
| "StringView_contains_char (current # s) needle = (if current = needle then True else StringView_contains_char s needle)"

section \<open>Splitting\<close>

text \<open>The loop shared by \<open>split_view(char)\<close> and \<open>split_view_if\<close>, over the characters still to come.\<close>

fun split_loop :: "(u8 \<Rightarrow> bool) \<Rightarrow> bool \<Rightarrow> chars \<Rightarrow> chars \<Rightarrow> nat \<Rightarrow> nat \<Rightarrow> chars list \<Rightarrow> (nat \<times> chars list) res" where
  "split_loop predicate keep_empty s [] i substart v = Inr (substart, v)"
| "split_loop predicate keep_empty s (ch # rest) i substart v =
     (if predicate ch then
        let sublen = i - substart in
        if sublen \<noteq> 0 \<or> keep_empty
        then rbind (StringView_substring_view s substart sublen) (\<lambda>part.
               split_loop predicate keep_empty s rest (i + 1) (i + 1) (v @ [part]))
        else split_loop predicate keep_empty s rest (i + 1) (i + 1) v
      else split_loop predicate keep_empty s rest (i + 1) substart v)"

definition StringView_split_view_if :: "(u8 \<Rightarrow> bool) \<Rightarrow> bool \<Rightarrow> chars \<Rightarrow> chars list res" where
  "StringView_split_view_if predicate keep_empty s =
     (if s = [] then Inr []
      else rbind (split_loop predicate keep_empty s s 0 0 []) (\<lambda>(substart, v).
             let taillen = length s - substart in
             if taillen \<noteq> 0 \<or> keep_empty
             then rbind (StringView_substring_view s substart taillen) (\<lambda>part. Inr (v @ [part]))
             else Inr v))"

definition StringView_split_view :: "u8 \<Rightarrow> bool \<Rightarrow> chars \<Rightarrow> chars list res" where
  "StringView_split_view separator keep_empty s =
     (if s = [] then Inr []
      else rbind (split_loop (\<lambda>ch. ch = separator) keep_empty s s 0 0 []) (\<lambda>(substart, v).
             let taillen = length s - substart in
             if taillen \<noteq> 0 \<or> keep_empty
             then rbind (StringView_substring_view s substart taillen) (\<lambda>part. Inr (v @ [part]))
             else Inr v))"

fun lines_loop :: "chars \<Rightarrow> chars \<Rightarrow> nat \<Rightarrow> nat \<Rightarrow> bool \<Rightarrow> chars list \<Rightarrow> (nat \<times> chars list) res" where
  "lines_loop s [] i substart last_ch_was_cr v = Inr (substart, v)"
| "lines_loop s (ch # rest) i substart last_ch_was_cr v =
     (let (split_view, substart) =
        (if ch = 0x0A then (if last_ch_was_cr then (False, i + 1) else (True, substart)) else (False, substart));
        (split_view, last_ch_was_cr) = (if ch = 0x0D then (True, True) else (split_view, False))
      in if split_view
         then rbind (StringView_substring_view s substart (i - substart)) (\<lambda>part.
                lines_loop s rest (i + 1) (i + 1) last_ch_was_cr (v @ [part]))
         else lines_loop s rest (i + 1) substart last_ch_was_cr v)"

definition StringView_lines :: "bool \<Rightarrow> chars \<Rightarrow> chars list res" where
  "StringView_lines consider_cr s =
     (if s = [] then Inr []
      else if \<not> consider_cr then StringView_split_view 0x0A True s
      else rbind (lines_loop s s 0 0 False []) (\<lambda>(substart, v).
             let taillen = length s - substart in
             if taillen \<noteq> 0
             then rbind (StringView_substring_view s substart taillen) (\<lambda>part. Inr (v @ [part]))
             else Inr v))"

section \<open>Searching\<close>

fun find_char_loop :: "chars \<Rightarrow> u8 \<Rightarrow> nat \<Rightarrow> nat option" where
  "find_char_loop [] needle i = None"
| "find_char_loop (c # s) needle i = (if c = needle then Some i else find_char_loop s needle (i + 1))"

definition find_char :: "chars \<Rightarrow> u8 \<Rightarrow> nat \<Rightarrow> nat option" where
  "find_char haystack needle start =
     (if start \<ge> length haystack then None else find_char_loop (drop start haystack) needle start)"

definition find_view :: "chars \<Rightarrow> chars \<Rightarrow> nat \<Rightarrow> nat option res option" where
  "find_view haystack needle start =
     (if start > length haystack then Some (Inr None)
      else xbind (memmem_optional (drop start haystack) needle) (\<lambda>index.
             Some (Inr (map_option (\<lambda>i. i + start) index))))"

fun find_last_loop :: "chars \<Rightarrow> u8 \<Rightarrow> nat \<Rightarrow> nat option" where
  "find_last_loop haystack needle 0 = None"
| "find_last_loop haystack needle (Suc i) =
     (if haystack ! i = needle then Some i else find_last_loop haystack needle i)"

definition find_last :: "chars \<Rightarrow> u8 \<Rightarrow> nat option" where
  "find_last haystack needle = find_last_loop haystack needle (length haystack)"

partial_function (option) find_all_loop :: "chars \<Rightarrow> chars \<Rightarrow> nat \<Rightarrow> nat list \<Rightarrow> nat list res option" where
  "find_all_loop haystack needle current_position positions =
     (if current_position \<le> length haystack then
        xbind (memmem_optional (drop current_position haystack) needle) (\<lambda>maybe_position.
          case maybe_position of
            None \<Rightarrow> Some (Inr positions)
          | Some p \<Rightarrow> find_all_loop haystack needle (current_position + p + 1) (positions @ [current_position + p]))
      else Some (Inr positions))"

definition find_all :: "chars \<Rightarrow> chars \<Rightarrow> nat list res option" where
  "find_all haystack needle = find_all_loop haystack needle 0 []"

fun find_any_forward :: "chars \<Rightarrow> chars \<Rightarrow> nat \<Rightarrow> nat option" where
  "find_any_forward [] needles i = None"
| "find_any_forward (c # s) needles i =
     (if StringView_contains_char needles c then Some i else find_any_forward s needles (i + 1))"

fun find_any_backward :: "chars \<Rightarrow> chars \<Rightarrow> nat \<Rightarrow> nat option" where
  "find_any_backward haystack needles 0 = None"
| "find_any_backward haystack needles (Suc i) =
     (if StringView_contains_char needles (haystack ! i) then Some i else find_any_backward haystack needles i)"

definition find_any_of :: "chars \<Rightarrow> chars \<Rightarrow> search_direction \<Rightarrow> nat option" where
  "find_any_of haystack needles direction =
     (if haystack = [] \<or> needles = [] then None
      else case direction of
          Forward \<Rightarrow> find_any_forward haystack needles 0
        | Backward \<Rightarrow> find_any_backward haystack needles (length haystack))"

text \<open>\<open>split_view(const StringView&)\<close>.\<close>

partial_function (option) split_string_loop ::
  "chars \<Rightarrow> bool \<Rightarrow> chars \<Rightarrow> chars list \<Rightarrow> nat option \<Rightarrow> chars list res option" where
  "split_string_loop separator keep_empty view parts maybe_separator_index =
     (case maybe_separator_index of
        None \<Rightarrow> Some (Inr (if keep_empty \<or> view \<noteq> [] then parts @ [view] else parts))
      | Some separator_index \<Rightarrow>
          lift_res (StringView_substring_view view 0 (separator_index + length separator)) (\<lambda>part_with_separator.
          lift_res (StringView_substring_view part_with_separator 0 separator_index) (\<lambda>part.
          lift_res (StringView_substring_view_starting_after_substring view 0 (length part_with_separator)) (\<lambda>view.
          xbind (find_view view separator 0) (\<lambda>maybe_separator_index.
            split_string_loop separator keep_empty view
              (if keep_empty \<or> separator_index > 0 then parts @ [part] else parts) maybe_separator_index)))))"

definition StringView_split_view_string :: "chars \<Rightarrow> bool \<Rightarrow> chars \<Rightarrow> chars list res option" where
  "StringView_split_view_string separator keep_empty s =
     lift_res (verify (separator \<noteq> []) (Inr ())) (\<lambda>_.
       if s = [] then Some (Inr [])
       else xbind (find_view s separator 0) (\<lambda>maybe_separator_index.
              split_string_loop separator keep_empty s [] maybe_separator_index))"

section \<open>Facts on views\<close>

lemma substring_view_ok [simp]:
  "start + len \<le> length s \<Longrightarrow> StringView_substring_view s start len = Inr (take len (drop start s))"
proof -
  assume le: "start + len \<le> length s"
  then have "usz (start + len) \<le> length s" by (metis le_trans mod_less_eq_dividend usz_def)
  with le show ?thesis by (simp add: StringView_substring_view_def)
qed

lemma StringView_equals_iff [simp]: "StringView_equals a b \<longleftrightarrow> a = b"
  by (auto simp: StringView_equals_def split: option.splits)

lemma equals_cstring_loop_iff [simp]: "equals_cstring_loop s cp \<longleftrightarrow> s = cp"
  by (induction s cp rule: equals_cstring_loop.induct) auto

lemma StringView_equals_cstring_iff [simp]: "StringView_equals_cstring a b \<longleftrightarrow> a = b"
  by (auto simp: StringView_equals_cstring_def split: option.splits)

lemma contains_char_iff [simp]: "StringView_contains_char s c \<longleftrightarrow> c \<in> set s"
  by (induction s c rule: StringView_contains_char.induct) auto

lemma starts_with_char_iff: "StringView_starts_with_char s c \<longleftrightarrow> (\<exists>t. s = c # t)"
  by (cases s) (auto simp: StringView_starts_with_char_def)

lemma ends_with_char_iff: "StringView_ends_with_char s c \<longleftrightarrow> (\<exists>t. s = t @ [c])"
  by (cases s rule: rev_cases) (auto simp: StringView_ends_with_char_def nth_append)

lemma StringView_less_lexord: "StringView_less s t \<longleftrightarrow> (s, t) \<in> lexord {(a, b). a < b}"
proof (induction s arbitrary: t)
  case Nil
  then show ?case by (cases t) (auto simp: StringView_less_def)
next
  case (Cons a s)
  show ?case
  proof (cases t)
    case (Cons b t')
    show ?thesis
    proof (cases "a = b")
      case True
      then have "StringView_less (a # s) t \<longleftrightarrow> StringView_less s t'"
        using Cons by (simp add: StringView_less_def)
      then show ?thesis using Cons.IH [of t'] True Cons by simp
    next
      case False
      then show ?thesis using Cons by (simp add: StringView_less_def Let_def)
    qed
  qed (simp add: StringView_less_def)
qed

section \<open>Splitting\<close>

fun segments :: "('a \<Rightarrow> bool) \<Rightarrow> 'a list \<Rightarrow> 'a list list" where
  "segments P [] = [[]]"
| "segments P (c # s) =
     (if P c then [] # segments P s else (case segments P s of x # xs \<Rightarrow> (c # x) # xs | [] \<Rightarrow> []))"

definition join :: "'a list \<Rightarrow> 'a list list \<Rightarrow> 'a list" where
  "join sep parts = (case parts of [] \<Rightarrow> [] | p # ps \<Rightarrow> p @ concat (map (\<lambda>q. sep @ q) ps))"

lemma segments_not_Nil [simp]: "segments P s \<noteq> []"
  by (induction s) (auto split: list.splits)

lemma join_segments: "join [sep] (segments (\<lambda>c. c = sep) s) = s"
proof (induction s)
  case (Cons c s)
  obtain x xs where x: "segments (\<lambda>c. c = sep) s = x # xs" by (meson neq_Nil_conv segments_not_Nil)
  with Cons show ?case by (auto simp: join_def)
qed (simp add: join_def)

lemma segments_free: "p \<in> set (segments P s) \<Longrightarrow> c \<in> set p \<Longrightarrow> \<not> P c"
proof (induction s arbitrary: p)
  case (Cons d s)
  obtain x xs where "segments P s = x # xs" by (meson neq_Nil_conv segments_not_Nil)
  with Cons.prems Cons.IH [of x] Cons.IH [of p] show ?case by (auto split: if_splits)
qed simp

text \<open>What the loop still has to produce when the current segment started \<open>pre\<close> characters ago.\<close>

definition finish_split :: "bool \<Rightarrow> chars list \<Rightarrow> chars list" where
  "finish_split keep_empty parts = filter (\<lambda>p. p \<noteq> [] \<or> keep_empty) parts"

fun extend_first :: "'a list \<Rightarrow> 'a list list \<Rightarrow> 'a list list" where
  "extend_first pre [] = [pre]"
| "extend_first pre (x # xs) = (pre @ x) # xs"

lemma finish_split_Cons:
  "finish_split keep (p # q # ps) = finish_split keep [p] @ finish_split keep (q # ps)"
  by (simp add: finish_split_def)

lemma split_loop_spec:
  assumes "s = done @ rest" "substart \<le> length done"
  shows "\<exists>substart' v'. split_loop P keep s rest (length done) substart v = Inr (substart', v') \<and>
    substart' \<le> length s \<and>
    v' @ finish_split keep [drop substart' s] =
      v @ finish_split keep (extend_first (drop substart done) (segments P rest))"
  using assms
proof (induction rest arbitrary: "done" substart v)
  case Nil
  then show ?case by simp
next
  case (Cons c rest)
  have s: "s = (done @ [c]) @ rest" using Cons.prems(1) by simp
  obtain x xs where x: "segments P rest = x # xs" by (meson neq_Nil_conv segments_not_Nil)
  show ?case
  proof (cases "P c")
    case True
    define part where "part = drop substart done"
    have sub: "StringView_substring_view s substart (length done - substart) = Inr part"
      using Cons.prems by (simp add: part_def)
    have "substart < length done \<longleftrightarrow> part \<noteq> []" by (simp add: part_def not_le)
    then have unf: "split_loop P keep s (c # rest) (length done) substart v =
        split_loop P keep s rest (length (done @ [c])) (length (done @ [c])) (v @ finish_split keep [part])"
      using True sub by (simp add: finish_split_def Let_def)
    show ?thesis
      using Cons.IH [OF s, of "length (done @ [c])" "v @ finish_split keep [part]"] x True
      unfolding unf by (simp add: finish_split_Cons flip: part_def)
  next
    case False
    then have unf: "split_loop P keep s (c # rest) (length done) substart v =
        split_loop P keep s rest (length (done @ [c])) substart v" by simp
    show ?thesis
      using Cons.IH [OF s, of substart v] x False Cons.prems(2) unfolding unf by simp
  qed
qed

lemma split_finish:
  assumes "substart \<le> length s"
  shows "(let taillen = length s - substart in
           if taillen \<noteq> 0 \<or> keep
           then rbind (StringView_substring_view s substart taillen) (\<lambda>part. Inr (v @ [part])) else Inr v) =
         Inr (v @ finish_split keep [drop substart s])"
  using assms by (simp add: finish_split_def Let_def)

lemma split_view_if_spec:
  "StringView_split_view_if P keep s = Inr (if s = [] then [] else finish_split keep (segments P s))"
proof (cases "s = []")
  case False
  obtain st v where "split_loop P keep s s 0 0 [] = Inr (st, v)" "st \<le> length s"
      "v @ finish_split keep [drop st s] = finish_split keep (segments P s)"
    using split_loop_spec [of s "[]" s 0 P keep "[]"] by (cases "segments P s") auto
  with False show ?thesis
    by (simp only: StringView_split_view_if_def split_finish if_False rbind_simps prod.case)
qed (simp add: StringView_split_view_if_def)

lemma split_view_eq_if: "StringView_split_view sep keep s = StringView_split_view_if (\<lambda>c. c = sep) keep s"
  by (simp add: StringView_split_view_def StringView_split_view_if_def)

lemma split_view_spec:
  "StringView_split_view sep keep s = Inr (if s = [] then [] else finish_split keep (segments (\<lambda>c. c = sep) s))"
  by (simp add: split_view_eq_if split_view_if_spec)

lemma split_view_join:
  "\<exists>parts. StringView_split_view sep True s = Inr parts \<and> join [sep] parts = s \<and> (\<forall>p. p \<in> set parts \<longrightarrow> sep \<notin> set p)"
  using join_segments [of sep s] segments_free [of _ "\<lambda>c. c = sep" s]
  by (auto simp: split_view_spec finish_split_def join_def)

section \<open>Lines\<close>

text \<open>A line ends with a newline, a carriage return, or the two in that order.\<close>

definition drop_lf :: "chars \<Rightarrow> chars" where
  "drop_lf s = (case s of [] \<Rightarrow> [] | c # t \<Rightarrow> if c = 0x0A then t else s)"

lemma length_drop_lf: "length (drop_lf s) \<le> length s"
  by (cases s) (simp_all add: drop_lf_def)

function line_parts :: "chars \<Rightarrow> chars list" where
  "line_parts [] = [[]]"
| "line_parts (c # s) =
     (if c = 0x0D then [] # line_parts (drop_lf s)
      else if c = 0x0A then [] # line_parts s
      else extend_first [c] (line_parts s))"
  by pat_completeness auto
termination
  by (relation "measure length") (auto simp: less_Suc_eq_le length_drop_lf)

definition drop_last_empty :: "chars list \<Rightarrow> chars list" where
  "drop_last_empty parts = butlast parts @ finish_split False [last parts]"

lemma line_parts_not_Nil [simp]: "line_parts s \<noteq> []"
proof (cases s)
  case (Cons c t)
  then show ?thesis by (cases "line_parts t") simp_all
qed simp

lemma drop_last_empty_simps:
  "drop_last_empty [p] = finish_split False [p]"
  "ps \<noteq> [] \<Longrightarrow> drop_last_empty (p # ps) = p # drop_last_empty ps"
  by (simp_all add: drop_last_empty_def)

lemma extend_first_simps:
  "extend_first a (extend_first b ps) = extend_first (a @ b) ps"
  "ps \<noteq> [] \<Longrightarrow> extend_first [] ps = ps"
  by (cases ps; simp)+

lemma lines_loop_step:
  "lines_loop s (0x0A # rest) i substart True v = lines_loop s rest (i + 1) (i + 1) False v"
  "lines_loop s (0x0A # rest) i substart False v =
     rbind (StringView_substring_view s substart (i - substart)) (\<lambda>part.
       lines_loop s rest (i + 1) (i + 1) False (v @ [part]))"
  "lines_loop s (0x0D # rest) i substart cr v =
     rbind (StringView_substring_view s substart (i - substart)) (\<lambda>part.
       lines_loop s rest (i + 1) (i + 1) True (v @ [part]))"
  "c \<noteq> 0x0A \<Longrightarrow> c \<noteq> 0x0D \<Longrightarrow> lines_loop s (c # rest) i substart cr v = lines_loop s rest (i + 1) substart False v"
  by simp_all

lemma lines_loop_spec:
  assumes "s = done @ rest" "substart \<le> length done" "cr \<Longrightarrow> substart = length done"
  shows "\<exists>substart' v'. lines_loop s rest (length done) substart cr v = Inr (substart', v') \<and>
    substart' \<le> length s \<and>
    v' @ finish_split False [drop substart' s] =
      v @ drop_last_empty (extend_first (drop substart done) (line_parts (if cr then drop_lf rest else rest)))"
  using assms
proof (induction rest arbitrary: "done" substart cr v)
  case Nil
  then show ?case by (simp add: drop_lf_def drop_last_empty_simps)
next
  case (Cons c rest)
  have s: "s = (done @ [c]) @ rest" using Cons.prems(1) by simp
  have sub: "StringView_substring_view s substart (length done - substart) = Inr (drop substart done)"
    using Cons.prems by simp
  note IH = Cons.IH [OF s]
  consider "c = 0x0A" cr | "c = 0x0A" "\<not> cr" | "c = 0x0D" | "c \<noteq> 0x0A" "c \<noteq> 0x0D" by blast
  then show ?case
  proof cases
    case 1
    then show ?thesis
      using IH [of "length (done @ [c])" False v] Cons.prems(3)
      by (simp add: lines_loop_step drop_lf_def extend_first_simps del: lines_loop.simps)
  next
    case 2
    then show ?thesis
      using IH [of "length (done @ [c])" False "v @ [drop substart done]"] sub
      by (simp add: lines_loop_step drop_lf_def extend_first_simps drop_last_empty_simps del: lines_loop.simps)
  next
    case 3
    then show ?thesis
      using IH [of "length (done @ [c])" True "v @ [drop substart done]"] sub
      by (simp add: lines_loop_step drop_lf_def extend_first_simps drop_last_empty_simps del: lines_loop.simps)
  next
    case 4
    then show ?thesis
      using IH [of substart False v] Cons.prems(2)
      by (simp add: lines_loop_step drop_lf_def extend_first_simps del: lines_loop.simps)
  qed
qed

lemma lines_spec:
  "StringView_lines True s = Inr (if s = [] then [] else drop_last_empty (line_parts s))"
proof (cases "s = []")
  case False
  obtain st v where "lines_loop s s 0 0 False [] = Inr (st, v)" "st \<le> length s"
      "v @ finish_split False [drop st s] = drop_last_empty (line_parts s)"
    using lines_loop_spec [of s "[]" s 0 False "[]"] by (auto simp: extend_first_simps)
  with False show ?thesis
    using split_finish [of st s False v] by (simp only: StringView_lines_def rbind_simps prod.case if_False) simp
qed (simp add: StringView_lines_def)

section \<open>Searching\<close>

lemma find_char_loop_spec: "find_char_loop s c i = map_option (\<lambda>k. i + k) (List.find (\<lambda>k. s ! k = c) [0..<length s])"
proof (induction s c i rule: find_char_loop.induct)
  case (2 d s c i)
  have "[0..<length (d # s)] = 0 # map Suc [0..<length s]" by (simp add: map_Suc_upt upt_conv_Cons del: upt_Suc)
  moreover have "List.find P (map Suc xs) = map_option Suc (List.find (\<lambda>k. P (Suc k)) xs)" for P xs
    by (induction xs) simp_all
  ultimately show ?case using 2 by (auto simp: option.map_comp o_def simp del: upt_Suc)
qed simp

lemma find_last_loop_Some:
  "find_last_loop h c n = Some i \<longleftrightarrow> i < n \<and> h ! i = c \<and> (\<forall>j. i < j \<and> j < n \<longrightarrow> h ! j \<noteq> c)"
  by (induction h c n rule: find_last_loop.induct) (auto simp: less_Suc_eq)

lemma find_last_loop_None: "find_last_loop h c n = None \<longleftrightarrow> (\<forall>j<n. h ! j \<noteq> c)"
  by (induction h c n rule: find_last_loop.induct) (auto simp: less_Suc_eq)

lemma occurs_at_drop: "n \<le> length h \<Longrightarrow> occurs_at (drop n h) p s \<longleftrightarrow> occurs_at h p (n + s)"
  by (auto simp: occurs_at_def add.commute)

lemma find_view_spec:
  assumes "length p \<noteq> 31" "start \<le> length h"
  shows "find_view h p start = Some (Inr (map_option (\<lambda>i. i + start) (first_occurrence (drop start h) p)))"
  using assms by (simp add: find_view_def memmem_optional_first)

lemma filter_upt_first:
  assumes "P (n + k)" "\<And>j. j < k \<Longrightarrow> \<not> P (n + j)" "n + k < m"
  shows "filter P [n..<m] = (n + k) # filter P [Suc (n + k)..<m]"
proof -
  have "[n..<m] = [n..<n + k] @ (n + k) # [Suc (n + k)..<m]"
    using assms(3) by (metis less_imp_le_nat upt_add_eq_append upt_conv_Cons le_add1 le_Suc_ex)
  moreover have "filter P [n..<n + k] = []"
    using assms(2) by (auto simp: filter_empty_conv) (metis le_Suc_ex add_less_cancel_left)
  ultimately show ?thesis using assms(1) by simp
qed

lemma find_all_loop_spec:
  assumes "length p \<noteq> 31"
  shows "find_all_loop h p n acc = Some (Inr (acc @ filter (occurs_at h p) [n..<Suc (length h)]))"
proof (induction "Suc (length h) - n" arbitrary: n acc rule: less_induct)
  case less
  show ?case
  proof (cases "n \<le> length h")
    case False
    then show ?thesis by (subst find_all_loop.simps) simp
  next
    case True
    show ?thesis
    proof (cases "first_occurrence (drop n h) p")
      case None
      then have "filter (occurs_at h p) [n..<Suc (length h)] = []"
        using True by (auto simp: first_occurrence_None_iff occurs_at_drop filter_empty_conv simp del: upt_Suc)
          (metis le_Suc_ex)
      with None True assms show ?thesis
        by (subst find_all_loop.simps) (simp add: memmem_optional_first del: upt_Suc)
    next
      case (Some k)
      then have k: "occurs_at h p (n + k)" "\<And>j. j < k \<Longrightarrow> \<not> occurs_at h p (n + j)"
        using True by (auto simp: first_occurrence_Some_iff occurs_at_drop)
      then have lt: "n + k < Suc (length h)" by (simp add: occurs_at_def)
      have "find_all_loop h p (Suc (n + k)) (acc @ [n + k]) =
          Some (Inr ((acc @ [n + k]) @ filter (occurs_at h p) [Suc (n + k)..<Suc (length h)]))"
        using lt by (intro less.hyps) simp
      then show ?thesis using Some True assms filter_upt_first [where P = "occurs_at h p", OF k lt]
        by (subst find_all_loop.simps) (simp add: memmem_optional_first add.assoc del: upt_Suc)
    qed
  qed
qed

lemma find_all_spec:
  "length p \<noteq> 31 \<Longrightarrow> find_all h p = Some (Inr (filter (occurs_at h p) [0..<Suc (length h)]))"
  by (simp add: find_all_def find_all_loop_spec del: upt_Suc)

end
