(* ===== verification/Unicode.thy ===== *)
theory Unicode
  imports String_View Word_Facts
begin

text \<open>
  Encodings of code points: \<open>StringBuilder::append_code_point\<close> of \<open>base/StringBuilder.cpp\<close>,
  \<open>base/Utf8View.cpp\<close> with its iterator, and \<open>base/Utf16View.cpp\<close> with its iterator.

  An iterator is the list of the units from its pointer to the end of the view, so that its
  \<open>m_length\<close> is the length of that list and the end iterator is \<open>[]\<close>. The cached lengths of
  the views are not modelled: they hold what \<open>calculate_length\<close> returns.
\<close>

section \<open>Encoding in UTF-8\<close>

definition StringBuilder_append_code_point :: "chars \<Rightarrow> u32 \<Rightarrow> chars" where
  "StringBuilder_append_code_point builder code_point =
     (if code_point \<le> 0x7f then builder @ [ucast code_point]
      else if code_point \<le> 0x07ff then
        builder @ [ucast ((drop_bit 6 code_point AND 0x1f) OR 0xc0)] @ [ucast ((code_point AND 0x3f) OR 0x80)]
      else if code_point \<le> 0xffff then
        builder @ [ucast ((drop_bit 12 code_point AND 0x0f) OR 0xe0)] @
          [ucast ((drop_bit 6 code_point AND 0x3f) OR 0x80)] @ [ucast ((code_point AND 0x3f) OR 0x80)]
      else if code_point \<le> 0x10ffff then
        builder @ [ucast ((drop_bit 18 code_point AND 0x07) OR 0xf0)] @
          [ucast ((drop_bit 12 code_point AND 0x3f) OR 0x80)] @
          [ucast ((drop_bit 6 code_point AND 0x3f) OR 0x80)] @ [ucast ((code_point AND 0x3f) OR 0x80)]
      else builder @ [0xef] @ [0xbf] @ [0xbd])"

definition StringBuilder_append_utf32 :: "chars \<Rightarrow> u32 list \<Rightarrow> chars" where
  "StringBuilder_append_utf32 builder code_points = foldl StringBuilder_append_code_point builder code_points"

section \<open>Iterating over UTF-8\<close>

text \<open>The length of the code point and the value of its first byte, if that makes sense.\<close>

definition decode_first_byte :: "u8 \<Rightarrow> (nat \<times> u32) option" where
  "decode_first_byte byte =
     (if byte AND 128 = 0 then Some (1, ucast byte)
      else if byte AND 64 = 0 then None
      else if byte AND 32 = 0 then Some (2, ucast (byte AND 31))
      else if byte AND 16 = 0 then Some (3, ucast (byte AND 15))
      else if byte AND 8 = 0 then Some (4, ucast (byte AND 7))
      else None)"

definition Utf8Iterator_underlying_length :: "chars \<Rightarrow> nat res" where
  "Utf8Iterator_underlying_length it =
     verify (length it > 0)
       (case decode_first_byte (it ! 0) of
          None \<Rightarrow> Inr 1
        | Some (n, _) \<Rightarrow>
            if n > length it then Inr 1
            else if list_all (\<lambda>b. drop_bit 6 b = 2) (take (n - 1) (drop 1 it)) then Inr n else Inr 1)"

definition Utf8Iterator_increment :: "chars \<Rightarrow> chars res" where
  "Utf8Iterator_increment it =
     verify (length it > 0)
       (rbind (Utf8Iterator_underlying_length it) (\<lambda>n.
          if n > length it then Inr (drop 1 it) else Inr (drop n it)))"

definition Utf8Iterator_underlying_bytes :: "chars \<Rightarrow> chars res" where
  "Utf8Iterator_underlying_bytes it = rbind (Utf8Iterator_underlying_length it) (\<lambda>n. Inr (take n it))"

fun utf8_extend :: "u32 \<Rightarrow> chars \<Rightarrow> u32" where
  "utf8_extend code_point [] = code_point"
| "utf8_extend code_point (b # bs) =
     (if drop_bit 6 b \<noteq> 2 then 0xFFFD else utf8_extend (push_bit 6 code_point OR ucast (b AND 63)) bs)"

definition Utf8Iterator_deref :: "chars \<Rightarrow> u32 res" where
  "Utf8Iterator_deref it =
     verify (length it > 0)
       (case decode_first_byte (it ! 0) of
          None \<Rightarrow> Inr 0xFFFD
        | Some (n, code_point) \<Rightarrow>
            if n > length it then Inr 0xFFFD else Inr (utf8_extend code_point (take (n - 1) (drop 1 it))))"

fun utf8_peek_loop :: "nat \<Rightarrow> chars \<Rightarrow> chars option res" where
  "utf8_peek_loop 0 it = Inr (Some it)"
| "utf8_peek_loop (Suc k) it =
     rbind (Utf8Iterator_increment it) (\<lambda>it. if it = [] then Inr None else utf8_peek_loop k it)"

definition Utf8Iterator_peek :: "nat \<Rightarrow> chars \<Rightarrow> u32 option res" where
  "Utf8Iterator_peek offset it =
     (if offset = 0 then
        if it = [] then Inr None else rbind (Utf8Iterator_deref it) (\<lambda>c. Inr (Some c))
      else rbind (utf8_peek_loop offset it) (\<lambda>r.
        case r of None \<Rightarrow> Inr None | Some it \<Rightarrow> rbind (Utf8Iterator_deref it) (\<lambda>c. Inr (Some c))))"

lemma utf8_increment_shorter: "Utf8Iterator_increment it = Inr it' \<Longrightarrow> length it' < length it"
  by (auto simp: Utf8Iterator_increment_def Utf8Iterator_underlying_length_def decode_first_byte_def verify_def rbind_def
      split: if_splits option.splits sum.splits)

text \<open>The range-based \<open>for\<close> over a view: its code points, each with the iterator it was read at.\<close>

function utf8_positions :: "chars \<Rightarrow> (chars \<times> u32) list res" where
  "utf8_positions it =
     (if it = [] then Inr []
      else rbind (Utf8Iterator_deref it) (\<lambda>c.
           case Utf8Iterator_increment it of
             Inl e \<Rightarrow> Inl e
           | Inr it' \<Rightarrow> rbind (utf8_positions it') (\<lambda>ps. Inr ((it, c) # ps))))"
  by pat_completeness auto
termination
  by (relation "measure length") (auto dest: utf8_increment_shorter)

declare utf8_positions.simps [simp del]

definition utf8_code_points :: "chars \<Rightarrow> u32 list res" where
  "utf8_code_points s = rbind (utf8_positions s) (\<lambda>ps. Inr (map snd ps))"

section \<open>UTF-8 views\<close>

definition Utf8View_calculate_length :: "chars \<Rightarrow> nat res" where
  "Utf8View_calculate_length s = rbind (utf8_code_points s) (\<lambda>cs. Inr (length cs))"

definition Utf8View_contains :: "chars \<Rightarrow> u32 \<Rightarrow> bool res" where
  "Utf8View_contains s needle = rbind (utf8_code_points s) (\<lambda>cs. Inr (needle \<in> set cs))"

definition Utf8View_byte_offset_of :: "chars \<Rightarrow> chars \<Rightarrow> nat res" where
  "Utf8View_byte_offset_of s it = verify (length it \<le> length s) (Inr (length s - length it))"

function iterator_at_byte_offset_loop :: "chars \<Rightarrow> nat \<Rightarrow> nat \<Rightarrow> chars res" where
  "iterator_at_byte_offset_loop it current_offset byte_offset =
     (if it = [] then Inr []
      else if current_offset \<ge> byte_offset then Inr it
      else rbind (Utf8Iterator_underlying_length it) (\<lambda>n.
        case Utf8Iterator_increment it of
          Inl e \<Rightarrow> Inl e
        | Inr it' \<Rightarrow> iterator_at_byte_offset_loop it' (current_offset + n) byte_offset))"
  by pat_completeness auto
termination
  by (relation "measure (\<lambda>(it, c, b). length it)") (auto dest: utf8_increment_shorter)

declare iterator_at_byte_offset_loop.simps [simp del]

definition Utf8View_iterator_at_byte_offset :: "chars \<Rightarrow> nat \<Rightarrow> chars res" where
  "Utf8View_iterator_at_byte_offset s byte_offset = iterator_at_byte_offset_loop s 0 byte_offset"

definition Utf8View_substring_view :: "chars \<Rightarrow> nat \<Rightarrow> nat \<Rightarrow> chars res" where
  "Utf8View_substring_view s byte_offset byte_length = StringView_substring_view s byte_offset byte_length"

function unicode_substring_loop :: "chars \<Rightarrow> chars \<Rightarrow> nat \<Rightarrow> nat \<Rightarrow> nat \<Rightarrow> nat \<Rightarrow> chars res" where
  "unicode_substring_loop s it code_point_index offset_in_bytes code_point_offset code_point_length =
     (if it = [] then Inl Verify_Failed
      else rbind (if code_point_index = code_point_offset then Utf8View_byte_offset_of s it else Inr offset_in_bytes)
        (\<lambda>offset_in_bytes.
          if code_point_index = usub (usz (code_point_offset + code_point_length)) 1 then
            rbind (Utf8Iterator_increment it) (\<lambda>it'.
            rbind (Utf8View_byte_offset_of s it') (\<lambda>end_offset.
              Utf8View_substring_view s offset_in_bytes (usub end_offset offset_in_bytes)))
          else case Utf8Iterator_increment it of
              Inl e \<Rightarrow> Inl e
            | Inr it' \<Rightarrow> unicode_substring_loop s it' (code_point_index + 1) offset_in_bytes code_point_offset code_point_length))"
  by pat_completeness auto
termination
  by (relation "measure (\<lambda>(s, it, r). length it)") (auto dest: utf8_increment_shorter)

declare unicode_substring_loop.simps [simp del]

definition Utf8View_unicode_substring_view :: "chars \<Rightarrow> nat \<Rightarrow> nat \<Rightarrow> chars res" where
  "Utf8View_unicode_substring_view s code_point_offset code_point_length =
     (if code_point_length = 0 then Inr []
      else unicode_substring_loop s s 0 0 code_point_offset code_point_length)"

text \<open>\<open>validate\<close> returns whether the view is valid and how many bytes are.\<close>

function utf8_validate_loop :: "chars \<Rightarrow> nat \<Rightarrow> bool \<times> nat" where
  "utf8_validate_loop s valid_bytes =
     (if s = [] then (True, valid_bytes)
      else case decode_first_byte (s ! 0) of
          None \<Rightarrow> (False, valid_bytes)
        | Some (n, _) \<Rightarrow>
            if n > length s \<or> \<not> list_all (\<lambda>b. drop_bit 6 b = 2) (take (n - 1) (drop 1 s)) then (False, valid_bytes)
            else utf8_validate_loop (drop n s) (valid_bytes + n))"
  by pat_completeness auto
termination
  by (relation "measure (\<lambda>(s, v). length s)") (auto simp: decode_first_byte_def split: if_splits)

declare utf8_validate_loop.simps [simp del]

definition Utf8View_validate :: "chars \<Rightarrow> bool \<times> nat" where
  "Utf8View_validate s = utf8_validate_loop s 0"

fun utf8_starts_with_loop :: "u32 list \<Rightarrow> u32 list \<Rightarrow> bool res" where
  "utf8_starts_with_loop ks [] = Inr True"
| "utf8_starts_with_loop [] (l # ls) = Inl Verify_Failed"
| "utf8_starts_with_loop (k # ks) (l # ls) = (if k \<noteq> l then Inr False else utf8_starts_with_loop ks ls)"

definition Utf8View_starts_with :: "chars \<Rightarrow> chars \<Rightarrow> bool res" where
  "Utf8View_starts_with s start =
     (if start = [] then Inr True
      else if s = [] then Inr False
      else rbind (utf8_code_points s) (\<lambda>ks. rbind (utf8_code_points start) (\<lambda>ls.
        if length ls > length ks then Inr False else utf8_starts_with_loop ks ls)))"

fun utf8_trim_left :: "(chars \<times> u32) list \<Rightarrow> u32 list \<Rightarrow> nat \<Rightarrow> nat \<Rightarrow> (nat \<times> nat) option res" where
  "utf8_trim_left [] characters substring_start substring_length = Inr (Some (substring_start, substring_length))"
| "utf8_trim_left ((it, c) # ps) characters substring_start substring_length =
     (if substring_length = 0 then Inr None
      else if c \<notin> set characters then Inr (Some (substring_start, substring_length))
      else rbind (Utf8Iterator_underlying_length it) (\<lambda>n.
        utf8_trim_left ps characters (substring_start + n) (substring_length - n)))"

fun utf8_trailing :: "(chars \<times> u32) list \<Rightarrow> u32 list \<Rightarrow> nat \<Rightarrow> nat res" where
  "utf8_trailing [] characters seen_whitespace_length = Inr seen_whitespace_length"
| "utf8_trailing ((it, c) # ps) characters seen_whitespace_length =
     (if c \<in> set characters
      then rbind (Utf8Iterator_underlying_length it) (\<lambda>n. utf8_trailing ps characters (seen_whitespace_length + n))
      else utf8_trailing ps characters 0)"

definition Utf8View_trim :: "chars \<Rightarrow> chars \<Rightarrow> trim_mode \<Rightarrow> chars res" where
  "Utf8View_trim s characters mode =
     rbind (utf8_code_points characters) (\<lambda>cs. rbind (utf8_positions s) (\<lambda>ps.
     rbind (if mode = TrimLeft \<or> mode = TrimBoth then utf8_trim_left ps cs 0 (length s) else Inr (Some (0, length s))) (\<lambda>l.
       case l of
         None \<Rightarrow> Inr []
       | Some (substring_start, substring_length) \<Rightarrow>
           if mode = TrimRight \<or> mode = TrimBoth then
             rbind (utf8_trailing ps cs 0) (\<lambda>seen.
               if seen \<ge> substring_length then Inr []
               else Utf8View_substring_view s substring_start (substring_length - seen))
           else Utf8View_substring_view s substring_start substring_length)))"

section \<open>UTF-16\<close>

definition code_point_to_utf16 :: "u16 list \<Rightarrow> u32 \<Rightarrow> u16 list res" where
  "code_point_to_utf16 string code_point =
     verify (is_unicode code_point)
       (if code_point < 0x10000 then Inr (string @ [ucast code_point])
        else let code_point = code_point - 0x10000 in
          Inr (string @ [ucast (0xd800 OR drop_bit 10 code_point)] @ [ucast (0xdc00 OR (code_point AND 0x3ff))]))"

fun to_utf16_loop :: "u32 list \<Rightarrow> u16 list \<Rightarrow> u16 list res" where
  "to_utf16_loop [] utf16_data = Inr utf16_data"
| "to_utf16_loop (c # cs) utf16_data = rbind (code_point_to_utf16 utf16_data c) (\<lambda>utf16_data. to_utf16_loop cs utf16_data)"

definition utf8_to_utf16 :: "chars \<Rightarrow> u16 list res" where
  "utf8_to_utf16 s = rbind (utf8_code_points s) (\<lambda>cs. to_utf16_loop cs [])"

definition utf32_to_utf16 :: "u32 list \<Rightarrow> u16 list res" where
  "utf32_to_utf16 cs = to_utf16_loop cs []"

definition is_high_surrogate :: "u16 \<Rightarrow> bool" where
  "is_high_surrogate code_unit \<longleftrightarrow> code_unit \<ge> 0xd800 \<and> code_unit \<le> 0xdbff"

definition is_low_surrogate :: "u16 \<Rightarrow> bool" where
  "is_low_surrogate code_unit \<longleftrightarrow> code_unit \<ge> 0xdc00 \<and> code_unit \<le> 0xdfff"

definition decode_surrogate_pair :: "u16 \<Rightarrow> u16 \<Rightarrow> u32 res" where
  "decode_surrogate_pair high_surrogate low_surrogate =
     verify (is_high_surrogate high_surrogate) (verify (is_low_surrogate low_surrogate)
       (Inr (push_bit 10 (ucast high_surrogate - 0xd800) + (ucast low_surrogate - 0xdc00) + 0x10000)))"

definition Utf16Iterator_length_in_code_units :: "u16 list \<Rightarrow> nat res" where
  "Utf16Iterator_length_in_code_units it =
     verify (length it > 0)
       (Inr (if is_high_surrogate (it ! 0) \<and> length it > 1 \<and> is_low_surrogate (it ! 1) then 2 else 1))"

definition Utf16Iterator_increment :: "u16 list \<Rightarrow> u16 list res" where
  "Utf16Iterator_increment it =
     rbind (Utf16Iterator_length_in_code_units it) (\<lambda>code_units.
       if code_units > length it then Inr [] else Inr (drop code_units it))"

definition Utf16Iterator_deref :: "u16 list \<Rightarrow> u32 res" where
  "Utf16Iterator_deref it =
     verify (length it > 0)
       (if is_high_surrogate (it ! 0) then
          if length it > 1 \<and> is_low_surrogate (it ! 1) then decode_surrogate_pair (it ! 0) (it ! 1) else Inr 0xfffd
        else if is_low_surrogate (it ! 0) then Inr 0xfffd
        else Inr (ucast (it ! 0)))"

lemma utf16_increment_shorter: "Utf16Iterator_increment it = Inr it' \<Longrightarrow> length it' < length it"
  by (auto simp: Utf16Iterator_increment_def Utf16Iterator_length_in_code_units_def verify_def rbind_def
      split: if_splits sum.splits)

function utf16_positions :: "u16 list \<Rightarrow> (u16 list \<times> u32) list res" where
  "utf16_positions it =
     (if it = [] then Inr []
      else rbind (Utf16Iterator_deref it) (\<lambda>c.
           case Utf16Iterator_increment it of
             Inl e \<Rightarrow> Inl e
           | Inr it' \<Rightarrow> rbind (utf16_positions it') (\<lambda>ps. Inr ((it, c) # ps))))"
  by pat_completeness auto
termination
  by (relation "measure length") (auto dest: utf16_increment_shorter)

declare utf16_positions.simps [simp del]

definition utf16_code_points :: "u16 list \<Rightarrow> u32 list res" where
  "utf16_code_points s = rbind (utf16_positions s) (\<lambda>ps. Inr (map snd ps))"

fun utf16_to_utf8_lenient :: "u16 list \<Rightarrow> chars \<Rightarrow> chars res" where
  "utf16_to_utf8_lenient [] builder = Inr builder"
| "utf16_to_utf8_lenient [u] builder = Inr (StringBuilder_append_code_point builder (ucast u))"
| "utf16_to_utf8_lenient (u # v # us) builder =
     (if is_high_surrogate u \<and> is_low_surrogate v
      then rbind (decode_surrogate_pair u v) (\<lambda>c. utf16_to_utf8_lenient us (StringBuilder_append_code_point builder c))
      else utf16_to_utf8_lenient (v # us) (StringBuilder_append_code_point builder (ucast u)))"

definition Utf16View_to_utf8 :: "u16 list \<Rightarrow> bool \<Rightarrow> chars res" where
  "Utf16View_to_utf8 s allow_invalid_code_units =
     (if allow_invalid_code_units then utf16_to_utf8_lenient s []
      else rbind (utf16_code_points s) (\<lambda>cs. Inr (foldl StringBuilder_append_code_point [] cs)))"

definition Utf16View_code_unit_at :: "u16 list \<Rightarrow> nat \<Rightarrow> u16 res" where
  "Utf16View_code_unit_at s index = verify (index < length s) (Inr (s ! index))"

definition Utf16View_code_point_at :: "u16 list \<Rightarrow> nat \<Rightarrow> u32 res" where
  "Utf16View_code_point_at s index =
     verify (index < length s)
       (rbind (Utf16View_code_unit_at s index) (\<lambda>code_point.
          if \<not> is_high_surrogate code_point \<and> \<not> is_low_surrogate code_point then Inr (ucast code_point)
          else if is_low_surrogate code_point \<or> index + 1 = length s then Inr (ucast code_point)
          else rbind (Utf16View_code_unit_at s (index + 1)) (\<lambda>second.
            if \<not> is_low_surrogate second then Inr (ucast code_point) else decode_surrogate_pair code_point second)))"

fun code_point_offset_loop :: "(u16 list \<times> u32) list \<Rightarrow> nat \<Rightarrow> nat \<Rightarrow> nat res" where
  "code_point_offset_loop [] code_unit_offset code_point_offset = Inr code_point_offset"
| "code_point_offset_loop ((it, _) # ps) code_unit_offset code_point_offset =
     (if code_unit_offset = 0 then Inr code_point_offset
      else rbind (Utf16Iterator_length_in_code_units it) (\<lambda>n.
        code_point_offset_loop ps (usub code_unit_offset n) (code_point_offset + 1)))"

definition Utf16View_code_point_offset_of :: "u16 list \<Rightarrow> nat \<Rightarrow> nat res" where
  "Utf16View_code_point_offset_of s code_unit_offset =
     rbind (utf16_positions s) (\<lambda>ps. code_point_offset_loop ps code_unit_offset 0)"

fun code_unit_offset_loop :: "(u16 list \<times> u32) list \<Rightarrow> nat \<Rightarrow> nat \<Rightarrow> nat res" where
  "code_unit_offset_loop [] code_point_offset code_unit_offset = Inr code_unit_offset"
| "code_unit_offset_loop ((it, _) # ps) code_point_offset code_unit_offset =
     (if code_point_offset = 0 then Inr code_unit_offset
      else rbind (Utf16Iterator_length_in_code_units it) (\<lambda>n.
        code_unit_offset_loop ps (code_point_offset - 1) (code_unit_offset + n)))"

definition Utf16View_code_unit_offset_of :: "u16 list \<Rightarrow> nat \<Rightarrow> nat res" where
  "Utf16View_code_unit_offset_of s code_point_offset =
     rbind (utf16_positions s) (\<lambda>ps. code_unit_offset_loop ps code_point_offset 0)"

definition Utf16View_substring_view :: "u16 list \<Rightarrow> nat \<Rightarrow> nat \<Rightarrow> u16 list res" where
  "Utf16View_substring_view s code_unit_offset code_unit_length =
     verify (code_unit_offset + code_unit_length < 2 ^ 32)
       (verify (code_unit_offset + code_unit_length \<le> length s)
         (Inr (take code_unit_length (drop code_unit_offset s))))"

function utf16_unicode_substring_loop :: "u16 list \<Rightarrow> u16 list \<Rightarrow> nat \<Rightarrow> nat \<Rightarrow> nat \<Rightarrow> nat \<Rightarrow> u16 list res" where
  "utf16_unicode_substring_loop s it code_point_index code_unit_offset code_point_offset code_point_length =
     (if it = [] then Inl Verify_Failed
      else
        let code_unit_offset = (if code_point_index = code_point_offset then length s - length it else code_unit_offset)
        in if code_point_index = usub (usz (code_point_offset + code_point_length)) 1 then
             rbind (Utf16Iterator_increment it) (\<lambda>it'.
               Utf16View_substring_view s code_unit_offset (usub (length s - length it') code_unit_offset))
           else case Utf16Iterator_increment it of
               Inl e \<Rightarrow> Inl e
             | Inr it' \<Rightarrow> utf16_unicode_substring_loop s it' (code_point_index + 1) code_unit_offset code_point_offset code_point_length)"
  by pat_completeness auto
termination
  by (relation "measure (\<lambda>(s, it, r). length it)") (auto dest: utf16_increment_shorter)

declare utf16_unicode_substring_loop.simps [simp del]

definition Utf16View_unicode_substring_view :: "u16 list \<Rightarrow> nat \<Rightarrow> nat \<Rightarrow> u16 list res" where
  "Utf16View_unicode_substring_view s code_point_offset code_point_length =
     (if code_point_length = 0 then Inr []
      else utf16_unicode_substring_loop s s 0 0 code_point_offset code_point_length)"

fun utf16_validate_loop :: "u16 list \<Rightarrow> nat \<Rightarrow> bool \<times> nat" where
  "utf16_validate_loop [] valid_code_units = (True, valid_code_units)"
| "utf16_validate_loop (u # us) valid_code_units =
     (if is_high_surrogate u then
        case us of
          [] \<Rightarrow> (False, valid_code_units)
        | v # us' \<Rightarrow>
            if \<not> is_low_surrogate v then (False, valid_code_units)
            else utf16_validate_loop us' (valid_code_units + 1 + 1)
      else if is_low_surrogate u then (False, valid_code_units)
      else utf16_validate_loop us (valid_code_units + 1))"

definition Utf16View_validate :: "u16 list \<Rightarrow> bool \<times> nat" where
  "Utf16View_validate s = utf16_validate_loop s 0"

definition Utf16View_calculate_length_in_code_points :: "u16 list \<Rightarrow> nat res" where
  "Utf16View_calculate_length_in_code_points s = rbind (utf16_code_points s) (\<lambda>cs. Inr (length cs))"

definition Utf16View_equals :: "u16 list \<Rightarrow> u16 list \<Rightarrow> bool" where
  "Utf16View_equals s other =
     (if length s = 0 then length other = 0
      else if length s \<noteq> length other then False
      else list_all2 (\<lambda>a b. a = b) s other)"

definition Utf16View_equals_ignoring_case :: "u16 list \<Rightarrow> u16 list \<Rightarrow> bool" where
  "Utf16View_equals_ignoring_case s other =
     (if length s = 0 then length other = 0
      else if length s \<noteq> length other then False
      else list_all2 (\<lambda>a b. to_ascii_lowercase (ucast a) = to_ascii_lowercase (ucast b)) s other)"

end
