(* ===== verification/Unicode_Roundtrip.thy ===== *)
theory Unicode_Roundtrip
  imports Unicode
begin

text \<open>
  What the encoders of code points write is what the iterators read back, and the conversions
  between UTF-8 and UTF-16 compose. Words are read as natural numbers: an encoded byte is a marker
  plus a digit of the code point in base 64.
\<close>

section \<open>Bytes of the encoding\<close>

definition marked :: "nat \<Rightarrow> nat \<Rightarrow> u8" where
  "marked marker digit = of_nat (marker + digit)"

lemma unat_mask_numerals:
  "unat (w AND 0x1f :: u32) = unat w mod 32" "unat (w AND 0x3f :: u32) = unat w mod 64"
  "unat (w AND 0x0f :: u32) = unat w mod 16" "unat (w AND 0x07 :: u32) = unat w mod 8"
proof -
  have m: "(0x1f :: u32) = mask 5" "(0x3f :: u32) = mask 6" "(0x0f :: u32) = mask 4" "(0x07 :: u32) = mask 3"
    by (simp_all add: mask_eq_exp_minus_1)
  show "unat (w AND 0x1f :: u32) = unat w mod 32" "unat (w AND 0x3f :: u32) = unat w mod 64"
    "unat (w AND 0x0f :: u32) = unat w mod 16" "unat (w AND 0x07 :: u32) = unat w mod 8"
    unfolding m by (simp_all add: unat_and_mask)
qed

lemma ucast_marked:
  assumes "unat (w :: u32) = d" "d < 2 ^ k" "marker = b * 2 ^ k" "marker + d < 256"
  shows "(ucast (w OR of_nat marker) :: u8) = marked marker d"
proof -
  have "marker < 2 ^ 32" using assms(4) by simp
  then have "unat (of_nat marker :: u32) = marker" by (simp add: unat_of_nat_less)
  then have "unat (w OR of_nat marker) = marker + d"
    using assms nat_or_shifted [OF assms(2), of b] by (simp add: unat_or add.commute)
  then have "unat (ucast (w OR of_nat marker) :: u8) = marker + d"
    using assms(4) by (simp add: unsigned_ucast_eq take_bit_nat_eq_self)
  moreover have "unat (marked marker d) = marker + d"
    using assms(4) by (simp add: marked_def unat_of_nat_less del: of_nat_add)
  ultimately show ?thesis by (simp add: word_unat_eq_iff)
qed

text \<open>The encoder, in arithmetic.\<close>

definition utf8_encoding :: "nat \<Rightarrow> chars" where
  "utf8_encoding n =
     (if n < 0x80 then [of_nat n]
      else if n < 0x800 then [marked 0xc0 (n div 64), marked 0x80 (n mod 64)]
      else if n < 0x10000 then [marked 0xe0 (n div 4096), marked 0x80 (n div 64 mod 64), marked 0x80 (n mod 64)]
      else [marked 0xf0 (n div 262144), marked 0x80 (n div 4096 mod 64), marked 0x80 (n div 64 mod 64),
            marked 0x80 (n mod 64)])"

lemma append_code_point_encoding:
  assumes "c \<le> 0x10ffff"
  shows "StringBuilder_append_code_point builder c = builder @ utf8_encoding (unat c)"
proof -
  define n where "n = unat c"
  have n: "n \<le> 0x10ffff" using assms by (simp add: n_def word_le_nat_alt)
  have ext: "(ucast ((w AND 0x3f) OR 0x80) :: u8) = marked 0x80 (unat w mod 64)" for w :: u32
    using ucast_marked [of "w AND 0x3f" "unat w mod 64" 6 "0x80" 2] by (simp add: unat_mask_numerals)
  have lead2: "(ucast ((drop_bit 6 c AND 0x1f) OR 0xc0) :: u8) = marked 0xc0 (n div 64)" if "n < 0x800"
  proof -
    have "n div 64 < 32" using that by (simp add: less_mult_imp_div_less)
    then show ?thesis
      using ucast_marked [of "drop_bit 6 c AND 0x1f" "n div 64" 5 "0xc0" 6] by (simp add: unat_mask_numerals unat_drop_bit n_def)
  qed
  have lead3: "(ucast ((drop_bit 12 c AND 0x0f) OR 0xe0) :: u8) = marked 0xe0 (n div 4096)" if "n < 0x10000"
  proof -
    have "n div 4096 < 16" using that by (simp add: less_mult_imp_div_less)
    then show ?thesis
      using ucast_marked [of "drop_bit 12 c AND 0x0f" "n div 4096" 4 "0xe0" 14] by (simp add: unat_mask_numerals unat_drop_bit n_def)
  qed
  have lead4: "(ucast ((drop_bit 18 c AND 0x07) OR 0xf0) :: u8) = marked 0xf0 (n div 262144)"
  proof -
    have "n div 262144 < 8" using n by (simp add: less_mult_imp_div_less)
    then show ?thesis
      using ucast_marked [of "drop_bit 18 c AND 0x07" "n div 262144" 3 "0xf0" 30] by (simp add: unat_mask_numerals unat_drop_bit n_def)
  qed
  have one: "(ucast c :: u8) = of_nat n" if "n < 0x80" by (simp add: n_def of_nat_unat)
  have le: "c \<le> 0x7f \<longleftrightarrow> n < 0x80" "c \<le> 0x7ff \<longleftrightarrow> n < 0x800" "c \<le> 0xffff \<longleftrightarrow> n < 0x10000"
    by (auto simp: n_def word_le_nat_alt)
  show ?thesis
    unfolding StringBuilder_append_code_point_def utf8_encoding_def ext n_def [symmetric]
    using assms le one lead2 lead3 lead4 by (simp add: ext unat_drop_bit flip: n_def)
qed

section \<open>Reading it back\<close>

lemma first_byte_1: "d < 0x80 \<Longrightarrow> decode_first_byte (of_nat d) = Some (1, of_nat d)"
proof -
  have "\<forall>k\<in>set [0..<0x80]. decode_first_byte (of_nat k) = Some (1, of_nat k)" by code_simp
  then show "d < 0x80 \<Longrightarrow> decode_first_byte (of_nat d) = Some (1, of_nat d)" by simp
qed

lemma first_byte_2: "d < 32 \<Longrightarrow> decode_first_byte (marked 0xc0 d) = Some (2, of_nat d)"
proof -
  have "\<forall>k\<in>set [0..<32]. decode_first_byte (marked 0xc0 k) = Some (2, of_nat k)" by code_simp
  then show "d < 32 \<Longrightarrow> decode_first_byte (marked 0xc0 d) = Some (2, of_nat d)" by simp
qed

lemma first_byte_3: "d < 16 \<Longrightarrow> decode_first_byte (marked 0xe0 d) = Some (3, of_nat d)"
proof -
  have "\<forall>k\<in>set [0..<16]. decode_first_byte (marked 0xe0 k) = Some (3, of_nat k)" by code_simp
  then show "d < 16 \<Longrightarrow> decode_first_byte (marked 0xe0 d) = Some (3, of_nat d)" by simp
qed

lemma first_byte_4: "d < 8 \<Longrightarrow> decode_first_byte (marked 0xf0 d) = Some (4, of_nat d)"
proof -
  have "\<forall>k\<in>set [0..<8]. decode_first_byte (marked 0xf0 k) = Some (4, of_nat k)" by code_simp
  then show "d < 8 \<Longrightarrow> decode_first_byte (marked 0xf0 d) = Some (4, of_nat d)" by simp
qed

lemma extension_byte:
  "d < 64 \<Longrightarrow> drop_bit 6 (marked 0x80 d) = 2 \<and> (ucast (marked 0x80 d AND 63) :: u32) = of_nat d"
proof -
  have "\<forall>k\<in>set [0..<64]. drop_bit 6 (marked 0x80 k) = 2 \<and> (ucast (marked 0x80 k AND 63) :: u32) = of_nat k"
    by code_simp
  then show "d < 64 \<Longrightarrow> drop_bit 6 (marked 0x80 d) = 2 \<and> (ucast (marked 0x80 d AND 63) :: u32) = of_nat d" by simp
qed

lemma utf8_extend_digit:
  assumes "d < 64" "v < 2 ^ 26"
  shows "utf8_extend (of_nat v) (marked 0x80 d # bs) = utf8_extend (of_nat (v * 64 + d)) bs"
proof -
  have v: "unat (of_nat v :: u32) = v" and d: "unat (of_nat d :: u32) = d"
    using assms by (simp_all add: unat_of_nat_less)
  have "unat (of_nat d OR push_bit 6 (of_nat v :: u32)) = d + v * 2 ^ 6"
    using assms v d unat_or_shifted [of "of_nat d :: u32" 6 "of_nat v"] by simp
  then have "push_bit 6 (of_nat v :: u32) OR of_nat d = of_nat (v * 64 + d)"
    using assms by (simp add: word_unat_eq_iff unat_of_nat_less or.commute del: of_nat_add of_nat_mult)
  then show ?thesis using extension_byte [OF assms(1)] by (simp del: of_nat_add of_nat_mult)
qed

text \<open>A digit sequence is one code point: what it takes to read and to skip it.\<close>

lemma utf8_read_one:
  assumes "decode_first_byte b = Some (Suc (length ds), v)" "list_all (\<lambda>b. drop_bit 6 b = 2) ds"
  shows "Utf8Iterator_deref (b # ds @ rest) = Inr (utf8_extend v ds)"
    and "Utf8Iterator_underlying_length (b # ds @ rest) = Inr (Suc (length ds))"
    and "Utf8Iterator_increment (b # ds @ rest) = Inr rest"
proof -
  show "Utf8Iterator_deref (b # ds @ rest) = Inr (utf8_extend v ds)"
    using assms by (simp add: Utf8Iterator_deref_def)
  show l: "Utf8Iterator_underlying_length (b # ds @ rest) = Inr (Suc (length ds))"
    using assms by (simp add: Utf8Iterator_underlying_length_def)
  show "Utf8Iterator_increment (b # ds @ rest) = Inr rest"
    by (simp add: Utf8Iterator_increment_def l)
qed

lemma utf8_encoding_shape:
  assumes "n \<le> 0x10ffff"
  shows "\<exists>b ds v. utf8_encoding n = b # ds \<and> decode_first_byte b = Some (Suc (length ds), v) \<and>
    list_all (\<lambda>b. drop_bit 6 b = 2) ds \<and> utf8_extend v ds = of_nat n"
proof -
  have d64: "n mod 64 < 64" "n div 64 mod 64 < 64" "n div 4096 mod 64 < 64" by simp_all
  have s2: "n div 64 * 64 + n mod 64 = n" by simp
  have "n div 4096 = n div 64 div 64" by (simp add: div_mult2_eq [symmetric])
  then have s3: "n div 4096 * 64 + n div 64 mod 64 = n div 64" by simp
  have "n div 262144 = n div 4096 div 64" by (simp add: div_mult2_eq [symmetric])
  then have s4: "n div 262144 * 64 + n div 4096 mod 64 = n div 4096" by simp
  consider "n < 0x80" | "0x80 \<le> n" "n < 0x800" | "0x800 \<le> n" "n < 0x10000" | "0x10000 \<le> n" by linarith
  then show ?thesis
  proof cases
    case 1
    then show ?thesis by (simp add: utf8_encoding_def first_byte_1)
  next
    case 2
    have "utf8_encoding n = [marked 0xc0 (n div 64), marked 0x80 (n mod 64)]"
      using 2 by (simp add: utf8_encoding_def)
    moreover have "n div 64 < 32" using 2 by (simp add: less_mult_imp_div_less)
    ultimately show ?thesis using d64 s2
      by (simp add: first_byte_2 extension_byte utf8_extend_digit del: utf8_extend.simps(2) of_nat_add of_nat_mult)
  next
    case 3
    have "utf8_encoding n = [marked 0xe0 (n div 4096), marked 0x80 (n div 64 mod 64), marked 0x80 (n mod 64)]"
      using 3 by (simp add: utf8_encoding_def)
    moreover have "n div 4096 < 16" "n div 64 < 2 ^ 26" using 3 by (simp_all add: less_mult_imp_div_less)
    ultimately show ?thesis using d64 s2 s3
      by (simp add: first_byte_3 extension_byte utf8_extend_digit del: utf8_extend.simps(2) of_nat_add of_nat_mult)
  next
    case 4
    have "utf8_encoding n = [marked 0xf0 (n div 262144), marked 0x80 (n div 4096 mod 64),
        marked 0x80 (n div 64 mod 64), marked 0x80 (n mod 64)]"
      using 4 by (simp add: utf8_encoding_def)
    moreover have b: "n div 262144 < 8" "n div 262144 < 2 ^ 26" "n div 4096 < 2 ^ 26" "n div 64 < 2 ^ 26"
      using assms by (simp_all add: less_mult_imp_div_less)
    moreover have "utf8_extend (of_nat (n div 262144)) [marked 0x80 (n div 4096 mod 64),
        marked 0x80 (n div 64 mod 64), marked 0x80 (n mod 64)] = of_nat n"
      by (simp only: utf8_extend_digit [OF d64(3) b(2)] s4 utf8_extend_digit [OF d64(2) b(3)] s3
          utf8_extend_digit [OF d64(1) b(4)] s2 utf8_extend.simps(1))
    ultimately show ?thesis using d64
      by (simp add: first_byte_4 extension_byte del: utf8_extend.simps(2))
  qed
qed

lemma utf8_positions_encoding:
  assumes "n \<le> 0x10ffff"
  shows "utf8_code_points (utf8_encoding n @ rest) = rbind (utf8_code_points rest) (\<lambda>cs. Inr (of_nat n # cs))"
proof -
  obtain b ds v where e: "utf8_encoding n = b # ds" "decode_first_byte b = Some (Suc (length ds), v)"
      "list_all (\<lambda>b. drop_bit 6 b = 2) ds" "utf8_extend v ds = of_nat n"
    using utf8_encoding_shape [OF assms] by blast
  have "utf8_positions (b # ds @ rest) = rbind (utf8_positions rest) (\<lambda>ps. Inr ((b # ds @ rest, of_nat n) # ps))"
    using utf8_read_one [OF e(2,3)] e(4) by (simp add: utf8_positions.simps [of "b # ds @ rest"])
  then show ?thesis by (cases "utf8_positions rest") (simp_all add: utf8_code_points_def e(1))
qed

lemma foldl_append_code_points:
  "list_all (\<lambda>c. c \<le> 0x10ffff) cs \<Longrightarrow>
   foldl StringBuilder_append_code_point b cs = b @ concat (map (\<lambda>c. utf8_encoding (unat c)) cs)"
  by (induction cs arbitrary: b) (simp_all add: append_code_point_encoding)

lemma utf8_code_points_concat:
  "list_all (\<lambda>c. c \<le> 0x10ffff) cs \<Longrightarrow>
   utf8_code_points (concat (map (\<lambda>c. utf8_encoding (unat c)) cs)) = Inr cs"
proof (induction cs)
  case Nil
  then show ?case by (simp add: utf8_code_points_def utf8_positions.simps)
next
  case (Cons c cs)
  then have "unat c \<le> 0x10ffff" by (simp add: word_le_nat_alt)
  with Cons show ?case by (simp add: utf8_positions_encoding)
qed

lemma utf8_roundtrip:
  "list_all (\<lambda>c. c \<le> 0x10ffff) cs \<Longrightarrow> utf8_code_points (StringBuilder_append_utf32 [] cs) = Inr cs"
  by (simp add: StringBuilder_append_utf32_def foldl_append_code_points utf8_code_points_concat)

section \<open>UTF-16\<close>

definition utf16_encoding :: "nat \<Rightarrow> u16 list" where
  "utf16_encoding n =
     (if n < 0x10000 then [of_nat n]
      else [of_nat (0xd800 + (n - 0x10000) div 1024), of_nat (0xdc00 + (n - 0x10000) mod 1024)])"

lemma ucast_surrogate:
  assumes "unat (w :: u32) = d" "d < 1024" "marker = b * 1024" "marker + d < 65536"
  shows "(ucast (of_nat marker OR w) :: u16) = of_nat (marker + d)"
proof -
  have "marker < 2 ^ 32" using assms(4) by simp
  then have "unat (of_nat marker :: u32) = marker" by (simp add: unat_of_nat_less)
  then have "unat (of_nat marker OR w) = marker + d"
    using assms nat_or_shifted [of d 10 b] by (simp add: unat_or or.commute add.commute)
  then have "unat (ucast (of_nat marker OR w) :: u16) = marker + d"
    using assms(4) by (simp add: unsigned_ucast_eq take_bit_nat_eq_self)
  moreover have "unat (of_nat (marker + d) :: u16) = marker + d"
    using assms(4) by (intro unat_of_nat_less) simp
  ultimately show ?thesis by (simp only: word_unat_eq_iff)
qed

lemma code_point_to_utf16_encoding:
  assumes "c \<le> 0x10ffff"
  shows "code_point_to_utf16 s c = Inr (s @ utf16_encoding (unat c))"
proof (cases "c < 0x10000")
  case True
  then have "unat c < 0x10000" by (simp add: word_less_nat_alt)
  then show ?thesis using True assms by (simp add: code_point_to_utf16_def is_unicode_def utf16_encoding_def of_nat_unat)
next
  case False
  define m where "m = unat c - 0x10000"
  have n: "0x10000 \<le> unat c" "unat c \<le> 0x10ffff" using False assms by (simp_all add: word_less_nat_alt word_le_nat_alt)
  have "m < 0x100000" using n by (simp add: m_def)
  then have m: "m div 1024 < 1024" "m mod 1024 < 1024" by (simp_all add: less_mult_imp_div_less)
  have sub: "unat (c - 0x10000) = m" using n False by (simp add: m_def unat_sub word_less_nat_alt word_le_nat_alt)
  have mask: "(0x3ff :: u32) = mask 10" by (simp add: mask_eq_exp_minus_1)
  have "unat ((c - 0x10000) AND 0x3ff) = m mod 1024" unfolding mask unat_and_mask sub by simp
  then have lo: "(ucast (0xdc00 OR ((c - 0x10000) AND 0x3ff)) :: u16) = of_nat (0xdc00 + m mod 1024)"
    using ucast_surrogate [of "(c - 0x10000) AND 0x3ff" "m mod 1024" "0xdc00" 55] m by simp
  have "unat (drop_bit 10 (c - 0x10000)) = m div 1024" using sub by (simp add: unat_drop_bit)
  then have hi: "(ucast (0xd800 OR drop_bit 10 (c - 0x10000)) :: u16) = of_nat (0xd800 + m div 1024)"
    using ucast_surrogate [of "drop_bit 10 (c - 0x10000)" "m div 1024" "0xd800" 54] m by simp
  show ?thesis using False assms n(1) hi lo
    by (simp add: code_point_to_utf16_def is_unicode_def utf16_encoding_def Let_def flip: m_def)
qed

lemma surrogate_ranges:
  "d < 1024 \<Longrightarrow> unat (of_nat (0xd800 + d) :: u16) = 0xd800 + d" "d < 1024 \<Longrightarrow> unat (of_nat (0xdc00 + d) :: u16) = 0xdc00 + d"
  by (rule unat_of_nat_less, simp)+

lemma is_surrogate_nat:
  "is_high_surrogate u \<longleftrightarrow> 0xd800 \<le> unat u \<and> unat u < 0xdc00"
  "is_low_surrogate u \<longleftrightarrow> 0xdc00 \<le> unat u \<and> unat u < 0xe000"
  by (auto simp: is_high_surrogate_def is_low_surrogate_def word_le_nat_alt)

lemma decode_surrogates:
  assumes "a < 1024" "b < 1024"
  shows "decode_surrogate_pair (of_nat (0xd800 + a)) (of_nat (0xdc00 + b)) = Inr (of_nat (a * 1024 + b + 0x10000))"
proof -
  let ?h = "ucast (of_nat (0xd800 + a) :: u16) :: u32" and ?l = "ucast (of_nat (0xdc00 + b) :: u16) :: u32"
  have u: "unat ?h = 0xd800 + a" "unat ?l = 0xdc00 + b"
    using surrogate_ranges(1) [OF assms(1)] surrogate_ranges(2) [OF assms(2)] by (simp_all add: unat_ucast_up)
  have "?h - 0xd800 = of_nat a" "?l - 0xdc00 = of_nat b"
  proof -
    have "?h = of_nat (0xd800 + a)" "?l = of_nat (0xdc00 + b)"
      using u assms by (simp_all add: word_unat_eq_iff unat_of_nat_less del: of_nat_add)
    then show "?h - 0xd800 = of_nat a" "?l - 0xdc00 = of_nat b" by simp_all
  qed
  moreover have "push_bit 10 (of_nat a :: u32) = of_nat (a * 1024)" by (simp add: push_bit_eq_mult)
  ultimately show ?thesis
    using assms surrogate_ranges(1) [OF assms(1)] surrogate_ranges(2) [OF assms(2)]
    by (simp add: decode_surrogate_pair_def is_surrogate_nat)
qed

lemma utf16_read_one:
  assumes "n \<le> 0x10ffff" "\<not> (0xd800 \<le> n \<and> n < 0xe000)"
  shows "Utf16Iterator_deref (utf16_encoding n @ rest) = Inr (of_nat n)"
    and "Utf16Iterator_increment (utf16_encoding n @ rest) = Inr rest"
proof -
  have "Utf16Iterator_deref (utf16_encoding n @ rest) = Inr (of_nat n) \<and>
      Utf16Iterator_increment (utf16_encoding n @ rest) = Inr rest"
  proof (cases "n < 0x10000")
    case True
    then have u: "unat (of_nat n :: u16) = n" by (simp add: unat_of_nat_less)
    then have "unat (ucast (of_nat n :: u16) :: u32) = n" by (simp add: unat_ucast_up)
    then have "(ucast (of_nat n :: u16) :: u32) = of_nat n" using True by (simp add: word_unat_eq_iff unat_of_nat_less)
    then show ?thesis using True u assms(2)
      by (auto simp: utf16_encoding_def Utf16Iterator_deref_def Utf16Iterator_increment_def
          Utf16Iterator_length_in_code_units_def is_surrogate_nat)
  next
    case False
    define m where "m = n - 0x10000"
    have m: "m div 1024 < 1024" "m mod 1024 < 1024" using assms(1) by (simp_all add: m_def less_mult_imp_div_less)
    have "of_nat (m div 1024 * 1024 + m mod 1024 + 0x10000) = (of_nat n :: u32)" using False by (simp add: m_def)
    then show ?thesis using False decode_surrogates [OF m] surrogate_ranges(1) [OF m(1)] surrogate_ranges(2) [OF m(2)] m
      by (simp add: utf16_encoding_def Utf16Iterator_deref_def Utf16Iterator_increment_def
          Utf16Iterator_length_in_code_units_def is_surrogate_nat flip: m_def del: of_nat_add of_nat_mult)
  qed
  then show "Utf16Iterator_deref (utf16_encoding n @ rest) = Inr (of_nat n)"
    "Utf16Iterator_increment (utf16_encoding n @ rest) = Inr rest" by simp_all
qed

lemma scalar_value_nat:
  "is_unicode_scalar_value c \<Longrightarrow> c \<le> 0x10ffff \<and> unat c \<le> 0x10ffff \<and> \<not> (0xd800 \<le> unat c \<and> unat c < 0xe000)"
  by (auto simp: is_unicode_scalar_value_def is_unicode_def is_unicode_surrogate_def word_le_nat_alt)

lemma utf16_code_points_encoding:
  assumes "is_unicode_scalar_value c"
  shows "utf16_code_points (utf16_encoding (unat c) @ rest) = rbind (utf16_code_points rest) (\<lambda>cs. Inr (c # cs))"
proof -
  let ?it = "utf16_encoding (unat c) @ rest"
  have "utf16_encoding (unat c) \<noteq> []" by (simp add: utf16_encoding_def)
  then have "utf16_positions ?it = rbind (utf16_positions rest) (\<lambda>ps. Inr ((?it, c) # ps))"
    using scalar_value_nat [OF assms] utf16_read_one [of "unat c" rest] by (simp add: utf16_positions.simps [of ?it])
  then show ?thesis by (cases "utf16_positions rest") (simp_all add: utf16_code_points_def)
qed

lemma to_utf16_loop_encoding:
  "list_all is_unicode_scalar_value cs \<Longrightarrow>
   to_utf16_loop cs out = Inr (out @ concat (map (\<lambda>c. utf16_encoding (unat c)) cs))"
proof (induction cs arbitrary: out)
  case (Cons c cs)
  then have "c \<le> 0x10ffff" by (simp add: scalar_value_nat)
  with Cons show ?case by (simp add: code_point_to_utf16_encoding)
qed simp

lemma utf16_code_points_concat:
  "list_all is_unicode_scalar_value cs \<Longrightarrow>
   utf16_code_points (concat (map (\<lambda>c. utf16_encoding (unat c)) cs)) = Inr cs"
proof (induction cs)
  case Nil
  then show ?case by (simp add: utf16_code_points_def utf16_positions.simps)
qed (simp add: utf16_code_points_encoding)

lemma utf16_roundtrip:
  "list_all is_unicode_scalar_value cs \<Longrightarrow> \<exists>us. utf32_to_utf16 cs = Inr us \<and> utf16_code_points us = Inr cs"
  by (simp add: utf32_to_utf16_def to_utf16_loop_encoding utf16_code_points_concat)

lemma utf8_utf16_utf8:
  assumes "list_all is_unicode_scalar_value cs"
  shows "rbind (utf8_to_utf16 (StringBuilder_append_utf32 [] cs)) (\<lambda>us. Utf16View_to_utf8 us False) =
    Inr (StringBuilder_append_utf32 [] cs)"
proof -
  have "list_all (\<lambda>c. c \<le> 0x10ffff) cs" using assms by (rule list.pred_mono_strong) (simp add: scalar_value_nat)
  from utf8_roundtrip [OF this] show ?thesis using assms
    by (simp add: utf8_to_utf16_def to_utf16_loop_encoding Utf16View_to_utf8_def utf16_code_points_concat
        flip: StringBuilder_append_utf32_def)
qed

text \<open>\<open>validate\<close> accepts a code point beyond the last, and the conversion to UTF-16 aborts on it.\<close>

lemma utf8_valid_but_aborts:
  "Utf8View_validate [0xF7, 0xBF, 0xBF, 0xBF] = (True, 4) \<and> utf8_to_utf16 [0xF7, 0xBF, 0xBF, 0xBF] = Inl Verify_Failed"
  by code_simp

end
