(* ===== verification/String_Utils.thy ===== *)
theory String_Utils
  imports String_View
begin

text \<open>
  \<open>base/StringUtils.cpp\<close>: trimming, conversion to numbers, comparisons that may ignore case, and
  \<open>to_snakecase\<close>.

  \<open>matches\<close> is not modelled: it reads beyond the end of its views, up to a terminator that a
  view need not have.
\<close>

section \<open>Trimming\<close>

text \<open>\<open>None\<close> is the early return of the empty string.\<close>

fun trim_left_loop :: "chars \<Rightarrow> chars \<Rightarrow> nat \<Rightarrow> nat \<Rightarrow> (nat \<times> nat) option" where
  "trim_left_loop characters [] substring_start substring_length = Some (substring_start, substring_length)"
| "trim_left_loop characters (c # s) substring_start substring_length =
     (if substring_length = 0 then None
      else if \<not> StringView_contains_char characters c then Some (substring_start, substring_length)
      else trim_left_loop characters s (substring_start + 1) (substring_length - 1))"

fun trim_right_loop :: "chars \<Rightarrow> chars \<Rightarrow> nat \<Rightarrow> nat \<Rightarrow> nat option res" where
  "trim_right_loop characters s i substring_length =
     (if i = 0 then Inr (Some substring_length)
      else if substring_length = 0 then Inr None
      else rbind (read_at s i) (\<lambda>c.
             if \<not> StringView_contains_char characters c then Inr (Some substring_length)
             else trim_right_loop characters s (i - 1) (substring_length - 1)))"

declare trim_right_loop.simps [simp del]

definition trim :: "chars \<Rightarrow> chars \<Rightarrow> trim_mode \<Rightarrow> chars res" where
  "trim s characters mode =
     (case (if mode = TrimLeft \<or> mode = TrimBoth then trim_left_loop characters s 0 (length s) else Some (0, length s)) of
        None \<Rightarrow> Inr []
      | Some (substring_start, substring_length) \<Rightarrow>
          if mode = TrimRight \<or> mode = TrimBoth then
            rbind (trim_right_loop characters s (usub (length s) 1) substring_length) (\<lambda>r.
              case r of None \<Rightarrow> Inr [] | Some substring_length \<Rightarrow>
                StringView_substring_view s substring_start substring_length)
          else StringView_substring_view s substring_start substring_length)"

definition whitespace_characters :: chars where
  "whitespace_characters = [0x20, 0x0A, 0x09, 0x0B, 0x0C, 0x0D]"

definition trim_whitespace :: "chars \<Rightarrow> trim_mode \<Rightarrow> chars res" where
  "trim_whitespace s mode = trim s whitespace_characters mode"

section \<open>Numbers\<close>

text \<open>
  \<open>__builtin_mul_overflow\<close> and \<open>__builtin_add_overflow\<close> compute exactly and report a result
  outside the range of the type, \<open>lo\<close> to \<open>hi\<close>.
\<close>

definition checked_value :: "int \<Rightarrow> int \<Rightarrow> int \<Rightarrow> int option" where
  "checked_value lo hi v = (if lo \<le> v \<and> v \<le> hi then Some v else None)"

fun convert_to_int_loop :: "int \<Rightarrow> int \<Rightarrow> int \<Rightarrow> chars \<Rightarrow> int \<Rightarrow> int option" where
  "convert_to_int_loop lo hi sign [] value = Some value"
| "convert_to_int_loop lo hi sign (c # s) value =
     (if sint c < 0x30 \<or> sint c > 0x39 then None
      else Option.bind (checked_value lo hi (value * 10)) (\<lambda>value.
           Option.bind (checked_value lo hi (value + sign * (sint c - 0x30))) (\<lambda>value.
           convert_to_int_loop lo hi sign s value)))"

text \<open>\<open>convert_to_int<T>\<close> for a signed type of \<open>w\<close> bits.\<close>

definition convert_to_int :: "nat \<Rightarrow> chars \<Rightarrow> bool \<Rightarrow> int option res" where
  "convert_to_int w str trim_ws =
     rbind (if trim_ws then trim_whitespace str TrimBoth else Inr str) (\<lambda>string.
       if string = [] then Inr None
       else if string ! 0 = 0x2D \<or> string ! 0 = 0x2B then
         if length string = 1 then Inr None
         else Inr (convert_to_int_loop (- (2 ^ (w - 1))) (2 ^ (w - 1) - 1)
                (if string ! 0 = 0x2D then - 1 else 1) (drop 1 string) 0)
       else Inr (convert_to_int_loop (- (2 ^ (w - 1))) (2 ^ (w - 1) - 1) 1 string 0))"

fun convert_to_uint_loop :: "int \<Rightarrow> int \<Rightarrow> chars \<Rightarrow> int \<Rightarrow> int option" where
  "convert_to_uint_loop lo hi [] value = Some value"
| "convert_to_uint_loop lo hi (c # s) value =
     (if sint c < 0x30 \<or> sint c > 0x39 then None
      else Option.bind (checked_value lo hi (value * 10)) (\<lambda>value.
           Option.bind (checked_value lo hi (value + (sint c - 0x30))) (\<lambda>value.
           convert_to_uint_loop lo hi s value)))"

text \<open>\<open>convert_to_uint<T>\<close> is instantiated for unsigned types and for \<open>long\<close>; its range is \<open>lo\<close> to \<open>hi\<close>.\<close>

definition convert_to_uint :: "int \<Rightarrow> int \<Rightarrow> chars \<Rightarrow> bool \<Rightarrow> int option res" where
  "convert_to_uint lo hi str trim_ws =
     rbind (if trim_ws then trim_whitespace str TrimBoth else Inr str) (\<lambda>string.
       if string = [] then Inr None else Inr (convert_to_uint_loop lo hi string 0))"

fun convert_hex_loop :: "nat \<Rightarrow> chars \<Rightarrow> nat \<Rightarrow> nat option" where
  "convert_hex_loop w [] value = Some value"
| "convert_hex_loop w (digit # s) value =
     (if value > (2 ^ w - 1) div 16 then None
      else if sint digit \<ge> 0x30 \<and> sint digit \<le> 0x39 then
        convert_hex_loop w s ((value * 16 + nat (sint digit - 0x30)) mod 2 ^ w)
      else if sint digit \<ge> 0x61 \<and> sint digit \<le> 0x66 then
        convert_hex_loop w s ((value * 16 + nat (10 + (sint digit - 0x61))) mod 2 ^ w)
      else if sint digit \<ge> 0x41 \<and> sint digit \<le> 0x46 then
        convert_hex_loop w s ((value * 16 + nat (10 + (sint digit - 0x41))) mod 2 ^ w)
      else None)"

text \<open>\<open>convert_to_uint_from_hex<T>\<close> for an unsigned type of \<open>w\<close> bits.\<close>

definition convert_to_uint_from_hex :: "nat \<Rightarrow> chars \<Rightarrow> bool \<Rightarrow> nat option res" where
  "convert_to_uint_from_hex w str trim_ws =
     rbind (if trim_ws then trim_whitespace str TrimBoth else Inr str) (\<lambda>string.
       if string = [] then Inr None else Inr (convert_hex_loop w string 0))"

section \<open>Comparisons\<close>

fun equal_lowercase :: "chars \<Rightarrow> chars \<Rightarrow> bool" where
  "equal_lowercase (a # s) (b # t) = (if lower_char a \<noteq> lower_char b then False else equal_lowercase s t)"
| "equal_lowercase s t = True"

definition equals_ignoring_case :: "chars \<Rightarrow> chars \<Rightarrow> bool" where
  "equals_ignoring_case a b = (if length a \<noteq> length b then False else equal_lowercase a b)"

definition ends_with :: "chars \<Rightarrow> chars \<Rightarrow> case_sensitivity \<Rightarrow> bool" where
  "ends_with str ending sensitivity =
     (if ending = [] then True
      else if str = [] then False
      else if length ending > length str then False
      else if sensitivity = CaseSensitive
      then memcmp (drop (length str - length ending) str) ending (length ending) = 0
      else equal_lowercase (drop (length str - length ending) str) ending)"

text \<open>The shortcut of \<open>starts_with\<close> for two views of one buffer returns what the comparison returns.\<close>

definition starts_with :: "chars \<Rightarrow> chars \<Rightarrow> case_sensitivity \<Rightarrow> bool" where
  "starts_with str start sensitivity =
     (if start = [] then True
      else if str = [] then False
      else if length start > length str then False
      else if sensitivity = CaseSensitive then memcmp str start (length start) = 0
      else equal_lowercase str start)"

text \<open>The inner loop of \<open>contains\<close>: \<open>Return\<close> from the function, or on with the outer index.\<close>

function contains_inner :: "chars \<Rightarrow> chars \<Rightarrow> nat \<Rightarrow> nat \<Rightarrow> (bool, nat) flow" where
  "contains_inner str needle si ni =
     (if si + ni < length str then
        if lower_char (str ! (si + ni)) \<noteq> lower_char (needle ! ni) then Continue (si + ni)
        else if ni + 1 = length needle then Return True
        else contains_inner str needle si (ni + 1)
      else Continue si)"
  by pat_completeness auto
termination
  by (relation "measure (\<lambda>(str, needle, si, ni). length str - ni)") auto

declare contains_inner.simps [simp del]

lemma contains_inner_ge: "contains_inner str needle si ni = Continue k \<Longrightarrow> si \<le> k"
  by (induction str needle si ni rule: contains_inner.induct)
    (subst (asm) (2) contains_inner.simps, auto split: if_splits)

function contains_outer :: "chars \<Rightarrow> chars \<Rightarrow> nat \<Rightarrow> bool" where
  "contains_outer str needle si =
     (if si < length str then
        if lower_char (str ! si) \<noteq> lower_char (needle ! 0) then contains_outer str needle (si + 1)
        else case contains_inner str needle si 0 of Return b \<Rightarrow> b | Continue k \<Rightarrow> contains_outer str needle (k + 1)
      else False)"
  by pat_completeness auto
termination
  by (relation "measure (\<lambda>(str, needle, si). length str - si)") (auto dest: contains_inner_ge)

declare contains_outer.simps [simp del]

definition contains :: "view \<Rightarrow> view \<Rightarrow> case_sensitivity \<Rightarrow> bool res option" where
  "contains str needle sensitivity =
     (let s = view_chars str; n = view_chars needle in
      if str = None \<or> needle = None \<or> s = [] \<or> length n > length s then Some (Inr False)
      else if n = [] then Some (Inr True)
      else if sensitivity = CaseSensitive then xbind (memmem s n) (\<lambda>r. Some (Inr (r \<noteq> None)))
      else Some (Inr (contains_outer s n 0)))"

definition is_whitespace :: "chars \<Rightarrow> bool" where
  "is_whitespace str = list_all (\<lambda>c. is_ascii_space (char_code c)) str"

section \<open>Snake case\<close>

definition should_insert_underscore :: "chars \<Rightarrow> nat \<Rightarrow> u8 \<Rightarrow> bool" where
  "should_insert_underscore str i current_char =
     (if i = 0 then False
      else if is_ascii_lower_alpha (char_code (str ! (i - 1))) \<and> is_ascii_upper_alpha (char_code current_char) then True
      else if i \<ge> length str - 1 then False
      else if is_ascii_upper_alpha (char_code current_char) \<and> is_ascii_lower_alpha (char_code (str ! (i + 1))) then True
      else False)"

definition append_as_lowercase :: "chars \<Rightarrow> u8 \<Rightarrow> chars" where
  "append_as_lowercase builder ch =
     (if sint ch \<ge> 0x41 \<and> sint ch \<le> 0x5A then builder @ [ch + 0x20] else builder @ [ch])"

fun snakecase_loop :: "chars \<Rightarrow> chars \<Rightarrow> nat \<Rightarrow> chars \<Rightarrow> chars" where
  "snakecase_loop str [] i builder = builder"
| "snakecase_loop str (ch # rest) i builder =
     snakecase_loop str rest (i + 1)
       (append_as_lowercase (if should_insert_underscore str i ch then builder @ [0x5F] else builder) ch)"

definition to_snakecase :: "chars \<Rightarrow> chars" where
  "to_snakecase str = snakecase_loop str str 0 []"

section \<open>What trimming returns\<close>

definition strip_left :: "('a \<Rightarrow> bool) \<Rightarrow> 'a list \<Rightarrow> 'a list" where
  "strip_left P s = dropWhile P s"

definition strip_right :: "('a \<Rightarrow> bool) \<Rightarrow> 'a list \<Rightarrow> 'a list" where
  "strip_right P s = rev (dropWhile P (rev s))"

lemma trim_left_loop_spec:
  "trim_left_loop cs s k (length s) = Some (k + length (takeWhile (\<lambda>c. c \<in> set cs) s), length (dropWhile (\<lambda>c. c \<in> set cs) s))"
  by (induction s arbitrary: k) simp_all

lemma trim_right_loop_stops:
  assumes "s ! j \<notin> set cs" "\<And>m. j < m \<Longrightarrow> m \<le> i \<Longrightarrow> s ! m \<in> set cs" "j \<le> i" "i < length s" "k \<le> j"
  shows "trim_right_loop cs s i (i + 1 - k) = Inr (Some (j + 1 - k))"
  using assms
proof (induction i)
  case 0
  then show ?case by (simp add: trim_right_loop.simps [of cs s 0])
next
  case (Suc i)
  show ?case
  proof (cases "j = Suc i")
    case True
    then show ?thesis using Suc.prems by (simp add: trim_right_loop.simps [of cs s "Suc i"] read_at_ok)
  next
    case False
    then have "trim_right_loop cs s i (i + 1 - k) = Inr (Some (j + 1 - k))"
      using Suc.prems by (intro Suc.IH) auto
    then show ?thesis using Suc.prems False
      by (simp add: trim_right_loop.simps [of cs s "Suc i"] read_at_ok Suc_diff_le)
  qed
qed

lemma trim_right_loop_all:
  assumes "\<And>m. 0 < m \<Longrightarrow> m \<le> i \<Longrightarrow> s ! m \<in> set cs" "i < length s"
  shows "trim_right_loop cs s i (i + 1) = Inr (Some 1)"
  using assms
proof (induction i)
  case 0
  then show ?case by (simp add: trim_right_loop.simps [of cs s 0])
next
  case (Suc i)
  then have "trim_right_loop cs s i (i + 1) = Inr (Some 1)" by simp
  then show ?case using Suc.prems by (simp add: trim_right_loop.simps [of cs s "Suc i"] read_at_ok)
qed

text \<open>The last character that is not trimmed, when there is one.\<close>

lemma last_kept:
  assumes "\<exists>c\<in>set s. \<not> P c"
  obtains j where "j < length s" "\<not> P (s ! j)" "\<And>m. j < m \<Longrightarrow> m < length s \<Longrightarrow> P (s ! m)"
    and "strip_right P s = take (Suc j) s" "length (takeWhile P s) \<le> j"
proof -
  obtain c ys zs where s: "s = ys @ c # zs" "\<not> P c" "\<forall>z\<in>set zs. P z"
    using split_list_last_prop [OF assms] by blast
  have "strip_right P s = take (Suc (length ys)) s"
    using s by (simp add: strip_right_def dropWhile_append3 dropWhile_append2)
  moreover have "length (takeWhile P s) \<le> length ys"
    using s by (metis length_takeWhile_less_P_nth linorder_not_le nth_append_length takeWhile_nth nth_mem set_takeWhileD)
  ultimately show ?thesis
    using s by (intro that [of "length ys"]) (auto simp: nth_append nth_Cons')
qed

lemma trim_left: "trim s cs TrimLeft = Inr (strip_left (\<lambda>c. c \<in> set cs) s)"
proof -
  let ?P = "\<lambda>c. c \<in> set cs"
  have "length (takeWhile ?P s) + length (dropWhile ?P s) = length s"
    by (metis length_append takeWhile_dropWhile_id)
  then show ?thesis using trim_left_loop_spec [of cs s 0]
    by (simp add: trim_def strip_left_def dropWhile_eq_drop)
qed

lemma trim_right:
  assumes "\<exists>c\<in>set s. c \<notin> set cs" "length s < 2 ^ 32"
  shows "trim s cs TrimRight = Inr (strip_right (\<lambda>c. c \<in> set cs) s)"
proof -
  obtain j where j: "j < length s" "s ! j \<notin> set cs" "\<And>m. j < m \<Longrightarrow> m < length s \<Longrightarrow> s ! m \<in> set cs"
      "strip_right (\<lambda>c. c \<in> set cs) s = take (Suc j) s"
    using last_kept [OF assms(1)] by blast
  have "trim_right_loop cs s (length s - 1) (length s - 1 + 1 - 0) = Inr (Some (j + 1 - 0))"
    using j by (intro trim_right_loop_stops) auto
  moreover have "usub (length s) 1 = length s - 1" "length s - 1 + 1 - 0 = length s" using j(1) assms(2) by simp_all
  ultimately show ?thesis using j by (simp add: trim_def Suc_le_eq)
qed

lemma trim_right_blank:
  assumes "set s \<subseteq> set cs" "s \<noteq> []" "length s < 2 ^ 32"
  shows "trim s cs TrimRight = Inr [hd s]"
proof -
  have "trim_right_loop cs s (length s - 1) (length s - 1 + 1) = Inr (Some 1)"
    using assms by (intro trim_right_loop_all) (auto simp: subset_iff)
  moreover have "usub (length s) 1 = length s - 1" using assms by (simp add: Suc_le_eq)
  ultimately show ?thesis using assms by (cases s) (simp_all add: trim_def)
qed

lemma trim_both:
  assumes "length s < 2 ^ 32"
  shows "trim s cs TrimBoth = Inr (strip_right (\<lambda>c. c \<in> set cs) (strip_left (\<lambda>c. c \<in> set cs) s))"
proof -
  let ?P = "\<lambda>c. c \<in> set cs"
  define k where "k = length (takeWhile ?P s)"
  have k: "dropWhile ?P s = drop k s" "k \<le> length s"
    by (simp_all add: k_def dropWhile_eq_drop length_takeWhile_le)
  have left: "trim_left_loop cs s 0 (length s) = Some (k, length s - k)"
    using trim_left_loop_spec [of cs s 0] k by (simp flip: k_def)
  show ?thesis
  proof (cases "\<exists>c\<in>set s. c \<notin> set cs")
    case True
    then obtain j where j: "j < length s" "s ! j \<notin> set cs" "\<And>m. j < m \<Longrightarrow> m < length s \<Longrightarrow> s ! m \<in> set cs"
        "strip_right ?P s = take (Suc j) s" "k \<le> j"
      unfolding k_def using last_kept [OF True] by blast
    have "trim_right_loop cs s (length s - 1) (length s - 1 + 1 - k) = Inr (Some (j + 1 - k))"
      using j by (intro trim_right_loop_stops) auto
    moreover have "usub (length s) 1 = length s - 1" "length s - 1 + 1 - k = length s - k"
      using j(1) assms by simp_all
    moreover have "strip_right ?P (drop k s) = take (Suc j - k) (drop k s)"
    proof -
      have "drop k s ! (j - k) \<in> set (drop k s)" using j(1,5) by (intro nth_mem) simp
      then have "\<exists>c\<in>set (drop k s). c \<notin> set cs" using j(1,2,5) by auto
      then have "dropWhile ?P (rev (drop k s) @ rev (take k s)) = dropWhile ?P (rev (drop k s)) @ rev (take k s)"
        by (auto intro: dropWhile_append1)
      then have "strip_right ?P s = take k s @ strip_right ?P (drop k s)"
        unfolding strip_right_def by (metis append_take_drop_id rev_append rev_rev_ident)
      then have "take k s @ strip_right ?P (drop k s) = take k s @ take (Suc j - k) (drop k s)"
        using j(4,5) by (metis le_SucI le_add_diff_inverse take_add)
      then show ?thesis by simp
    qed
    ultimately show ?thesis using left j k(1) by (simp add: trim_def strip_left_def Suc_le_eq)
  next
    case False
    then have d: "dropWhile ?P s = []" by simp
    have e: "strip_right ?P (strip_left ?P s) = []" by (simp only: strip_left_def strip_right_def d) simp
    from d have "k = length s" using k by simp
    then have "trim_right_loop cs s (usub (length s) 1) (length s - k) = Inr None \<or>
        trim_right_loop cs s (usub (length s) 1) (length s - k) = Inr (Some 0)"
      by (simp add: trim_right_loop.simps [of cs s _ 0])
    then show ?thesis using left \<open>k = length s\<close> by (auto simp: trim_def e)
  qed
qed

section \<open>What the conversions return\<close>

definition is_digit_char :: "u8 \<Rightarrow> bool" where
  "is_digit_char c \<longleftrightarrow> 0x30 \<le> sint c \<and> sint c \<le> 0x39"

text \<open>The number a string of decimal digits denotes, after the digits of \<open>u\<close>.\<close>

fun decimal :: "int \<Rightarrow> chars \<Rightarrow> int" where
  "decimal u [] = u"
| "decimal u (c # s) = decimal (u * 10 + (sint c - 0x30)) s"

lemma decimal_ge: "0 \<le> u \<Longrightarrow> list_all is_digit_char s \<Longrightarrow> u \<le> decimal u s"
proof (induction s arbitrary: u)
  case (Cons c s)
  then have "u \<le> u * 10 + (sint c - 0x30)" by (simp add: is_digit_char_def)
  also have "\<dots> \<le> decimal (u * 10 + (sint c - 0x30)) s"
    using Cons by (intro Cons.IH) (simp_all add: is_digit_char_def)
  finally show ?case by simp
qed simp

lemma convert_to_int_loop_spec:
  assumes "sign = 1 \<or> sign = - 1" "lo \<le> 0" "0 \<le> hi" "0 \<le> u"
  shows "convert_to_int_loop lo hi sign s (sign * u) =
    (if s = [] then Some (sign * u)
     else if list_all is_digit_char s then checked_value lo hi (sign * decimal u s) else None)"
  using assms(4)
proof (induction s arbitrary: u)
  case (Cons c s)
  define d where "d = u * 10 + (sint c - 0x30)"
  show ?case
  proof (cases "is_digit_char c")
    case True
    then have d: "0 \<le> d" "u * 10 \<le> d" "\<not> (sint c < 0x30 \<or> sint c > 0x39)"
      using Cons.prems by (auto simp: d_def is_digit_char_def)
    have ge: "d \<le> decimal d s" if "list_all is_digit_char s" using decimal_ge [OF d(1) that] .
    have sum: "sign * u * 10 + sign * (sint c - 0x30) = sign * d" by (simp add: d_def algebra_simps)
    have unf: "convert_to_int_loop lo hi sign (c # s) (sign * u) =
        (if lo \<le> sign * u * 10 \<and> sign * u * 10 \<le> hi \<and> lo \<le> sign * d \<and> sign * d \<le> hi
         then convert_to_int_loop lo hi sign s (sign * d) else None)"
      using d(3) sum by (auto simp: checked_value_def)
    have "lo \<le> sign * u * 10 \<and> sign * u * 10 \<le> hi" if "lo \<le> sign * d \<and> sign * d \<le> hi"
      using that d(2) assms(1-3) Cons.prems by auto
    moreover have "lo \<le> sign * d \<and> sign * d \<le> hi" if "list_all is_digit_char s" "lo \<le> sign * decimal d s" "sign * decimal d s \<le> hi"
      using that ge assms(1-3) d(1) by auto
    ultimately show ?thesis
      using unf Cons.IH [OF d(1)] True by (auto simp: checked_value_def simp flip: d_def)
  qed (auto simp: is_digit_char_def)
qed simp

lemma convert_to_uint_loop_eq: "convert_to_uint_loop lo hi s v = convert_to_int_loop lo hi 1 s v"
proof (induction s arbitrary: v)
  case (Cons c s)
  then have "convert_to_uint_loop lo hi s = convert_to_int_loop lo hi 1 s" by (intro ext)
  then show ?case by simp
qed simp

text \<open>The integer a string denotes: digits, with a sign before them if \<open>with_sign\<close>.\<close>

definition denotes :: "bool \<Rightarrow> chars \<Rightarrow> int option" where
  "denotes with_sign s =
     (let (sign, t) = (if with_sign \<and> s \<noteq> [] \<and> hd s = 0x2D then (- 1, tl s)
        else if with_sign \<and> s \<noteq> [] \<and> hd s = 0x2B then (1, tl s) else (1, s))
      in if t \<noteq> [] \<and> list_all is_digit_char t then Some (sign * decimal 0 t) else None)"

lemma convert_to_int_spec:
  "convert_to_int w s False =
     Inr (Option.bind (denotes True s) (checked_value (- (2 ^ (w - 1))) (2 ^ (w - 1) - 1)))"
proof -
  define lo hi :: int where "lo = - (2 ^ (w - 1))" and "hi = 2 ^ (w - 1) - 1"
  have range: "lo \<le> 0" "0 \<le> hi" by (simp_all add: lo_def hi_def)
  have loop: "convert_to_int_loop lo hi sign t 0 =
      (if list_all is_digit_char t then checked_value lo hi (sign * decimal 0 t) else None)"
    if "t \<noteq> []" "sign = 1 \<or> sign = - 1" for sign t
    using convert_to_int_loop_spec [OF that(2) range, of 0 t] that by simp
  show ?thesis
  proof (cases s)
    case (Cons c t)
    then show ?thesis unfolding convert_to_int_def lo_def [symmetric] hi_def [symmetric]
      by (cases "t = []") (auto simp: denotes_def loop is_digit_char_def simp del: convert_to_int_loop.simps)
  qed (simp add: convert_to_int_def denotes_def)
qed

lemma convert_to_int_trimmed:
  assumes "length s < 2 ^ 32"
  defines "ws \<equiv> \<lambda>c. c \<in> set whitespace_characters"
  shows "convert_to_int w s trim_ws =
    Inr (Option.bind (denotes True (if trim_ws then strip_right ws (strip_left ws s) else s))
      (checked_value (- (2 ^ (w - 1))) (2 ^ (w - 1) - 1)))"
proof (cases trim_ws)
  case True
  define t where "t = strip_right ws (strip_left ws s)"
  have "trim_whitespace s TrimBoth = Inr t"
    using trim_both [OF assms(1), of whitespace_characters] by (simp add: trim_whitespace_def t_def ws_def)
  then have "convert_to_int w s True = convert_to_int w t False" by (simp add: convert_to_int_def)
  then show ?thesis using True convert_to_int_spec [of w t] by (simp add: t_def)
qed (simp add: convert_to_int_spec)

lemma convert_to_uint_spec:
  assumes "lo \<le> 0" "0 \<le> hi"
  shows "convert_to_uint lo hi s False = Inr (Option.bind (denotes False s) (checked_value lo hi))"
  using convert_to_int_loop_spec [of 1 lo hi 0 s] assms
  by (auto simp: convert_to_uint_def convert_to_uint_loop_eq denotes_def)

definition hex_digit :: "u8 \<Rightarrow> nat option" where
  "hex_digit c =
     (if 0x30 \<le> sint c \<and> sint c \<le> 0x39 then Some (nat (sint c - 0x30))
      else if 0x61 \<le> sint c \<and> sint c \<le> 0x66 then Some (nat (10 + (sint c - 0x61)))
      else if 0x41 \<le> sint c \<and> sint c \<le> 0x46 then Some (nat (10 + (sint c - 0x41)))
      else None)"

fun hexadecimal :: "nat \<Rightarrow> chars \<Rightarrow> nat option" where
  "hexadecimal u [] = Some u"
| "hexadecimal u (c # s) = Option.bind (hex_digit c) (\<lambda>d. hexadecimal (u * 16 + d) s)"

lemma hexadecimal_ge: "hexadecimal u s = Some v \<Longrightarrow> u \<le> v"
  by (induction u s arbitrary: v rule: hexadecimal.induct) (fastforce simp: bind_eq_Some_conv)+

lemma hex_digit_less: "hex_digit c = Some d \<Longrightarrow> d < 16"
  by (auto simp: hex_digit_def split: if_splits)

lemma hex_loop_unfold:
  "convert_hex_loop w (c # s) u =
     (if u > (2 ^ w - 1) div 16 then None
      else Option.bind (hex_digit c) (\<lambda>d. convert_hex_loop w s ((u * 16 + d) mod 2 ^ w)))"
  by (simp add: hex_digit_def)

lemma convert_hex_loop_spec:
  assumes "4 \<le> w" "u < 2 ^ w"
  shows "convert_hex_loop w s u =
    Option.bind (hexadecimal u s) (\<lambda>v. if v < 2 ^ w then Some v else None)"
  using assms(2)
proof (induction s arbitrary: u)
  case (Cons c s)
  define q :: nat where "q = 2 ^ (w - 4)"
  have q: "(2::nat) ^ w = 16 * q" "0 < q"
    using assms(1) power_add [of "2::nat" 4 "w - 4"] by (simp_all add: q_def)
  have div: "(16 * q - 1) div 16 = q - 1" using q(2) by (cases q) simp_all
  show ?case
  proof (cases "hex_digit c")
    case (Some d)
    have d: "d < 16" using hex_digit_less [OF Some] .
    show ?thesis
    proof (cases "u < q")
      case True
      then have lt: "u * 16 + d < 2 ^ w" using d q by simp
      then show ?thesis using Cons.IH [of "u * 16 + d"] Some True div q
        by (simp only: hex_loop_unfold hexadecimal.simps) auto
    next
      case False
      have "\<not> v < 2 ^ w" if "hexadecimal (u * 16 + d) s = Some v" for v
        using hexadecimal_ge [OF that] False q by simp
      then have "Option.bind (hexadecimal (u * 16 + d) s) (\<lambda>v. if v < 2 ^ w then Some v else None) = None"
        by (cases "hexadecimal (u * 16 + d) s") auto
      then show ?thesis using Some False div q by (simp only: hex_loop_unfold hexadecimal.simps) auto
    qed
  qed (simp only: hex_loop_unfold hexadecimal.simps, simp)
qed simp

lemma convert_to_uint_from_hex_spec:
  assumes "4 \<le> w"
  shows "convert_to_uint_from_hex w s False =
    Inr (if s = [] then None else Option.bind (hexadecimal 0 s) (\<lambda>v. if v < 2 ^ w then Some v else None))"
  using convert_hex_loop_spec [OF assms, of 0 s] by (simp add: convert_to_uint_from_hex_def)

section \<open>What the comparisons return\<close>

lemma equal_lowercase_iff:
  "length s \<ge> length t \<Longrightarrow> equal_lowercase s t \<longleftrightarrow> map lower_char (take (length t) s) = map lower_char t"
  by (induction s t rule: equal_lowercase.induct) auto

lemma equals_ignoring_case_iff: "equals_ignoring_case a b \<longleftrightarrow> map lower_char a = map lower_char b"
  using equal_lowercase_iff [of b a] by (auto simp: equals_ignoring_case_def dest: map_eq_imp_length_eq)

lemma memcmp_0_iff: "length s \<ge> length t \<Longrightarrow> memcmp s t (length t) = 0 \<longleftrightarrow> take (length t) s = t"
proof (induction t arbitrary: s)
  case (Cons b t)
  then show ?case by (cases s) auto
qed simp

lemma starts_with_sensitive: "starts_with s t CaseSensitive \<longleftrightarrow> (\<exists>u. s = t @ u)"
  by (auto simp: starts_with_def memcmp_0_iff not_less) (metis append_take_drop_id)

lemma starts_with_insensitive:
  "starts_with s t CaseInsensitive \<longleftrightarrow> (\<exists>p u. s = p @ u \<and> map lower_char p = map lower_char t)"
proof -
  have "(\<exists>p u. s = p @ u \<and> map lower_char p = map lower_char t) \<longleftrightarrow>
      length t \<le> length s \<and> map lower_char (take (length t) s) = map lower_char t"
    by (metis append_eq_conv_conj append_take_drop_id length_append length_map le_add1 length_take)
  then show ?thesis by (auto simp: starts_with_def equal_lowercase_iff not_less)
qed

lemma ends_with_sensitive: "ends_with s t CaseSensitive \<longleftrightarrow> (\<exists>u. s = u @ t)"
  by (auto simp: ends_with_def memcmp_0_iff not_less) (metis append_take_drop_id)

lemma contains_sensitive:
  assumes "length n \<noteq> 31" "s \<noteq> []"
  shows "contains (Some s) (Some n) CaseSensitive = Some (Inr (\<exists>a b. s = a @ n @ b))"
proof -
  have "first_occurrence s n \<noteq> None \<longleftrightarrow> (\<exists>a b. s = a @ n @ b)"
  proof
    assume "first_occurrence s n \<noteq> None"
    then obtain k where "occurs_at s n k" by (auto simp: first_occurrence_None_iff)
    then have "s = take k s @ n @ drop (length n) (drop k s)"
      by (metis append_take_drop_id occurs_at_def)
    then show "\<exists>a b. s = a @ n @ b" by blast
  next
    assume "\<exists>a b. s = a @ n @ b"
    then obtain a b where "s = a @ n @ b" by blast
    then have "occurs_at s n (length a)" by (simp add: occurs_at_def)
    then show "first_occurrence s n \<noteq> None" by (auto simp: first_occurrence_None_iff)
  qed
  then show ?thesis using assms
    by (auto simp: contains_def view_chars_def memmem_first Let_def)
qed

lemma contains_insensitive_misses:
  "contains (Some [0x61, 0x61, 0x62]) (Some [0x61, 0x62]) CaseInsensitive = Some (Inr False)"
  by code_simp

end
