(* ===== verification/Strings.thy ===== *)
theory Strings
  imports String_Utils
begin

text \<open>
  \<open>base/String.cpp\<close>, \<open>base/StringImpl.cpp\<close>, \<open>base/StringHash.h\<close> and what they use of
  \<open>base/StringBuilder.cpp\<close>.

  A \<open>String\<close> is an optional byte list, \<open>None\<close> when \<open>m_impl\<close> is null. The buffer of an
  implementation has a terminating NUL after its characters: where the code reads it as a C string,
  the model takes the characters before the first NUL. A builder is the list of the bytes appended
  so far; the growth of its buffer is not modelled.
\<close>

definition c_string :: "chars \<Rightarrow> chars" where
  "c_string s = takeWhile (\<lambda>c. c \<noteq> 0) s"

text \<open>The sign of \<open>strcmp\<close>, which compares unsigned bytes.\<close>

fun strcmp :: "chars \<Rightarrow> chars \<Rightarrow> int" where
  "strcmp [] [] = 0"
| "strcmp [] (b # t) = - 1"
| "strcmp (a # s) [] = 1"
| "strcmp (a # s) (b # t) = (if a = b then strcmp s t else if a < b then - 1 else 1)"

section \<open>Implementations\<close>

definition string_hash_step :: "u32 \<Rightarrow> u8 \<Rightarrow> u32" where
  "string_hash_step hash c =
     (let hash = hash + char_code c;
          hash = hash + push_bit 10 hash
      in hash XOR drop_bit 6 hash)"

definition string_hash :: "chars \<Rightarrow> u32" where
  "string_hash characters =
     (let hash = foldl string_hash_step 0 characters;
          hash = hash + push_bit 3 hash;
          hash = hash XOR drop_bit 11 hash
      in hash + push_bit 15 hash)"

definition StringView_hash :: "chars \<Rightarrow> u32" where
  "StringView_hash s = (if s = [] then 0 else string_hash s)"

fun chomp :: "chars \<Rightarrow> nat \<Rightarrow> nat" where
  "chomp cstring 0 = 0"
| "chomp cstring (Suc n) =
     (let last_ch = cstring ! n in
      if last_ch = 0 \<or> last_ch = 0x0A \<or> last_ch = 0x0D then chomp cstring n else Suc n)"

definition StringImpl_create :: "view \<Rightarrow> bool \<Rightarrow> view" where
  "StringImpl_create cstring should_chomp =
     (case cstring of None \<Rightarrow> None
      | Some s \<Rightarrow> Some (take (if should_chomp then chomp s (length s) else length s) s))"

definition StringImpl_create_from_cstring :: "view \<Rightarrow> bool \<Rightarrow> view" where
  "StringImpl_create_from_cstring cstring should_chomp =
     (case cstring of None \<Rightarrow> None | Some s \<Rightarrow> StringImpl_create (Some (c_string s)) should_chomp)"

definition StringImpl_create_lowercased :: "view \<Rightarrow> view" where
  "StringImpl_create_lowercased cstring = map_option (map (\<lambda>c. ucast (to_ascii_lowercase (char_code c)))) cstring"

definition StringImpl_create_uppercased :: "view \<Rightarrow> view" where
  "StringImpl_create_uppercased cstring = map_option (map (\<lambda>c. ucast (to_ascii_uppercase (char_code c)))) cstring"

definition StringImpl_to_lowercase :: "chars \<Rightarrow> chars" where
  "StringImpl_to_lowercase s =
     (if \<exists>c\<in>set s. is_ascii_upper_alpha (char_code c) then the (StringImpl_create_lowercased (Some s)) else s)"

definition StringImpl_to_uppercase :: "chars \<Rightarrow> chars" where
  "StringImpl_to_uppercase s =
     (if \<exists>c\<in>set s. is_ascii_lower_alpha (char_code c) then the (StringImpl_create_uppercased (Some s)) else s)"

section \<open>Comparisons\<close>

definition String_equals :: "view \<Rightarrow> view \<Rightarrow> bool" where
  "String_equals s other =
     (case s of None \<Rightarrow> other = None
      | Some a \<Rightarrow> (case other of None \<Rightarrow> False | Some b \<Rightarrow> if length a \<noteq> length b then False else a = b))"

definition String_less :: "view \<Rightarrow> view \<Rightarrow> bool" where
  "String_less s other =
     (case s of None \<Rightarrow> other \<noteq> None
      | Some a \<Rightarrow> (case other of None \<Rightarrow> False | Some b \<Rightarrow> strcmp (c_string a) (c_string b) < 0))"

definition String_greater :: "view \<Rightarrow> view \<Rightarrow> bool" where
  "String_greater s other =
     (case s of None \<Rightarrow> other \<noteq> None
      | Some a \<Rightarrow> (case other of None \<Rightarrow> False | Some b \<Rightarrow> strcmp (c_string a) (c_string b) > 0))"

definition String_equals_cstring :: "view \<Rightarrow> chars option \<Rightarrow> bool" where
  "String_equals_cstring s cstring =
     (case s of None \<Rightarrow> cstring = None
      | Some a \<Rightarrow> (case cstring of None \<Rightarrow> False | Some b \<Rightarrow> strcmp (c_string a) (c_string b) = 0))"

section \<open>Substrings\<close>

definition String_copy_characters_to_buffer :: "chars \<Rightarrow> chars \<Rightarrow> nat \<Rightarrow> (bool \<times> chars) res" where
  "String_copy_characters_to_buffer s buffer buffer_size =
     verify (buffer_size > 0)
       (let characters_to_copy = min (length s) (buffer_size - 1) in
        rbind (memcpy_at buffer 0 s characters_to_copy) (\<lambda>buffer.
        rbind (write_at buffer characters_to_copy 0) (\<lambda>buffer.
          Inr (characters_to_copy = length s, buffer))))"

definition String_substring :: "view \<Rightarrow> nat \<Rightarrow> nat \<Rightarrow> chars res" where
  "String_substring s start len =
     (if len = 0 then Inr []
      else case s of None \<Rightarrow> Inl Verify_Failed
        | Some a \<Rightarrow> verify (start + len < 2 ^ 32) (verify (start + len \<le> length a) (Inr (take len (drop start a)))))"

definition String_substring_from :: "view \<Rightarrow> nat \<Rightarrow> chars res" where
  "String_substring_from s start =
     (case s of None \<Rightarrow> Inl Verify_Failed | Some a \<Rightarrow> verify (start \<le> length a) (Inr (drop start a)))"

definition String_substring_view :: "view \<Rightarrow> nat \<Rightarrow> nat \<Rightarrow> chars res" where
  "String_substring_view s start len =
     (case s of None \<Rightarrow> Inl Verify_Failed
      | Some a \<Rightarrow> verify (start + len < 2 ^ 32) (verify (start + len \<le> length a) (Inr (take len (drop start a)))))"

definition String_substring_view_from :: "view \<Rightarrow> nat \<Rightarrow> chars res" where
  "String_substring_view_from s start =
     (case s of None \<Rightarrow> Inl Verify_Failed | Some a \<Rightarrow> verify (start \<le> length a) (Inr (drop start a)))"

function split_limit_loop ::
  "chars \<Rightarrow> u8 \<Rightarrow> nat \<Rightarrow> bool \<Rightarrow> nat \<Rightarrow> nat \<Rightarrow> chars list \<Rightarrow> (nat \<times> chars list) res" where
  "split_limit_loop s separator limit keep_empty i substart v =
     (if i < length s \<and> usz (length v + 1) \<noteq> limit then
        if s ! i = separator then
          let sublen = i - substart in
          if sublen \<noteq> 0 \<or> keep_empty
          then (case String_substring (Some s) substart sublen of
                  Inl e \<Rightarrow> Inl e
                | Inr part \<Rightarrow> split_limit_loop s separator limit keep_empty (i + 1) (i + 1) (v @ [part]))
          else split_limit_loop s separator limit keep_empty (i + 1) (i + 1) v
        else split_limit_loop s separator limit keep_empty (i + 1) substart v
      else Inr (substart, v))"
  by pat_completeness auto
termination
  by (relation "measure (\<lambda>(s, sep, lim, k, i, st, v). length s - i)") auto

declare split_limit_loop.simps [simp del]

definition String_split_limit :: "chars \<Rightarrow> u8 \<Rightarrow> nat \<Rightarrow> bool \<Rightarrow> chars list res" where
  "String_split_limit s separator limit keep_empty =
     (if s = [] then Inr []
      else rbind (split_limit_loop s separator limit keep_empty 0 0 []) (\<lambda>(substart, v).
        let taillen = length s - substart in
        if taillen \<noteq> 0 \<or> keep_empty
        then rbind (String_substring (Some s) substart taillen) (\<lambda>part. Inr (v @ [part]))
        else Inr v))"

definition String_split :: "chars \<Rightarrow> u8 \<Rightarrow> bool \<Rightarrow> chars list res" where
  "String_split s separator keep_empty = String_split_limit s separator 0 keep_empty"

fun String_split_view_loop :: "chars \<Rightarrow> u8 \<Rightarrow> bool \<Rightarrow> chars \<Rightarrow> nat \<Rightarrow> nat \<Rightarrow> chars list \<Rightarrow> (nat \<times> chars list) res" where
  "String_split_view_loop s separator keep_empty [] i substart v = Inr (substart, v)"
| "String_split_view_loop s separator keep_empty (ch # rest) i substart v =
     (if ch = separator then
        let sublen = i - substart in
        if sublen \<noteq> 0 \<or> keep_empty
        then rbind (String_substring_view (Some s) substart sublen) (\<lambda>part.
               String_split_view_loop s separator keep_empty rest (i + 1) (i + 1) (v @ [part]))
        else String_split_view_loop s separator keep_empty rest (i + 1) (i + 1) v
      else String_split_view_loop s separator keep_empty rest (i + 1) substart v)"

definition String_split_view :: "chars \<Rightarrow> u8 \<Rightarrow> bool \<Rightarrow> chars list res" where
  "String_split_view s separator keep_empty =
     (if s = [] then Inr []
      else rbind (String_split_view_loop s separator keep_empty s 0 0 []) (\<lambda>(substart, v).
        let taillen = length s - substart in
        if taillen \<noteq> 0 \<or> keep_empty
        then rbind (String_substring_view (Some s) substart taillen) (\<lambda>part. Inr (v @ [part]))
        else Inr v))"

section \<open>Construction\<close>

text \<open>\<open>create_uninitialized\<close> refuses the length 0; its buffer has the length asked for.\<close>

definition create_uninitialized :: "nat \<Rightarrow> (chars \<Rightarrow> 'a res) \<Rightarrow> 'a res" where
  "create_uninitialized len k = verify (len \<noteq> 0) (k (replicate len 0))"

definition String_repeated_char :: "u8 \<Rightarrow> nat \<Rightarrow> chars res" where
  "String_repeated_char ch count =
     (if count = 0 then Inr [] else create_uninitialized count (\<lambda>buffer. memset_at buffer 0 ch count))"

fun repeated_loop :: "chars \<Rightarrow> nat \<Rightarrow> nat \<Rightarrow> chars \<Rightarrow> chars res" where
  "repeated_loop string 0 i buffer = Inr buffer"
| "repeated_loop string (Suc k) i buffer =
     rbind (memcpy_at buffer (i * length string) string (length string)) (\<lambda>buffer. repeated_loop string k (i + 1) buffer)"

definition String_repeated :: "chars \<Rightarrow> nat \<Rightarrow> chars res" where
  "String_repeated string count =
     (if count = 0 \<or> string = [] then Inr []
      else create_uninitialized (usz (count * length string)) (\<lambda>buffer. repeated_loop string count 0 buffer))"

text \<open>\<open>bijective_base_from\<close>: the digits, least significant first.\<close>

function bijective_digits :: "chars \<Rightarrow> nat \<Rightarrow> nat \<Rightarrow> chars \<Rightarrow> chars res" where
  "bijective_digits digit_map base val buffer =
     (if base < 2 then Inl Undefined_Behaviour
      else rbind (verify (length buffer < 34) (read_at digit_map (val mod base))) (\<lambda>c.
        let buffer = buffer @ [c]; val' = val div base
        in if val' > 0 then bijective_digits digit_map base val' buffer else Inr buffer))"
  by pat_completeness auto
termination
  by (relation "measure (\<lambda>(m, b, v, u). v)") (auto simp: div_greater_zero_iff intro!: div_less_dividend)

declare bijective_digits.simps [simp del]

definition uppercase_letters :: chars where
  "uppercase_letters = map of_nat [0x41..<0x5B]"

definition String_bijective_base_from :: "nat \<Rightarrow> nat \<Rightarrow> view \<Rightarrow> chars res" where
  "String_bijective_base_from val base digit_map =
     (let digit_map = (case digit_map of None \<Rightarrow> uppercase_letters | Some m \<Rightarrow> m) in
      verify (base \<ge> 2 \<and> base \<le> length digit_map)
        (rbind (bijective_digits digit_map base val []) (\<lambda>buffer.
           let i = length buffer;
               buffer = (if i > 1 then buffer[i - 1 := buffer ! (i - 1) - 1] else buffer)
           in Inr (rev buffer))))"

fun roman_number_loop :: "nat \<Rightarrow> chars \<Rightarrow> chars" where
  "roman_number_loop val builder =
     (if val > 0 then
        if val \<ge> 1000 then roman_number_loop (val - 1000) (builder @ [0x4D])
        else if val \<ge> 900 then roman_number_loop (val - 900) (builder @ [0x43, 0x4D])
        else if val \<ge> 500 then roman_number_loop (val - 500) (builder @ [0x44])
        else if val \<ge> 400 then roman_number_loop (val - 400) (builder @ [0x43, 0x44])
        else if val \<ge> 100 then roman_number_loop (val - 100) (builder @ [0x43])
        else if val \<ge> 90 then roman_number_loop (val - 90) (builder @ [0x58, 0x43])
        else if val \<ge> 50 then roman_number_loop (val - 50) (builder @ [0x4C])
        else if val \<ge> 40 then roman_number_loop (val - 40) (builder @ [0x58, 0x4C])
        else if val \<ge> 10 then roman_number_loop (val - 10) (builder @ [0x58])
        else if val = 9 then roman_number_loop (val - 9) (builder @ [0x49, 0x58])
        else if val \<ge> 5 \<and> val \<le> 8 then roman_number_loop (val - 5) (builder @ [0x56])
        else if val = 4 then roman_number_loop (val - 4) (builder @ [0x49, 0x56])
        else roman_number_loop (val - 1) (builder @ [0x49])
      else builder)"

declare roman_number_loop.simps [simp del]

text \<open>Beyond 3999 the code formats the number in decimal; that is a parameter.\<close>

definition String_roman_number_from :: "(nat \<Rightarrow> chars) \<Rightarrow> nat \<Rightarrow> chars" where
  "String_roman_number_from number val = (if val > 3999 then number val else roman_number_loop val [])"

section \<open>Replacing and counting\<close>

fun replace_loop :: "chars \<Rightarrow> chars \<Rightarrow> nat \<Rightarrow> nat list \<Rightarrow> nat \<Rightarrow> chars \<Rightarrow> (chars \<times> nat) res" where
  "replace_loop s replacement needle_length [] lastpos b = Inr (b, lastpos)"
| "replace_loop s replacement needle_length (pos # positions) lastpos b =
     rbind (String_substring_view (Some s) lastpos (usub pos lastpos)) (\<lambda>part.
       replace_loop s replacement needle_length positions (pos + needle_length) (b @ part @ replacement))"

definition replace_at :: "chars \<Rightarrow> chars \<Rightarrow> chars \<Rightarrow> nat list \<Rightarrow> (chars \<times> nat) res" where
  "replace_at s needle replacement positions =
     (if length positions = 0 then Inr (s, 0)
      else rbind (replace_loop s replacement (length needle) positions 0 []) (\<lambda>(b, lastpos).
        rbind (String_substring_view (Some s) lastpos (usub (length s) lastpos)) (\<lambda>part.
          Inr (c_string (b @ part), length positions))))"

definition String_replace :: "chars \<Rightarrow> chars \<Rightarrow> chars \<Rightarrow> bool \<Rightarrow> (chars \<times> nat) res option" where
  "String_replace s needle replacement all_occurrences =
     (if s = [] then Some (Inr (s, 0))
      else if all_occurrences then xbind (find_all s needle) (\<lambda>positions. Some (replace_at s needle replacement positions))
      else xbind (find_view s needle 0) (\<lambda>pos.
        case pos of None \<Rightarrow> Some (Inr (s, 0)) | Some p \<Rightarrow> Some (replace_at s needle replacement [p])))"

text \<open>\<open>count\<close>: \<open>strstr\<close> from \<open>start\<close>, which must not lie beyond the terminator.\<close>

definition strstr_from :: "chars \<Rightarrow> nat \<Rightarrow> chars \<Rightarrow> nat option res" where
  "strstr_from s start needle =
     (if start > length s then Inl Out_Of_Bounds
      else Inr (map_option (\<lambda>k. start + k) (first_occurrence (c_string (drop start s)) (c_string needle))))"

lemma strstr_from_ge: "strstr_from s start needle = Inr (Some p) \<Longrightarrow> start \<le> p \<and> start \<le> length s"
  by (auto simp: strstr_from_def split: if_splits)

function count_loop :: "chars \<Rightarrow> chars \<Rightarrow> nat \<Rightarrow> nat \<Rightarrow> nat res" where
  "count_loop s needle start n =
     (case strstr_from s start needle of
        Inl e \<Rightarrow> Inl e
      | Inr None \<Rightarrow> Inr n
      | Inr (Some pos) \<Rightarrow> count_loop s needle (pos + 1) (n + 1))"
  by pat_completeness auto
termination
  by (relation "measure (\<lambda>(s, needle, start, n). Suc (length s) - start)") (auto dest!: strstr_from_ge)

declare count_loop.simps [simp del]

definition String_count :: "chars \<Rightarrow> chars \<Rightarrow> nat res" where
  "String_count s needle = count_loop s needle 0 0"

fun reverse_loop :: "chars \<Rightarrow> nat \<Rightarrow> chars \<Rightarrow> chars" where
  "reverse_loop s 0 reversed = reversed"
| "reverse_loop s (Suc i) reversed = reverse_loop s i (reversed @ [s ! i])"

definition String_reverse :: "chars \<Rightarrow> chars" where
  "String_reverse s = reverse_loop s (length s) []"

fun escape_html_loop :: "chars \<Rightarrow> chars \<Rightarrow> chars" where
  "escape_html_loop [] builder = builder"
| "escape_html_loop (c # s) builder = escape_html_loop s
     (if c = 0x3C then builder @ [0x26, 0x6C, 0x74, 0x3B]
      else if c = 0x3E then builder @ [0x26, 0x67, 0x74, 0x3B]
      else if c = 0x26 then builder @ [0x26, 0x61, 0x6D, 0x70, 0x3B]
      else builder @ [c])"

definition escape_html_entities :: "chars \<Rightarrow> chars" where
  "escape_html_entities html = escape_html_loop html []"

fun append_escaped_for_json :: "chars \<Rightarrow> chars \<Rightarrow> chars" where
  "append_escaped_for_json builder [] = builder"
| "append_escaped_for_json builder (ch # s) = append_escaped_for_json
     (if ch = 0x1B then builder @ [0x5C, 0x75, 0x30, 0x30, 0x31, 0x42]
      else if ch = 0x08 then builder @ [0x5C, 0x62]
      else if ch = 0x0A then builder @ [0x5C, 0x6E]
      else if ch = 0x09 then builder @ [0x5C, 0x74]
      else if ch = 0x22 then builder @ [0x5C, 0x22]
      else if ch = 0x5C then builder @ [0x5C, 0x5C]
      else builder @ [ch]) s"

text \<open>\<open>StringBuilder::join\<close> of strings with a character between them.\<close>

fun builder_join :: "u8 \<Rightarrow> bool \<Rightarrow> chars list \<Rightarrow> chars \<Rightarrow> chars" where
  "builder_join separator first [] builder = builder"
| "builder_join separator first (item # items) builder =
     builder_join separator False items ((if first then builder else builder @ [separator]) @ item)"

section \<open>Splitting\<close>

lemma String_substring_view_ok [simp]:
  "start + len \<le> length s \<Longrightarrow> length s < 2 ^ 32 \<Longrightarrow>
   String_substring_view (Some s) start len = Inr (take len (drop start s))"
  by (simp add: String_substring_view_def)

lemma String_split_view_loop_eq:
  assumes "s = done @ rest" "substart \<le> length done" "length s < 2 ^ 32"
  shows "String_split_view_loop s sep keep rest (length done) substart v =
    split_loop (\<lambda>ch. ch = sep) keep s rest (length done) substart v"
  using assms
proof (induction rest arbitrary: "done" substart v)
  case (Cons c rest)
  have IH: "String_split_view_loop s sep keep rest (Suc (length done)) st w =
      split_loop (\<lambda>ch. ch = sep) keep s rest (Suc (length done)) st w" if "st \<le> Suc (length done)" for st w
    using Cons.IH [of "done @ [c]" st w] Cons.prems that by simp
  have le: "length done \<le> length s" using Cons.prems(1) by simp
  show ?case using IH le Cons.prems(2,3) by (cases keep) (simp_all add: Let_def)
qed simp

lemma String_split_view_eq:
  assumes "length s < 2 ^ 32"
  shows "String_split_view s sep keep = StringView_split_view sep keep s"
proof (cases "s = []")
  case False
  obtain st v where l: "split_loop (\<lambda>ch. ch = sep) keep s s 0 0 [] = Inr (st, v)" "st \<le> length s"
    using split_loop_spec [of s "[]" s 0 "\<lambda>ch. ch = sep" keep "[]"] by auto
  moreover have "String_split_view_loop s sep keep s 0 0 [] = Inr (st, v)"
    using String_split_view_loop_eq [of s "[]" s 0 sep keep "[]"] assms l by simp
  ultimately show ?thesis using False assms
    by (simp add: String_split_view_def StringView_split_view_def Let_def)
qed (simp add: String_split_view_def StringView_split_view_def)

section \<open>Construction\<close>

lemma repeated_loop_spec:
  assumes "length string = L" "length buffer = (i + k) * L"
  shows "repeated_loop string k i buffer = Inr (take (i * L) buffer @ concat (replicate k string))"
  using assms
proof (induction string k i buffer rule: repeated_loop.induct)
  case (2 string k i buffer)
  let ?b = "take (i * L) buffer @ string @ drop (i * L + L) buffer"
  have len: "i * L + L \<le> length buffer" using "2.prems"(2) by simp
  then have "memcpy_at buffer (i * length string) string (length string) = Inr ?b"
    using "2.prems"(1) by (simp add: memcpy_at_ok)
  moreover have "length ?b = (i + 1 + k) * L" using "2.prems" len by simp
  moreover have "take ((i + 1) * L) ?b = take (i * L) buffer @ string"
  proof -
    have "length (take (i * L) buffer) = i * L" using len by (simp only: length_take)
    then have "length (take (i * L) buffer @ string) = (i + 1) * L" using "2.prems"(1) by simp
    then show ?thesis by (metis append_assoc append_eq_conv_conj)
  qed
  ultimately show ?case using "2.IH" [of ?b] "2.prems"(1) by simp
qed simp

lemma String_repeated_spec:
  assumes "count * length string < 2 ^ 32"
  shows "String_repeated string count = Inr (concat (replicate count string))"
proof (cases "count = 0 \<or> string = []")
  case True
  then show ?thesis by (auto simp: String_repeated_def)
next
  case False
  then show ?thesis using assms repeated_loop_spec [of string "length string" "replicate (count * length string) 0" 0 count]
    by (simp add: String_repeated_def create_uninitialized_def)
qed

text \<open>If the product wraps the copies run past the buffer.\<close>

lemma repeated_loop_overruns:
  assumes "length buffer < (i + k) * length string" "i * length string \<le> length buffer"
  shows "repeated_loop string k i buffer = Inl Out_Of_Bounds"
  using assms
proof (induction string k i buffer rule: repeated_loop.induct)
  case (2 string k i buffer)
  show ?case
  proof (cases "i * length string + length string \<le> length buffer")
    case True
    let ?b = "take (i * length string) buffer @ string @ drop (i * length string + length string) buffer"
    have "memcpy_at buffer (i * length string) string (length string) = Inr ?b"
      using True by (simp add: memcpy_at_ok)
    moreover have "length ?b = length buffer" using True by simp
    ultimately show ?thesis using "2.IH" [of ?b] "2.prems" True by simp
  qed (simp add: memcpy_at_def)
qed simp

lemma String_repeated_overruns:
  assumes "2 ^ 32 \<le> count * length string" "usz (count * length string) \<noteq> 0"
  shows "String_repeated string count = Inl Out_Of_Bounds"
proof -
  have ne: "\<not> (count = 0 \<or> string = [])"
  proof
    assume "count = 0 \<or> string = []"
    then have "count * length string = 0" by auto
    with assms(1) show False by simp
  qed
  have "usz (count * length string) < count * length string"
    using assms(1) usz_less [of "count * length string"] by linarith
  then have "repeated_loop string count 0 (replicate (usz (count * length string)) 0) = Inl Out_Of_Bounds"
    by (intro repeated_loop_overruns) simp_all
  then show ?thesis using assms(2) ne by (simp only: String_repeated_def create_uninitialized_def if_False not_False_eq_True verify_True)
qed

lemma String_reverse_rev: "String_reverse s = rev s"
proof -
  have "n \<le> length s \<Longrightarrow> reverse_loop s n r = r @ rev (take n s)" for n r
    by (induction n arbitrary: r) (simp_all add: take_Suc_conv_app_nth)
  then show ?thesis by (simp add: String_reverse_def)
qed

text \<open>After \<open>YZ\<close> comes \<open>AAA\<close>: the 26 names from \<open>ZA\<close> to \<open>ZZ\<close> are skipped.\<close>

lemma bijective_skips:
  "String_bijective_base_from 675 26 None = Inr [0x59, 0x5A] \<and>
   String_bijective_base_from 676 26 None = Inr [0x41, 0x41, 0x41]"
  by code_simp

section \<open>Replacing\<close>

text \<open>Positions at least a needle apart.\<close>

fun apart :: "nat \<Rightarrow> nat \<Rightarrow> nat list \<Rightarrow> bool" where
  "apart n base [] \<longleftrightarrow> True"
| "apart n base (p # ps) \<longleftrightarrow> base \<le> p \<and> apart n (p + n) ps"

fun substitute :: "'a list \<Rightarrow> 'a list \<Rightarrow> nat \<Rightarrow> nat list \<Rightarrow> nat \<Rightarrow> 'a list" where
  "substitute s r n [] base = drop base s"
| "substitute s r n (p # ps) base = take (p - base) (drop base s) @ r @ substitute s r n ps (p + n)"

lemma replace_loop_spec:
  assumes "apart n base ps" "\<forall>p\<in>set ps. p + n \<le> length s" "base \<le> length s" "length s < 2 ^ 32"
  shows "\<exists>b' lastpos. replace_loop s r n ps base b = Inr (b', lastpos) \<and> lastpos \<le> length s \<and>
    b' @ drop lastpos s = b @ substitute s r n ps base"
  using assms
proof (induction s r n ps base b rule: replace_loop.induct)
  case (2 s r n p ps base b)
  have p: "base \<le> p" "p \<le> length s" "p < 2 ^ 32" using "2.prems" by auto
  then have sub: "String_substring_view (Some s) base (usub p base) = Inr (take (p - base) (drop base s))"
    using "2.prems"(4) by simp
  obtain b' lastpos where "replace_loop s r n ps (p + n) (b @ take (p - base) (drop base s) @ r) = Inr (b', lastpos)"
      "lastpos \<le> length s"
      "b' @ drop lastpos s = (b @ take (p - base) (drop base s) @ r) @ substitute s r n ps (p + n)"
    using "2.IH" [of "take (p - base) (drop base s)"] "2.prems" by auto
  with sub show ?case by simp
qed simp

lemma replace_loop_overlap:
  assumes "\<not> apart n base ps" "\<forall>p\<in>set ps. p + n \<le> length s" "base \<le> length s" "length s < 2 ^ 32"
  shows "replace_loop s r n ps base b = Inl Verify_Failed"
  using assms
proof (induction s r n ps base b rule: replace_loop.induct)
  case (2 s r n p ps base b)
  show ?case
  proof (cases "base \<le> p")
    case True
    then have "String_substring_view (Some s) base (usub p base) = Inr (take (p - base) (drop base s))"
      using "2.prems" by simp
    then show ?thesis using "2.IH" [of "take (p - base) (drop base s)"] "2.prems" True by simp
  next
    case False
    then have "usub p base = 2 ^ 32 - (base - p)" using "2.prems"(3,4) by (simp add: usub_def usz_def)
    then have "String_substring_view (Some s) base (usub p base) = Inl Verify_Failed"
      using False "2.prems"(3,4) by (simp add: String_substring_view_def)
    then show ?thesis by simp
  qed
qed simp

lemma replace_spec:
  assumes "length needle \<noteq> 31" "length s < 2 ^ 32"
    and ps: "ps = (if s = [] then [] else filter (occurs_at s needle) [0..<Suc (length s)])"
  shows "String_replace s needle r True = Some
    (if ps = [] then Inr (s, 0)
     else if apart (length needle) 0 ps then Inr (c_string (substitute s r (length needle) ps 0), length ps)
     else Inl Verify_Failed)"
proof (cases "s = []")
  case True
  then show ?thesis using ps by (simp add: String_replace_def)
next
  case False
  have in_s: "\<forall>p\<in>set ps. p + length needle \<le> length s" using ps by (auto simp: occurs_at_def simp del: upt_Suc)
  have all: "find_all s needle = Some (Inr ps)" using find_all_spec [OF assms(1), of s] ps False by simp
  show ?thesis
  proof (cases "apart (length needle) 0 ps")
    case True
    then obtain b lastpos where "replace_loop s r (length needle) ps 0 [] = Inr (b, lastpos)" "lastpos \<le> length s"
        "b @ drop lastpos s = substitute s r (length needle) ps 0"
      using replace_loop_spec [OF True in_s, of r "[]"] assms(2) by auto
    then show ?thesis using True False all assms(2) by (simp add: String_replace_def replace_at_def)
  next
    case no: False
    then show ?thesis using replace_loop_overlap [OF no in_s, of r "[]"] False all assms(2)
      by (auto simp: String_replace_def replace_at_def)
  qed
qed

end
