(* ===== verification/Lexical_Path.thy ===== *)
theory Lexical_Path
  imports Strings
begin

text \<open>
  \<open>base/LexicalPath.cpp\<close> and \<open>base/LexicalPath.h\<close>: paths as strings, brought to a canonical
  form. The theorems: canonicalization never aborts, its result has no empty part, no \<open>.\<close> beside
  another part and \<open>..\<close> only at the front of a relative path, and it leaves such a result alone.
\<close>

definition dot :: chars where "dot = [0x2E]"
definition dotdot :: chars where "dotdot = [0x2E, 0x2E]"
definition slash :: chars where "slash = [0x2F]"

section \<open>Canonicalization\<close>

definition canonical_step :: "bool \<Rightarrow> chars list \<Rightarrow> chars \<Rightarrow> chars list" where
  "canonical_step is_absolute canonical_parts part =
     (if StringView_equals_cstring (Some part) (Some dot) then canonical_parts
      else if StringView_equals_cstring (Some part) (Some dotdot) then
        if canonical_parts = [] then
          if is_absolute then canonical_parts else canonical_parts @ [part]
        else if \<not> String_equals_cstring (Some (last canonical_parts)) (Some dotdot) then butlast canonical_parts
        else canonical_parts @ [part]
      else canonical_parts @ [part])"

definition canonicalized_path :: "view \<Rightarrow> view res option" where
  "canonicalized_path path =
     (case path of
        None \<Rightarrow> Some (Inr None)
      | Some p \<Rightarrow>
          if p = [] then Some (Inr (Some dot))
          else
            xbind (contains (Some p) (Some dot) CaseSensitive) (\<lambda>has_dot.
            xbind (if has_dot then Some (Inr True) else contains (Some p) (Some (slash @ slash)) CaseSensitive) (\<lambda>irregular.
              if \<not> irregular \<and> \<not> StringView_ends_with_char p 0x2F then Some (Inr (Some p))
              else
                lift_res (vec_at p 0) (\<lambda>c.
                let is_absolute = (c = 0x2F) in
                lift_res (String_split_view p 0x2F False) (\<lambda>parts.
                  let canonical_parts = foldl (canonical_step is_absolute) [] parts;
                      canonical_parts = (if canonical_parts = [] \<and> \<not> is_absolute then [dot] else canonical_parts);
                      builder = (if is_absolute then slash else [])
                  in Some (Inr (Some (builder_join 0x2F True canonical_parts builder))))))))"

section \<open>Paths\<close>

text \<open>The views of a path are their characters: a null view and an empty one are the same here.\<close>

record lexical_path =
  lp_parts :: "chars list"
  lp_string :: chars
  lp_dirname :: chars
  lp_basename :: chars
  lp_title :: chars
  lp_extension :: chars

definition LexicalPath_dirname_of :: "chars \<Rightarrow> chars res" where
  "LexicalPath_dirname_of s =
     (case find_last s 0x2F of
        None \<Rightarrow> Inr dot
      | Some i \<Rightarrow> if i = 0 then String_substring_view (Some s) 0 1 else String_substring_view (Some s) 0 i)"

definition LexicalPath_title_of :: "chars \<Rightarrow> (chars \<times> chars) res" where
  "LexicalPath_title_of basename =
     (case find_last basename 0x2E of
        Some i \<Rightarrow>
          if i \<noteq> 0 then
            rbind (StringView_substring_view basename 0 i) (\<lambda>title.
            rbind (StringView_substring_view_from basename (i + 1)) (\<lambda>extension. Inr (title, extension)))
          else Inr (basename, [])
      | None \<Rightarrow> Inr (basename, []))"

definition LexicalPath_create :: "view \<Rightarrow> lexical_path res option" where
  "LexicalPath_create path =
     xbind (canonicalized_path path) (\<lambda>canonical.
       let s = view_chars canonical in
       if s = [] then
         Some (Inr \<lparr>lp_parts = [], lp_string = dot, lp_dirname = dot, lp_basename = [], lp_title = [], lp_extension = []\<rparr>)
       else
         Some (rbind (String_split_view s 0x2F False) (\<lambda>parts.
               rbind (LexicalPath_dirname_of s) (\<lambda>dirname.
               rbind (if String_equals_cstring (Some s) (Some slash) then Inr s else verify (length parts > 0) (Inr (last parts))) (\<lambda>basename.
               rbind (LexicalPath_title_of basename) (\<lambda>(title, extension).
                 Inr \<lparr>lp_parts = parts, lp_string = s, lp_dirname = dirname, lp_basename = basename,
                      lp_title = title, lp_extension = extension\<rparr>))))))"

definition LexicalPath_is_absolute :: "lexical_path \<Rightarrow> bool" where
  "LexicalPath_is_absolute lp \<longleftrightarrow> lp_string lp \<noteq> [] \<and> lp_string lp ! 0 = 0x2F"

definition LexicalPath_has_extension :: "lexical_path \<Rightarrow> chars \<Rightarrow> bool" where
  "LexicalPath_has_extension lp extension = ends_with (lp_string lp) extension CaseInsensitive"

definition LexicalPath_join :: "chars \<Rightarrow> chars list \<Rightarrow> lexical_path res option" where
  "LexicalPath_join first rest =
     LexicalPath_create (Some (foldl (\<lambda>builder r. (builder @ [0x2F]) @ r) first rest))"

definition LexicalPath_append :: "lexical_path \<Rightarrow> chars \<Rightarrow> lexical_path res option" where
  "LexicalPath_append lp v = LexicalPath_join (lp_string lp) [v]"

definition LexicalPath_parent :: "lexical_path \<Rightarrow> lexical_path res option" where
  "LexicalPath_parent lp = LexicalPath_append lp dotdot"

definition LexicalPath_dirname :: "view \<Rightarrow> chars res option" where
  "LexicalPath_dirname path = xbind (LexicalPath_create path) (\<lambda>lp. Some (Inr (lp_dirname lp)))"

definition LexicalPath_basename :: "view \<Rightarrow> chars res option" where
  "LexicalPath_basename path = xbind (LexicalPath_create path) (\<lambda>lp. Some (Inr (lp_basename lp)))"

definition LexicalPath_title :: "view \<Rightarrow> chars res option" where
  "LexicalPath_title path = xbind (LexicalPath_create path) (\<lambda>lp. Some (Inr (lp_title lp)))"

definition LexicalPath_extension :: "view \<Rightarrow> chars res option" where
  "LexicalPath_extension path = xbind (LexicalPath_create path) (\<lambda>lp. Some (Inr (lp_extension lp)))"

definition relative_path :: "chars \<Rightarrow> chars \<Rightarrow> view res option" where
  "relative_path a_path a_prefix =
     (if \<not> StringView_starts_with_char a_path 0x2F \<or> \<not> StringView_starts_with_char a_prefix 0x2F then Some (Inr None)
      else if a_path = a_prefix then Some (Inr (Some dot))
      else
        xbind (canonicalized_path (Some a_path)) (\<lambda>path.
        xbind (canonicalized_path (Some a_prefix)) (\<lambda>prefix.
          if String_equals path prefix then Some (Inr (Some dot))
          else if prefix = Some slash then lift_res (String_substring_view_from path 1) (\<lambda>s. Some (Inr (Some s)))
          else
            let p = view_chars path; q = view_chars prefix in
            if starts_with p q CaseSensitive then
              lift_res (vec_at p (length q)) (\<lambda>c.
                if c = 0x2F
                then lift_res (String_substring_view_from path (length q + 1)) (\<lambda>s. Some (Inr (Some s)))
                else Some (Inr path))
            else Some (Inr path))))"

section \<open>The canonical form\<close>

text \<open>The reference: the parts between slashes, folded, and written with one slash between them.\<close>

definition path_parts :: "chars \<Rightarrow> chars list" where
  "path_parts p = filter (\<lambda>q. q \<noteq> []) (segments (\<lambda>c. c = 0x2F) p)"

definition render :: "bool \<Rightarrow> chars list \<Rightarrow> chars" where
  "render is_absolute qs =
     (if is_absolute then slash @ join slash qs else if qs = [] then dot else join slash qs)"

definition rooted :: "chars \<Rightarrow> bool" where
  "rooted p \<longleftrightarrow> p \<noteq> [] \<and> p ! 0 = 0x2F"

definition canonical_parts_of :: "chars \<Rightarrow> chars list" where
  "canonical_parts_of p = foldl (canonical_step (rooted p)) [] (path_parts p)"

definition canonical_form :: "chars \<Rightarrow> chars" where
  "canonical_form p = render (rooted p) (canonical_parts_of p)"

definition plain_part :: "chars \<Rightarrow> bool" where
  "plain_part q \<longleftrightarrow> q \<noteq> [] \<and> 0x2F \<notin> set q \<and> 0 \<notin> set q"

definition normal_parts :: "bool \<Rightarrow> chars list \<Rightarrow> bool" where
  "normal_parts is_absolute qs \<longleftrightarrow>
     (\<forall>q\<in>set qs. plain_part q \<and> q \<noteq> dot) \<and>
     (\<exists>k rest. qs = replicate k dotdot @ rest \<and> dotdot \<notin> set rest \<and> (is_absolute \<longrightarrow> k = 0))"

lemma normal_partsI:
  "qs = replicate k dotdot @ rest \<Longrightarrow> dotdot \<notin> set rest \<Longrightarrow> (is_absolute \<Longrightarrow> k = 0) \<Longrightarrow>
   (\<And>q. q \<in> set qs \<Longrightarrow> plain_part q \<and> q \<noteq> dot) \<Longrightarrow> normal_parts is_absolute qs"
  unfolding normal_parts_def by blast

lemma strcmp_eq_0 [simp]: "strcmp s t = 0 \<longleftrightarrow> s = t"
  by (induction s t rule: strcmp.induct) auto

lemma c_string_plain [simp]: "0 \<notin> set s \<Longrightarrow> c_string s = s"
  unfolding c_string_def by (induction s) auto

lemma equals_cstring_plain:
  "0 \<notin> set s \<Longrightarrow> 0 \<notin> set t \<Longrightarrow> String_equals_cstring (Some s) (Some t) \<longleftrightarrow> s = t"
  by (simp add: String_equals_cstring_def)

lemma dots_plain [simp]: "plain_part dotdot" "plain_part dot" "dotdot \<noteq> dot" "0 \<notin> set slash"
  by (simp_all add: plain_part_def dotdot_def dot_def slash_def)

lemma canonical_step_plain:
  assumes "\<forall>q\<in>set qs. plain_part q"
  shows "canonical_step a qs part =
    (if part = dot then qs
     else if part = dotdot \<and> qs = [] \<and> a then qs
     else if part = dotdot \<and> qs \<noteq> [] \<and> last qs \<noteq> dotdot then butlast qs
     else qs @ [part])"
proof (cases "qs = []")
  case False
  then have "plain_part (last qs)" using assms last_in_set by blast
  then have "String_equals_cstring (Some (last qs)) (Some dotdot) \<longleftrightarrow> last qs = dotdot"
    by (intro equals_cstring_plain) (simp_all add: plain_part_def dotdot_def)
  with False show ?thesis by (auto simp: canonical_step_def)
qed (simp add: canonical_step_def)

lemma builder_join_render: "builder_join 0x2F True qs b = b @ join slash qs"
proof -
  have "builder_join 0x2F False qs b = b @ concat (map (\<lambda>q. slash @ q) qs)" for qs b
    by (induction qs arbitrary: b) (simp_all add: slash_def)
  then show ?thesis by (cases qs) (simp_all add: join_def)
qed

lemma normal_plain: "normal_parts a qs \<Longrightarrow> \<forall>q\<in>set qs. plain_part q"
  by (simp add: normal_parts_def)

lemma normal_step:
  assumes "normal_parts a qs" "plain_part part"
  shows "normal_parts a (canonical_step a qs part)"
proof -
  obtain k rest where qs: "qs = replicate k dotdot @ rest" "dotdot \<notin> set rest" "a \<longrightarrow> k = 0"
    and all: "\<forall>q\<in>set qs. plain_part q \<and> q \<noteq> dot"
    using assms(1) by (auto simp: normal_parts_def)
  note step = canonical_step_plain [OF normal_plain [OF assms(1)], of a part]
  consider "part = dot" | "part = dotdot" "rest = []" "a" | "part = dotdot" "rest = []" "\<not> a"
    | "part = dotdot" "rest \<noteq> []" | "part \<noteq> dot" "part \<noteq> dotdot" by blast
  then show ?thesis
  proof cases
    case 1
    then show ?thesis using assms(1) step by simp
  next
    case 2
    then show ?thesis using qs assms(1) step by simp
  next
    case 3
    have "last qs = dotdot" if "qs \<noteq> []" using that qs(1) 3 by (simp split: if_splits)
    then have e: "canonical_step a qs part = replicate (Suc k) dotdot @ []"
      using 3 qs(1) step by (auto simp: replicate_append_same)
    show ?thesis unfolding e by (rule normal_partsI [OF refl]) (use 3 in auto)
  next
    case 4
    then have "last rest \<noteq> dotdot" using qs(2) last_in_set by metis
    with 4 have "last qs \<noteq> dotdot" "qs \<noteq> []" using qs(1) by simp_all
    then have e: "canonical_step a qs part = replicate k dotdot @ butlast rest"
      using 4 qs(1) step by (simp add: butlast_append)
    show ?thesis unfolding e by (rule normal_partsI [OF refl]) (use all qs in \<open>auto dest: in_set_butlastD\<close>)
  next
    case 5
    then have e: "canonical_step a qs part = replicate k dotdot @ (rest @ [part])"
      using qs(1) step by simp
    show ?thesis unfolding e by (rule normal_partsI [OF refl]) (use all qs assms(2) 5 in auto)
  qed
qed

lemma normal_fold:
  "normal_parts a qs \<Longrightarrow> \<forall>q\<in>set parts. plain_part q \<Longrightarrow> normal_parts a (foldl (canonical_step a) qs parts)"
  by (induction parts arbitrary: qs) (simp_all add: normal_step)

lemma normal_Nil [simp]: "normal_parts a []"
  by (rule normal_partsI [of _ 0 "[]"]) simp_all

lemma normal_fixed_from:
  "normal_parts a (acc @ qs) \<Longrightarrow> foldl (canonical_step a) acc qs = acc @ qs"
proof (induction qs arbitrary: acc)
  case (Cons q qs)
  obtain k rest where e: "acc @ q # qs = replicate k dotdot @ rest" "dotdot \<notin> set rest" "a \<longrightarrow> k = 0"
    and all: "\<forall>r\<in>set (acc @ q # qs). plain_part r \<and> r \<noteq> dot"
    using Cons.prems unfolding normal_parts_def by blast
  have front: "length acc < k" if "q = dotdot"
  proof (rule ccontr)
    assume "\<not> length acc < k"
    then have "q = rest ! (length acc - k)" "length acc - k < length rest"
      using arg_cong [OF e(1), of "\<lambda>l. l ! length acc"] arg_cong [OF e(1), of length]
      by (simp_all add: nth_append)
    then show False using e(2) that nth_mem by metis
  qed
  have "last acc = dotdot" if "q = dotdot" "acc \<noteq> []"
  proof -
    have "length acc - 1 < k" "length acc - 1 < length acc" using front [OF that(1)] that(2) by simp_all
    then show ?thesis using arg_cong [OF e(1), of "\<lambda>l. l ! (length acc - 1)"] that(2)
      by (simp add: nth_append last_conv_nth)
  qed
  then have "canonical_step a acc q = acc @ [q]"
    using all front e(3) by (subst canonical_step_plain) auto
  then show ?case using Cons.IH [of "acc @ [q]"] Cons.prems by simp
qed simp

lemmas normal_fixed = normal_fixed_from [of _ "[]", simplified]

section \<open>Parts and rendering\<close>

lemma segments_subset: "q \<in> set (segments P s) \<Longrightarrow> set q \<subseteq> set s"
proof (induction s arbitrary: q)
  case (Cons d s)
  obtain x xs where "segments P s = x # xs" by (meson neq_Nil_conv segments_not_Nil)
  with Cons.prems Cons.IH [of x] Cons.IH [of q] show ?case by (auto split: if_splits)
qed simp

lemma path_parts_plain: "0 \<notin> set p \<Longrightarrow> \<forall>q\<in>set (path_parts p). plain_part q"
  using segments_free [of _ "\<lambda>c. c = 0x2F" p] segments_subset [of _ "\<lambda>c. c = 0x2F" p]
  by (fastforce simp: path_parts_def plain_part_def)

lemma segments_single: "\<forall>c\<in>set q. \<not> P c \<Longrightarrow> segments P q = [q]"
  by (induction q) simp_all

lemma segments_append_sep:
  "\<forall>c\<in>set q. \<not> P c \<Longrightarrow> P c \<Longrightarrow> segments P (q @ c # s) = q # segments P s"
  by (induction q) simp_all

lemma segments_join:
  "\<forall>q\<in>set (q # qs). sep \<notin> set q \<Longrightarrow> segments (\<lambda>c. c = sep) (join [sep] (q # qs)) = q # qs"
proof (induction qs arbitrary: q)
  case Nil
  then show ?case by (auto simp: join_def intro!: segments_single)
next
  case (Cons r qs)
  have "join [sep] (q # r # qs) = q @ sep # join [sep] (r # qs)" by (simp add: join_def)
  moreover have "\<forall>c\<in>set q. c \<noteq> sep" using Cons.prems by auto
  ultimately show ?case using Cons.IH [of r] Cons.prems by (simp add: segments_append_sep)
qed

lemma path_parts_join:
  assumes "\<forall>q\<in>set qs. plain_part q"
  shows "path_parts (join slash qs) = qs" "path_parts (slash @ join slash qs) = qs"
proof -
  show *: "path_parts (join slash qs) = qs"
  proof (cases qs)
    case (Cons q rest)
    have "segments (\<lambda>c. c = 0x2F) (join slash qs) = qs"
      using assms unfolding Cons slash_def by (intro segments_join) (auto simp: plain_part_def)
    then show ?thesis using assms by (simp add: path_parts_def plain_part_def)
  qed (simp add: path_parts_def join_def)
  have "segments (\<lambda>c. c = 0x2F) (slash @ s) = [] # segments (\<lambda>c. c = 0x2F) s" for s
    by (simp add: slash_def)
  then show "path_parts (slash @ join slash qs) = qs" using * by (simp add: path_parts_def)
qed

lemma join_first:
  "qs \<noteq> [] \<Longrightarrow> plain_part (hd qs) \<Longrightarrow> join slash qs \<noteq> [] \<and> join slash qs ! 0 \<noteq> 0x2F"
  by (cases qs; cases "hd qs") (auto simp: join_def plain_part_def)

lemma rooted_render: "\<forall>q\<in>set qs. plain_part q \<Longrightarrow> rooted (render a qs) = a"
  using join_first [of qs] by (cases qs) (auto simp: rooted_def render_def slash_def dot_def)

lemma canonical_render:
  assumes "normal_parts a qs"
  shows "canonical_form (render a qs) = render a qs"
proof -
  note plain = normal_plain [OF assms]
  show ?thesis
  proof (cases "a \<or> qs \<noteq> []")
    case True
    then have "path_parts (render a qs) = qs" using path_parts_join [OF plain] by (auto simp: render_def)
    then show ?thesis
      using normal_fixed [OF assms] rooted_render [OF plain] by (simp add: canonical_form_def canonical_parts_of_def)
  next
    case False
    have "path_parts dot = [dot]" by (simp add: path_parts_def dot_def)
    then show ?thesis using False
      by (simp add: canonical_form_def canonical_parts_of_def render_def rooted_def canonical_step_def dot_def)
  qed
qed

text \<open>
  Which parts survive, without a stack: going through the parts from the last to the first, each
  \<open>..\<close> waits for a name before it and takes that name away. Those that find none stay at the front of
  a relative path and have no effect in an absolute one.
\<close>

fun resolve_back :: "nat \<Rightarrow> chars list \<Rightarrow> nat \<times> chars list" where
  "resolve_back waiting [] = (waiting, [])"
| "resolve_back waiting (q # qs) =
     (if q = dot then resolve_back waiting qs
      else if q = dotdot then resolve_back (waiting + 1) qs
      else if waiting > 0 then resolve_back (waiting - 1) qs
      else let (left, kept) = resolve_back 0 qs in (left, kept @ [q]))"

definition resolve :: "bool \<Rightarrow> chars list \<Rightarrow> chars list" where
  "resolve is_absolute qs =
     (let (left, kept) = resolve_back 0 (rev qs) in (if is_absolute then [] else replicate left dotdot) @ kept)"

lemma fold_resolve_back:
  "\<forall>q\<in>set parts. plain_part q \<Longrightarrow>
   \<exists>m rest. foldl (canonical_step a) [] parts = (if a then [] else replicate m dotdot) @ rest \<and> dotdot \<notin> set rest \<and>
     (\<forall>k. resolve_back k (rev parts) = (m + (k - length rest), take (length rest - k) rest))"
proof (induction parts rule: rev_induct)
  case (snoc q parts)
  then obtain m rest where ih: "foldl (canonical_step a) [] parts = (if a then [] else replicate m dotdot) @ rest"
      "dotdot \<notin> set rest" "\<And>k. resolve_back k (rev parts) = (m + (k - length rest), take (length rest - k) rest)" by auto
  have "normal_parts a (foldl (canonical_step a) [] parts)" using snoc.prems by (intro normal_fold) simp_all
  note step = canonical_step_plain [OF normal_plain [OF this], of a q, unfolded ih(1)]
  consider "q = dot" | "q = dotdot" "rest = []" | "q = dotdot" "rest \<noteq> []" | "q \<noteq> dot" "q \<noteq> dotdot" by blast
  then show ?case
  proof cases
    case 1
    then show ?thesis using ih step by (intro exI [of _ m] exI [of _ rest]) simp
  next
    case 2
    have "foldl (canonical_step a) [] (parts @ [q]) = (if a then [] else replicate (Suc m) dotdot) @ []"
      using 2 ih(1) step by (cases m) (auto simp: replicate_append_same)
    then show ?thesis using 2 ih(3) by (intro exI [of _ "Suc m"] exI [of _ "[]"]) simp
  next
    case 3
    then have "last rest \<noteq> dotdot" using ih(2) last_in_set by metis
    then have "foldl (canonical_step a) [] (parts @ [q]) = (if a then [] else replicate m dotdot) @ butlast rest"
      using 3 ih(1) step by (simp add: butlast_append)
    moreover have "take (length rest - Suc k) rest = take (length rest - Suc 0 - k) (butlast rest)" for k
      by (simp add: butlast_conv_take min_def)
    moreover have "Suc k - length rest = k - (length rest - Suc 0)" for k using 3(2) by (cases rest) simp_all
    ultimately show ?thesis using 3 ih(2,3) by (intro exI [of _ m] exI [of _ "butlast rest"]) (auto dest: in_set_butlastD)
  next
    case 4
    then have "foldl (canonical_step a) [] (parts @ [q]) = (if a then [] else replicate m dotdot) @ (rest @ [q])"
      using ih(1) step by simp
    moreover have "resolve_back k (rev (parts @ [q])) = (m + (k - length (rest @ [q])), take (length (rest @ [q]) - k) (rest @ [q]))" for k
      using 4 ih(3) by (cases k) simp_all
    ultimately show ?thesis using 4 ih(2) by (intro exI [of _ m] exI [of _ "rest @ [q]"]) simp
  qed
qed simp

lemma canonical_parts_resolve:
  assumes "0 \<notin> set p"
  shows "canonical_parts_of p = resolve (rooted p) (path_parts p)"
  using fold_resolve_back [OF path_parts_plain [OF assms], of "rooted p"]
  by (auto simp: canonical_parts_of_def resolve_def)

lemma canonical_parts_normal: "0 \<notin> set p \<Longrightarrow> normal_parts (rooted p) (canonical_parts_of p)"
  unfolding canonical_parts_of_def by (intro normal_fold path_parts_plain normal_Nil)

lemma canonical_form_idem: "0 \<notin> set p \<Longrightarrow> canonical_form (canonical_form p) = canonical_form p"
  using canonical_render [OF canonical_parts_normal [of p]] by (simp add: canonical_form_def)

section \<open>The early return\<close>

lemma inner_empty_segment:
  "[] \<in> set (tl (segments (\<lambda>c. c = sep) s)) \<Longrightarrow> (\<exists>a b. s = a @ [sep, sep] @ b) \<or> (\<exists>a. s = a @ [sep])"
proof (induction s)
  case (Cons c s)
  obtain x xs where x: "segments (\<lambda>c. c = sep) s = x # xs" by (meson neq_Nil_conv segments_not_Nil)
  show ?case
  proof (cases "c = sep \<and> x = []")
    case True
    then have "s = [] \<or> (\<exists>t. s = sep # t)" using x by (cases s) (auto split: if_splits list.splits)
    then show ?thesis using True by (metis append_Cons append_Nil)
  next
    case False
    then have "[] \<in> set xs" using Cons.prems x by (auto split: if_splits)
    then show ?thesis using Cons.IH x by (metis append_Cons list.sel(3))
  qed
qed simp

lemma early_canonical:
  assumes "p \<noteq> []" "0 \<notin> set p" "0x2E \<notin> set p" "\<not> (\<exists>a b. p = a @ [0x2F, 0x2F] @ b)" "\<not> (\<exists>a. p = a @ [0x2F])"
  shows "canonical_form p = p"
proof -
  let ?segs = "segments (\<lambda>c. c = 0x2F) p"
  obtain x xs where x: "?segs = x # xs" by (meson neq_Nil_conv segments_not_Nil)
  have ne: "[] \<notin> set xs" using inner_empty_segment [of "0x2F" p] assms(4,5) x by auto
  have p: "p = join slash (x # xs)" using join_segments [of "0x2F" p] x by (simp add: slash_def)
  have root: "rooted p \<longleftrightarrow> x = []"
    using x assms(1) by (cases p) (auto simp: rooted_def split: if_splits list.splits)
  have parts: "path_parts p = (if x = [] then xs else x # xs)"
    using ne x by (auto simp: path_parts_def filter_id_conv)
  have "q \<noteq> dot \<and> q \<noteq> dotdot" if "q \<in> set ?segs" for q
    using segments_subset [OF that] assms(3) by (auto simp: dot_def dotdot_def)
  then have dots: "\<forall>q\<in>set (path_parts p). plain_part q \<and> q \<noteq> dot \<and> q \<noteq> dotdot"
    using path_parts_plain [OF assms(2)] by (auto simp: path_parts_def)
  have "normal_parts (rooted p) (path_parts p)"
    by (rule normal_partsI [of _ 0 "path_parts p"]) (use dots in auto)
  moreover have "xs \<noteq> []" if "x = []" using that p assms(1) by (auto simp: join_def)
  then have "render (rooted p) (path_parts p) = p"
    unfolding parts root using p by (auto simp: render_def join_def slash_def neq_Nil_conv)
  ultimately show ?thesis by (simp add: canonical_form_def canonical_parts_of_def normal_fixed)
qed

section \<open>The code computes the canonical form\<close>

lemma canonicalized_path_spec:
  assumes "p \<noteq> []" "length p < 2 ^ 32" "0 \<notin> set p"
  shows "canonicalized_path (Some p) = Some (Inr (Some (canonical_form p)))"
proof -
  have dots: "contains (Some p) (Some dot) CaseSensitive = Some (Inr (0x2E \<in> set p))"
    using contains_sensitive [of dot p] assms(1) by (auto simp: dot_def in_set_conv_decomp)
  have slashes: "contains (Some p) (Some (slash @ slash)) CaseSensitive = Some (Inr (\<exists>a b. p = a @ [0x2F, 0x2F] @ b))"
    using contains_sensitive [of "slash @ slash" p] assms(1) by (simp add: slash_def)
  have split: "String_split_view p 0x2F False = Inr (path_parts p)"
    using assms(1) by (simp add: String_split_view_eq [OF assms(2)] split_view_spec finish_split_def path_parts_def)
  have at0: "vec_at p 0 = Inr (p ! 0)" using assms(1) by (simp add: vec_at_def)
  have full: "builder_join 0x2F True (if qs = [] \<and> \<not> a then [dot] else qs) (if a then slash else []) = render a qs"
    for a qs by (auto simp: builder_join_render render_def join_def)
  show ?thesis
  proof (cases "0x2E \<notin> set p \<and> \<not> (\<exists>a b. p = a @ [0x2F, 0x2F] @ b) \<and> \<not> (\<exists>a. p = a @ [0x2F])")
    case True
    then have "canonicalized_path (Some p) = Some (Inr (Some p))"
      using assms(1) by (simp add: canonicalized_path_def dots slashes ends_with_char_iff)
    then show ?thesis using early_canonical [OF assms(1,3)] True by simp
  next
    case False
    then have "canonicalized_path (Some p) =
        Some (Inr (Some (render (p ! 0 = 0x2F) (foldl (canonical_step (p ! 0 = 0x2F)) [] (path_parts p)))))"
      using assms(1) unfolding canonicalized_path_def
      by (auto simp: dots slashes ends_with_char_iff at0 split Let_def full)
    then show ?thesis using assms(1) by (simp add: canonical_form_def canonical_parts_of_def rooted_def)
  qed
qed

definition parts_weight :: "chars list \<Rightarrow> nat" where
  "parts_weight qs = (\<Sum>q\<leftarrow>qs. length q + 1)"

lemma parts_weight_simps [simp]:
  "parts_weight [] = 0" "parts_weight (q # qs) = length q + 1 + parts_weight qs"
  "parts_weight (qs @ rs) = parts_weight qs + parts_weight rs"
  by (simp_all add: parts_weight_def)

lemma length_join: "qs \<noteq> [] \<Longrightarrow> length (join slash qs) + 1 = parts_weight qs"
proof -
  have "length (concat (map (\<lambda>q. slash @ q) qs)) = parts_weight qs" for qs
    by (induction qs) (simp_all add: slash_def)
  then show "qs \<noteq> [] \<Longrightarrow> length (join slash qs) + 1 = parts_weight qs" by (cases qs) (simp_all add: join_def)
qed

lemma parts_weight_step: "parts_weight (canonical_step a qs part) \<le> parts_weight qs + length part + 1"
proof -
  have "parts_weight (butlast qs) \<le> parts_weight qs" by (cases qs rule: rev_cases) simp_all
  then show ?thesis by (auto simp: canonical_step_def)
qed

lemma parts_weight_fold: "parts_weight (foldl (canonical_step a) qs parts) \<le> parts_weight qs + parts_weight parts"
proof (induction parts arbitrary: qs)
  case (Cons part parts)
  show ?case using parts_weight_step [of a qs part] Cons.IH [of "canonical_step a qs part"]
    by (simp del: Suc_eq_plus1)
qed simp

lemma parts_weight_filter: "parts_weight (filter P qs) \<le> parts_weight qs"
  by (induction qs) simp_all

lemma parts_weight_segments: "parts_weight (segments P s) = length s + 1"
proof (induction s)
  case (Cons c s)
  then show ?case by (cases "segments P s") simp_all
qed simp

lemma path_parts_weight: "parts_weight (path_parts p) + (if rooted p then 1 else 0) \<le> length p + 1"
proof (cases "rooted p")
  case True
  then obtain s where "p = 0x2F # s" by (cases p) (auto simp: rooted_def)
  then show ?thesis using parts_weight_filter [of "\<lambda>q. q \<noteq> []" "segments (\<lambda>c. c = 0x2F) s"]
    by (simp add: path_parts_def parts_weight_segments rooted_def)
next
  case False
  then show ?thesis using parts_weight_filter [of "\<lambda>q. q \<noteq> []" "segments (\<lambda>c. c = 0x2F) p"]
    by (simp add: path_parts_def parts_weight_segments)
qed

lemma canonical_form_length: "p \<noteq> [] \<Longrightarrow> length (canonical_form p) \<le> length p"
proof -
  assume p: "p \<noteq> []"
  have "parts_weight (canonical_parts_of p) + (if rooted p then 1 else 0) \<le> length p + 1"
    using parts_weight_fold [of "rooted p" "[]" "path_parts p"] path_parts_weight [of p]
    by (simp add: canonical_parts_of_def split: if_splits)
  moreover have "1 \<le> length p" using p by (cases p) simp_all
  ultimately show ?thesis
    using length_join [of "canonical_parts_of p"]
    by (cases "canonical_parts_of p = []") (auto simp: canonical_form_def render_def slash_def dot_def join_def split: if_splits)
qed

lemma canonical_form_not_Nil: "0 \<notin> set p \<Longrightarrow> canonical_form p \<noteq> []"
proof -
  assume "0 \<notin> set p"
  then have "\<forall>q\<in>set (canonical_parts_of p). plain_part q" using canonical_parts_normal normal_plain by blast
  then show ?thesis using join_first [of "canonical_parts_of p"]
    by (cases "canonical_parts_of p") (auto simp: canonical_form_def render_def slash_def dot_def)
qed

section \<open>The constructor\<close>

lemma find_last_bound: "find_last s c = Some i \<Longrightarrow> i < length s"
  by (auto simp: find_last_def find_last_loop_Some)

lemma dirname_total: "length s < 2 ^ 32 \<Longrightarrow> \<exists>d. LexicalPath_dirname_of s = Inr d"
  using find_last_bound [of s "0x2F"]
  by (auto simp: LexicalPath_dirname_of_def Suc_le_eq split: option.splits)

lemma title_total:
  assumes "length b < 2 ^ 32"
  shows "\<exists>title extension. LexicalPath_title_of b = Inr (title, extension)"
proof (cases "find_last b 0x2E")
  case (Some i)
  then have "i < length b" by (rule find_last_bound)
  then have "StringView_substring_view b 0 i = Inr (take i b)"
    "StringView_substring_view_from b (i + 1) = Inr (drop (i + 1) b)"
    using assms by (simp_all add: StringView_substring_view_from_def usub_le)
  then show ?thesis using Some by (simp add: LexicalPath_title_of_def)
qed (simp add: LexicalPath_title_of_def)

lemma canonical_form_no_parts:
  "0 \<notin> set p \<Longrightarrow> path_parts (canonical_form p) = [] \<Longrightarrow> canonical_form p = slash"
proof -
  assume p: "0 \<notin> set p" and e: "path_parts (canonical_form p) = []"
  note plain = normal_plain [OF canonical_parts_normal [OF p]]
  have "path_parts dot = [dot]" by (simp add: path_parts_def dot_def)
  with e path_parts_join [OF plain] show ?thesis
    by (auto simp: canonical_form_def render_def join_def split: if_splits)
qed

lemma parts_weight_member: "q \<in> set qs \<Longrightarrow> length q < parts_weight qs"
  by (induction qs) auto

lemma path_parts_length: "q \<in> set (path_parts p) \<Longrightarrow> length q \<le> length p"
  using parts_weight_member [of q "path_parts p"] path_parts_weight [of p] by (simp split: if_splits)

lemma canonical_form_plain: "0 \<notin> set p \<Longrightarrow> 0 \<notin> set (canonical_form p)"
proof -
  assume "0 \<notin> set p"
  then have "\<forall>q\<in>set (canonical_parts_of p). plain_part q" using canonical_parts_normal normal_plain by blast
  then show ?thesis
    by (cases "canonical_parts_of p")
      (auto simp: canonical_form_def render_def join_def slash_def dot_def plain_part_def)
qed

lemma lexical_create_spec:
  assumes "p \<noteq> []" "length p < 2 ^ 32" "0 \<notin> set p"
  shows "\<exists>lp. LexicalPath_create (Some p) = Some (Inr lp) \<and> lp_string lp = canonical_form p \<and>
    lp_parts lp = path_parts (canonical_form p) \<and>
    lp_basename lp = (if canonical_form p = slash then slash else last (lp_parts lp))"
proof -
  let ?s = "canonical_form p"
  have len: "length ?s < 2 ^ 32" using canonical_form_length [OF assms(1)] assms(2) by simp
  have ne: "?s \<noteq> []" by (rule canonical_form_not_Nil [OF assms(3)])
  have split: "String_split_view ?s 0x2F False = Inr (path_parts ?s)"
    using ne by (simp add: String_split_view_eq [OF len] split_view_spec finish_split_def path_parts_def)
  obtain d where d: "LexicalPath_dirname_of ?s = Inr d" using dirname_total [OF len] by blast
  define b where "b = (if ?s = slash then slash else last (path_parts ?s))"
  have root: "String_equals_cstring (Some ?s) (Some slash) \<longleftrightarrow> ?s = slash"
    by (rule equals_cstring_plain [OF canonical_form_plain [OF assms(3)]]) simp
  have parts: "path_parts ?s \<noteq> []" if "?s \<noteq> slash" using canonical_form_no_parts [OF assms(3)] that by blast
  have base: "(if String_equals_cstring (Some ?s) (Some slash) then Inr ?s
      else verify (length (path_parts ?s) > 0) (Inr (last (path_parts ?s)))) = Inr b"
    using parts by (simp add: root b_def)
  have "length b < 2 ^ 32"
    using parts path_parts_length [of "last (path_parts ?s)" ?s] len by (auto simp: b_def slash_def)
  then obtain t e where t: "LexicalPath_title_of b = Inr (t, e)" using title_total by blast
  have "LexicalPath_create (Some p) = Some (Inr \<lparr>lp_parts = path_parts ?s, lp_string = ?s, lp_dirname = d,
      lp_basename = b, lp_title = t, lp_extension = e\<rparr>)"
    unfolding LexicalPath_create_def canonicalized_path_spec [OF assms] xbind_simps lift_res_simps
      view_chars_def option.case Let_def split rbind_simps d base t prod.case using ne by simp
  then show ?thesis by (simp add: b_def)
qed

end
