(* ===== verification/Generic_Lexer.thy ===== *)
theory Generic_Lexer
  imports Strings
begin

text \<open>
  \<open>base/GenericLexer.h\<close> and \<open>base/GenericLexer.cpp\<close>: a cursor over a view. Every operation takes
  the lexer and returns its result with the lexer afterwards. No view has more than half of the
  address space, so the increments of the cursor, all of which start at most one past the end of
  the input, do not wrap; differences are the code's unsigned ones. A null view is \<open>None\<close>.
\<close>

section \<open>The lexer\<close>

record lexer =
  m_input :: chars
  m_index :: nat

definition GenericLexer_create :: "chars \<Rightarrow> lexer" where
  "GenericLexer_create input = \<lparr>m_input = input, m_index = 0\<rparr>"

definition lexer_tell :: "lexer \<Rightarrow> nat" where
  "lexer_tell l = m_index l"

definition tell_remaining :: "lexer \<Rightarrow> nat" where
  "tell_remaining l = usub (length (m_input l)) (m_index l)"

definition lexer_remaining :: "lexer \<Rightarrow> chars res" where
  "lexer_remaining l = StringView_substring_view_from (m_input l) (m_index l)"

definition is_eof :: "lexer \<Rightarrow> bool" where
  "is_eof l \<longleftrightarrow> m_index l \<ge> length (m_input l)"

definition peek :: "lexer \<Rightarrow> nat \<Rightarrow> u8" where
  "peek l offset = (if m_index l + offset < length (m_input l) then m_input l ! (m_index l + offset) else 0)"

definition next_is_char :: "lexer \<Rightarrow> u8 \<Rightarrow> bool" where
  "next_is_char l expected \<longleftrightarrow> peek l 0 = expected"

fun next_is_from :: "lexer \<Rightarrow> nat \<Rightarrow> chars \<Rightarrow> bool" where
  "next_is_from l i [] = True"
| "next_is_from l i (c # expected) = (if peek l i \<noteq> c then False else next_is_from l (i + 1) expected)"

text \<open>The overloads for a view and for a C string, which is its bytes before the terminator.\<close>

definition next_is_view :: "lexer \<Rightarrow> chars \<Rightarrow> bool" where
  "next_is_view l expected = next_is_from l 0 expected"

definition next_is_cstring :: "lexer \<Rightarrow> chars \<Rightarrow> bool" where
  "next_is_cstring l expected = next_is_from l 0 (c_string expected)"

definition next_is_pred :: "lexer \<Rightarrow> (u8 \<Rightarrow> bool) \<Rightarrow> bool" where
  "next_is_pred l pred = pred (peek l 0)"

definition retreat :: "lexer \<Rightarrow> lexer res" where
  "retreat l = verify (m_index l > 0) (Inr (l\<lparr>m_index := m_index l - 1\<rparr>))"

definition retreat_by :: "lexer \<Rightarrow> nat \<Rightarrow> lexer res" where
  "retreat_by l count = verify (m_index l \<ge> count) (Inr (l\<lparr>m_index := m_index l - count\<rparr>))"

definition lexer_consume :: "lexer \<Rightarrow> (u8 \<times> lexer) res" where
  "lexer_consume l =
     verify (\<not> is_eof l)
       (rbind (read_at (m_input l) (m_index l)) (\<lambda>c. Inr (c, l\<lparr>m_index := m_index l + 1\<rparr>)))"

definition ignore :: "lexer \<Rightarrow> nat \<Rightarrow> lexer" where
  "ignore l count =
     (let count = min count (usub (length (m_input l)) (m_index l)) in l\<lparr>m_index := m_index l + count\<rparr>)"

definition consume_specific_char :: "lexer \<Rightarrow> u8 \<Rightarrow> bool \<times> lexer" where
  "consume_specific_char l c = (if \<not> next_is_char l c then (False, l) else (True, ignore l 1))"

definition consume_specific_view :: "lexer \<Rightarrow> chars \<Rightarrow> bool \<times> lexer" where
  "consume_specific_view l v = (if \<not> next_is_view l v then (False, l) else (True, ignore l (length v)))"

section \<open>Scanning\<close>

text \<open>The loop \<open>while (!is_eof() && ...) ++m_index\<close> that the operations below share.\<close>

function skip_while :: "(lexer \<Rightarrow> bool) \<Rightarrow> lexer \<Rightarrow> lexer" where
  "skip_while go l =
     (if \<not> is_eof l \<and> go l then skip_while go (l\<lparr>m_index := m_index l + 1\<rparr>) else l)"
  by pat_completeness auto
termination
  by (relation "measure (\<lambda>(go, l). length (m_input l) - m_index l)") (auto simp: is_eof_def)

declare skip_while.simps [simp del]

text \<open>The end of those operations: null when nothing was skipped, else the view skipped.\<close>

definition skipped_view :: "lexer \<Rightarrow> lexer \<Rightarrow> view res" where
  "skipped_view l l' =
     (let start = m_index l; len = m_index l' - start
      in if len = 0 then Inr None
         else rbind (StringView_substring_view (m_input l) start len) (\<lambda>v. Inr (Some v)))"

definition consume_count :: "lexer \<Rightarrow> nat \<Rightarrow> (view \<times> lexer) res" where
  "consume_count l count =
     (if count = 0 then Inr (None, l)
      else let start = m_index l; len = min count (usub (length (m_input l)) (m_index l))
           in rbind (StringView_substring_view (m_input l) start len) (\<lambda>v.
              Inr (Some v, l\<lparr>m_index := m_index l + len\<rparr>)))"

definition consume_all :: "lexer \<Rightarrow> (view \<times> lexer) res" where
  "consume_all l =
     (if is_eof l then Inr (None, l)
      else rbind (StringView_substring_view (m_input l) (m_index l) (usub (length (m_input l)) (m_index l))) (\<lambda>unread.
           Inr (Some unread, l\<lparr>m_index := length (m_input l)\<rparr>)))"

definition consume_line :: "lexer \<Rightarrow> (view \<times> lexer) res" where
  "consume_line l =
     (let l' = skip_while (\<lambda>l. peek l 0 \<noteq> 0x0D \<and> peek l 0 \<noteq> 0x0A) l;
          (_, l1) = consume_specific_char l' 0x0D;
          (_, l2) = consume_specific_char l1 0x0A
      in rbind (skipped_view l l') (\<lambda>v. Inr (v, l2)))"

definition consume_until_char :: "lexer \<Rightarrow> u8 \<Rightarrow> (view \<times> lexer) res" where
  "consume_until_char l stop =
     (let l' = skip_while (\<lambda>l. peek l 0 \<noteq> stop) l
      in rbind (skipped_view l l') (\<lambda>v. Inr (v, ignore l' 1)))"

definition consume_until_cstring :: "lexer \<Rightarrow> chars \<Rightarrow> (view \<times> lexer) res" where
  "consume_until_cstring l stop =
     (let l' = skip_while (\<lambda>l. \<not> next_is_cstring l stop) l
      in rbind (skipped_view l l') (\<lambda>v. Inr (v, ignore l' (length (c_string stop)))))"

definition consume_while :: "lexer \<Rightarrow> (u8 \<Rightarrow> bool) \<Rightarrow> (view \<times> lexer) res" where
  "consume_while l pred =
     (let l' = skip_while (\<lambda>l. pred (peek l 0)) l in rbind (skipped_view l l') (\<lambda>v. Inr (v, l')))"

definition consume_until_pred :: "lexer \<Rightarrow> (u8 \<Rightarrow> bool) \<Rightarrow> (view \<times> lexer) res" where
  "consume_until_pred l pred =
     (let l' = skip_while (\<lambda>l. \<not> pred (peek l 0)) l in rbind (skipped_view l l') (\<lambda>v. Inr (v, l')))"

definition ignore_until_char :: "lexer \<Rightarrow> u8 \<Rightarrow> lexer" where
  "ignore_until_char l stop = ignore (skip_while (\<lambda>l. peek l 0 \<noteq> stop) l) 1"

definition ignore_until_cstring :: "lexer \<Rightarrow> chars \<Rightarrow> lexer" where
  "ignore_until_cstring l stop =
     ignore (skip_while (\<lambda>l. \<not> next_is_cstring l stop) l) (length (c_string stop))"

definition ignore_while :: "lexer \<Rightarrow> (u8 \<Rightarrow> bool) \<Rightarrow> lexer" where
  "ignore_while l pred = skip_while (\<lambda>l. pred (peek l 0)) l"

definition ignore_until_pred :: "lexer \<Rightarrow> (u8 \<Rightarrow> bool) \<Rightarrow> lexer" where
  "ignore_until_pred l pred = skip_while (\<lambda>l. \<not> pred (peek l 0)) l"

section \<open>Quoted strings\<close>

definition is_any_of :: "chars \<Rightarrow> u8 \<Rightarrow> bool" where
  "is_any_of values c = StringView_contains_char values c"

definition is_path_separator :: "u8 \<Rightarrow> bool" where
  "is_path_separator = is_any_of [0x2F, 0x5C]"

definition is_quote :: "u8 \<Rightarrow> bool" where
  "is_quote = is_any_of [0x27, 0x22]"

function quoted_loop :: "u8 \<Rightarrow> u8 \<Rightarrow> lexer \<Rightarrow> lexer" where
  "quoted_loop escape_char quote_char l =
     (if is_eof l then l
      else if next_is_char l escape_char
      then quoted_loop escape_char quote_char (l\<lparr>m_index := m_index l + 1 + 1\<rparr>)
      else if next_is_char l quote_char then l
      else quoted_loop escape_char quote_char (l\<lparr>m_index := m_index l + 1\<rparr>))"
  by pat_completeness auto
termination
  by (relation "measure (\<lambda>(e, q, l). length (m_input l) - m_index l)") (auto simp: is_eof_def)

declare quoted_loop.simps [simp del]

definition consume_quoted_string :: "lexer \<Rightarrow> u8 \<Rightarrow> (view \<times> lexer) res" where
  "consume_quoted_string l escape_char =
     (if \<not> next_is_pred l is_quote then Inr (None, l)
      else rbind (lexer_consume l) (\<lambda>(quote_char, l).
        let start = m_index l; l' = quoted_loop escape_char quote_char l; len = m_index l' - start
        in if peek l' 0 \<noteq> quote_char then Inr (None, l'\<lparr>m_index := start - 1\<rparr>)
           else rbind (StringView_substring_view (m_input l) start len) (\<lambda>v. Inr (Some v, ignore l' 1))))"

definition default_escape_map :: chars where
  "default_escape_map = [0x6E, 0x0A, 0x72, 0x0D, 0x74, 0x09, 0x62, 0x08, 0x66, 0x0C]"

fun escape_lookup :: "chars \<Rightarrow> u8 \<Rightarrow> u8 res" where
  "escape_lookup [] c = Inr c"
| "escape_lookup [k] c = (if c = k then Inl Out_Of_Bounds else Inr c)"
| "escape_lookup (k # v # escape_map) c = (if c = k then Inr v else escape_lookup escape_map c)"

definition consume_escaped_character :: "lexer \<Rightarrow> u8 \<Rightarrow> chars \<Rightarrow> (u8 \<times> lexer) res" where
  "consume_escaped_character l escape_char escape_map =
     (let (escaped, l1) = consume_specific_char l escape_char
      in if \<not> escaped then lexer_consume l1
         else rbind (lexer_consume l1) (\<lambda>(c, l2).
              rbind (escape_lookup escape_map c) (\<lambda>c. Inr (c, l2))))"

fun unescape_loop :: "u8 \<Rightarrow> nat \<Rightarrow> chars \<Rightarrow> lexer \<Rightarrow> (chars \<times> lexer) res" where
  "unescape_loop escape_char 0 builder l = Inr (builder, l)"
| "unescape_loop escape_char (Suc n) builder l =
     rbind (consume_escaped_character l escape_char default_escape_map) (\<lambda>(c, l).
       unescape_loop escape_char n (builder @ [c]) l)"

definition consume_and_unescape_string :: "lexer \<Rightarrow> u8 \<Rightarrow> (view \<times> lexer) res" where
  "consume_and_unescape_string l escape_char =
     rbind (consume_quoted_string l escape_char) (\<lambda>(v, l).
       case v of
         None \<Rightarrow> Inr (None, l)
       | Some s \<Rightarrow> rbind (unescape_loop escape_char (length s) [] l) (\<lambda>(builder, l). Inr (Some builder, l)))"

section \<open>The cursor stays in the input\<close>

definition lexer_ok :: "lexer \<Rightarrow> bool" where
  "lexer_ok l \<longleftrightarrow> m_index l \<le> length (m_input l) \<and> length (m_input l) < 2 ^ 31"

definition unread :: "lexer \<Rightarrow> chars" where
  "unread l = drop (m_index l) (m_input l)"

lemma is_eof_unread: "is_eof l \<longleftrightarrow> unread l = []"
  by (simp add: is_eof_def unread_def)

lemma peek_unread: "peek l i = (if i < length (unread l) then unread l ! i else 0)"
  by (auto simp: peek_def unread_def less_diff_conv add.commute)

lemma peek_Cons: "unread l = c # r \<Longrightarrow> peek l 0 = c"
  by (simp add: peek_unread)

lemma unread_advance [simp]: "unread (l\<lparr>m_index := m_index l + n\<rparr>) = drop n (unread l)"
  by (simp add: unread_def add.commute)

lemma unread_Suc [simp]: "unread (l\<lparr>m_index := Suc (m_index l)\<rparr>) = drop 1 (unread l)"
  using unread_advance [of l 1] by simp

lemma usub_index [simp]: "lexer_ok l \<Longrightarrow> usub (length (m_input l)) (m_index l) = length (unread l)"
  by (simp add: lexer_ok_def unread_def)

lemma ignore_eq:
  "lexer_ok l \<Longrightarrow> ignore l n = l\<lparr>m_index := m_index l + min n (length (unread l))\<rparr>"
  by (simp add: ignore_def Let_def)

lemma lexer_ok_advance:
  "lexer_ok l \<Longrightarrow> n \<le> length (unread l) \<Longrightarrow> lexer_ok (l\<lparr>m_index := m_index l + n\<rparr>)"
  by (auto simp: lexer_ok_def unread_def)

lemma unread_ignore [simp]: "lexer_ok l \<Longrightarrow> unread (ignore l n) = drop n (unread l)"
  by (simp add: ignore_eq min_def)

lemma ok_ignore [simp]: "lexer_ok l \<Longrightarrow> lexer_ok (ignore l n)"
  by (simp add: ignore_eq lexer_ok_advance)

lemma input_ignore [simp]: "m_input (ignore l n) = m_input l"
  by (simp add: ignore_def Let_def)

lemma consume_eq:
  "lexer_consume l = (case unread l of [] \<Rightarrow> Inl Verify_Failed | c # r \<Rightarrow> Inr (c, l\<lparr>m_index := m_index l + 1\<rparr>))"
proof (cases "unread l")
  case (Cons c r)
  then have lt: "m_index l < length (m_input l)" by (metis drop_eq_Nil leI list.distinct(1) unread_def)
  then have "m_input l ! m_index l = c" using Cons by (metis hd_drop_conv_nth list.sel(1) unread_def)
  then show ?thesis using Cons lt by (simp add: lexer_consume_def is_eof_unread read_at_def)
qed (simp add: lexer_consume_def is_eof_unread)

text \<open>A scan stops at the first position that does not satisfy its condition.\<close>

lemma skip_while_props:
  "\<exists>n\<le>length (unread l). skip_while go l = l\<lparr>m_index := m_index l + n\<rparr> \<and>
     (\<forall>i<n. go (l\<lparr>m_index := m_index l + i\<rparr>)) \<and>
     (n < length (unread l) \<longrightarrow> \<not> go (l\<lparr>m_index := m_index l + n\<rparr>))"
proof (induction go l rule: skip_while.induct)
  case (1 go l)
  show ?case
  proof (cases "\<not> is_eof l \<and> go l")
    case True
    let ?l = "l\<lparr>m_index := m_index l + 1\<rparr>"
    obtain n where n: "n \<le> length (unread ?l)" "skip_while go ?l = ?l\<lparr>m_index := m_index ?l + n\<rparr>"
      "\<forall>i<n. go (?l\<lparr>m_index := m_index ?l + i\<rparr>)"
      "n < length (unread ?l) \<longrightarrow> \<not> go (?l\<lparr>m_index := m_index ?l + n\<rparr>)"
      using 1 True by blast
    have "length (unread l) > 0" using True by (simp add: is_eof_unread)
    then have "Suc n \<le> length (unread l)" using n(1) by (cases "unread l") simp_all
    moreover have "go (l\<lparr>m_index := m_index l + i\<rparr>)" if "i < Suc n" for i
      using n(3) True that by (cases i) auto
    ultimately show ?thesis using n(1,2,4) True
      by (intro exI [of _ "Suc n"]) (auto simp: skip_while.simps [of go l])
  next
    case False
    then show ?thesis by (intro exI [of _ 0]) (auto simp: skip_while.simps [of go l] is_eof_unread)
  qed
qed

lemma skip_while_chars:
  "skip_while (\<lambda>l. P (peek l 0)) l = l\<lparr>m_index := m_index l + length (takeWhile P (unread l))\<rparr>"
proof -
  obtain n where n: "n \<le> length (unread l)" "skip_while (\<lambda>l. P (peek l 0)) l = l\<lparr>m_index := m_index l + n\<rparr>"
    "\<forall>i<n. P (peek (l\<lparr>m_index := m_index l + i\<rparr>) 0)"
    "n < length (unread l) \<longrightarrow> \<not> P (peek (l\<lparr>m_index := m_index l + n\<rparr>) 0)"
    using skip_while_props by blast
  have "peek (l\<lparr>m_index := m_index l + i\<rparr>) 0 = unread l ! i" if "i < length (unread l)" for i
    using that by (simp add: peek_unread)
  then have "takeWhile P (unread l) = take n (unread l)"
    using n(1,3,4) by (intro takeWhile_eq_take_P_nth) auto
  then show ?thesis using n(1,2) by simp
qed

lemma skipped_view_eq:
  "n \<le> length (unread l) \<Longrightarrow>
   skipped_view l (l\<lparr>m_index := m_index l + n\<rparr>) = Inr (if n = 0 then None else Some (take n (unread l)))"
  by (auto simp: skipped_view_def unread_def Let_def)

lemma length_takeWhile_unread: "length (takeWhile P (unread l)) \<le> length (unread l)"
  by (rule length_takeWhile_le)

definition nonempty_view :: "chars \<Rightarrow> view" where
  "nonempty_view s = (if s = [] then None else Some s)"

lemma skipped_chars:
  "skipped_view l (l\<lparr>m_index := m_index l + length (takeWhile P (unread l))\<rparr>) = Inr (nonempty_view (takeWhile P (unread l)))"
  by (auto simp: skipped_view_eq [OF length_takeWhile_unread] nonempty_view_def simp flip: takeWhile_eq_take)

section \<open>What the scans return\<close>

lemma scan_props:
  fixes P :: "u8 \<Rightarrow> bool"
  assumes "lexer_ok l"
  defines "l' \<equiv> l\<lparr>m_index := m_index l + length (takeWhile P (unread l))\<rparr>"
  shows "lexer_ok l'" "unread l' = dropWhile P (unread l)" "m_input l' = m_input l"
  using assms(1) by (simp_all add: l'_def lexer_ok_advance length_takeWhile_unread dropWhile_eq_drop)

lemma consume_while_spec:
  assumes "lexer_ok l"
  shows "\<exists>l'. consume_while l P = Inr (nonempty_view (takeWhile P (unread l)), l') \<and>
     lexer_ok l' \<and> m_input l' = m_input l \<and> unread l' = dropWhile P (unread l)"
  using scan_props [OF assms, of P] unfolding consume_while_def Let_def skip_while_chars skipped_chars by simp

lemma consume_until_char_spec:
  assumes "lexer_ok l"
  shows "\<exists>l'. consume_until_char l stop = Inr (nonempty_view (takeWhile (\<lambda>c. c \<noteq> stop) (unread l)), l') \<and>
     lexer_ok l' \<and> m_input l' = m_input l \<and> unread l' = drop 1 (dropWhile (\<lambda>c. c \<noteq> stop) (unread l))"
  using scan_props [OF assms, of "\<lambda>c. c \<noteq> stop"]
  unfolding consume_until_char_def Let_def skip_while_chars [of "\<lambda>c. c \<noteq> stop"] skipped_chars
  by (metis input_ignore ok_ignore rbind_simps(2) unread_ignore)

text \<open>A line ends at a carriage return, a line feed, or both in this order; the end is dropped.\<close>

fun drop_line_end :: "chars \<Rightarrow> chars" where
  "drop_line_end s = (case s of c # t \<Rightarrow>
     if c = 0x0A then t else if c = 0x0D then (case t of d # u \<Rightarrow> if d = 0x0A then u else t | [] \<Rightarrow> t) else s
   | [] \<Rightarrow> s)"

lemma consume_specific_unread:
  assumes "lexer_ok l" "c \<noteq> 0" "consume_specific_char l c = (b, l')"
  shows "lexer_ok l'" "m_input l' = m_input l"
    "unread l' = (case unread l of d # r \<Rightarrow> if d = c then r else d # r | [] \<Rightarrow> [])"
proof -
  have l': "l' = (if peek l 0 = c then ignore l 1 else l)"
    using assms(3) by (auto simp: consume_specific_char_def next_is_char_def split: if_splits)
  show "lexer_ok l'" "m_input l' = m_input l" using assms(1) by (simp_all add: l')
  show "unread l' = (case unread l of d # r \<Rightarrow> if d = c then r else d # r | [] \<Rightarrow> [])"
    using assms(1,2) by (cases "unread l") (simp_all add: l' peek_unread)
qed

lemma drop_line_end_steps:
  "(case (case s of c # t \<Rightarrow> if c = 0x0D then t else c # t | [] \<Rightarrow> []) of
      c # t \<Rightarrow> if c = 0x0A then t else c # t | [] \<Rightarrow> []) = drop_line_end s"
  by (auto split: list.split)

lemma consume_line_spec:
  assumes "lexer_ok l"
  defines "inner \<equiv> \<lambda>c. c \<noteq> 0x0D \<and> c \<noteq> 0x0A"
  shows "\<exists>l'. consume_line l = Inr (nonempty_view (takeWhile inner (unread l)), l') \<and>
     lexer_ok l' \<and> m_input l' = m_input l \<and> unread l' = drop_line_end (dropWhile inner (unread l))"
proof -
  let ?l = "l\<lparr>m_index := m_index l + length (takeWhile inner (unread l))\<rparr>"
  note scan = scan_props [OF assms(1), of inner]
  obtain b1 l1 where l1: "consume_specific_char ?l 0x0D = (b1, l1)" by fastforce
  have "(0x0D :: u8) \<noteq> 0" "(0x0A :: u8) \<noteq> 0" by simp_all
  note p1 = consume_specific_unread [OF scan(1) this(1) l1] and lf = this(2)
  obtain b2 l2 where l2: "consume_specific_char l1 0x0A = (b2, l2)" by fastforce
  note p2 = consume_specific_unread [OF p1(1) lf l2]
  have "consume_line l = Inr (nonempty_view (takeWhile inner (unread l)), l2)"
    unfolding consume_line_def Let_def
    using skip_while_chars [of inner l] skipped_chars [of l inner] l1 l2 by (simp add: inner_def)
  moreover have "unread l2 = drop_line_end (dropWhile inner (unread l))"
    unfolding p2(3) p1(3) scan(2) by (rule drop_line_end_steps)
  ultimately show ?thesis using p1 p2 scan(3) by auto
qed

lemma next_is_from_iff:
  "0 \<notin> set s \<Longrightarrow> next_is_from l i s \<longleftrightarrow> s = [] \<or> (i + length s \<le> length (unread l) \<and> take (length s) (drop i (unread l)) = s)"
proof (induction s arbitrary: i)
  case (Cons c s)
  have "peek l i = c \<longleftrightarrow> i < length (unread l) \<and> unread l ! i = c" using Cons.prems by (auto simp: peek_unread)
  moreover have "take (Suc n) (drop i (unread l)) = (unread l ! i) # take n (drop (Suc i) (unread l))" if "i < length (unread l)" for n
    using that by (simp add: Cons_nth_drop_Suc [symmetric])
  ultimately show ?case using Cons.IH [of "Suc i"] Cons.prems by (auto simp: Suc_le_eq)
qed simp

lemma next_is_cstring_iff:
  "next_is_cstring l s \<longleftrightarrow> occurs_at (unread l) (c_string s) 0"
proof -
  have "0 \<notin> set (c_string s)" by (auto simp: c_string_def dest: set_takeWhileD)
  then show ?thesis by (auto simp: next_is_cstring_def next_is_from_iff occurs_at_def)
qed

text \<open>The scan for a string stops at its first occurrence in the rest of the input.\<close>

lemma consume_until_cstring_spec:
  assumes "lexer_ok l"
  shows "\<exists>l'. lexer_ok l' \<and> m_input l' = m_input l \<and>
    consume_until_cstring l stop =
      (case first_occurrence (unread l) (c_string stop) of
         None \<Rightarrow> Inr (nonempty_view (unread l), l')
       | Some n \<Rightarrow> Inr (nonempty_view (take n (unread l)), l')) \<and>
    unread l' =
      (case first_occurrence (unread l) (c_string stop) of
         None \<Rightarrow> []
       | Some n \<Rightarrow> drop (n + length (c_string stop)) (unread l))"
proof -
  let ?s = "c_string stop" and ?r = "unread l"
  obtain n where n: "n \<le> length ?r"
    "skip_while (\<lambda>l. \<not> next_is_cstring l stop) l = l\<lparr>m_index := m_index l + n\<rparr>"
    "\<And>i. i < n \<Longrightarrow> \<not> occurs_at (drop i ?r) ?s 0" "n < length ?r \<Longrightarrow> occurs_at (drop n ?r) ?s 0"
    using skip_while_props [of l "\<lambda>l. \<not> next_is_cstring l stop"] by (auto simp: next_is_cstring_iff)
  let ?l = "l\<lparr>m_index := m_index l + n\<rparr>"
  have ok: "lexer_ok ?l" using assms n(1) by (rule lexer_ok_advance)
  have res: "consume_until_cstring l stop = Inr (nonempty_view (take n ?r), ignore ?l (length ?s))"
    using n(1) by (auto simp: consume_until_cstring_def n(2) skipped_view_eq nonempty_view_def Let_def)
  have before: "\<not> occurs_at ?r ?s i" if "i < n" for i
    using n(3) [OF that] that n(1) occurs_at_drop [of i ?r ?s 0] by simp
  have unread: "unread (ignore ?l (length ?s)) = drop (n + length ?s) ?r"
    unfolding unread_ignore [OF ok] unread_advance by (simp add: add.commute)
  show ?thesis
  proof (cases "occurs_at ?r ?s n")
    case True
    then have "first_occurrence ?r ?s = Some n" using before by (intro first_occurrenceI)
    then show ?thesis using res unread ok by auto
  next
    case False
    then have "n = length ?r" using n(1,4) occurs_at_drop [of n ?r ?s 0] by (cases "n < length ?r") auto
    moreover have "\<not> occurs_at ?r ?s t" for t
      using before [of t] False \<open>n = length ?r\<close> by (cases "t < n") (auto simp: occurs_at_def not_less)
    then have "first_occurrence ?r ?s = None" by (rule no_occurrenceI)
    ultimately show ?thesis using res unread ok by auto
  qed
qed

section \<open>Quoted strings\<close>

lemma quoted_loop_props:
  assumes "m_index l \<le> length (m_input l)"
  shows "\<exists>n. quoted_loop e q l = l\<lparr>m_index := n\<rparr> \<and> m_index l \<le> n \<and> n \<le> length (m_input l) + 1"
  using assms
proof (induction e q l rule: quoted_loop.induct)
  case (1 e q l)
  show ?case
  proof (cases "is_eof l \<or> (\<not> next_is_char l e \<and> next_is_char l q)")
    case True
    then show ?thesis using "1.prems" by (intro exI [of _ "m_index l"]) (auto simp: quoted_loop.simps [of e q l])
  next
    case False
    define k where "k = (if next_is_char l e then m_index l + 1 + 1 else m_index l + 1)"
    let ?l = "l\<lparr>m_index := k\<rparr>"
    have unf: "quoted_loop e q l = quoted_loop e q ?l"
      using False by (auto simp: quoted_loop.simps [of e q l] k_def)
    have k: "m_index l \<le> k" "k \<le> length (m_input l) + 1" using False by (auto simp: k_def is_eof_def)
    show ?thesis
    proof (cases "k \<le> length (m_input l)")
      case True
      have "\<exists>n. quoted_loop e q ?l = ?l\<lparr>m_index := n\<rparr> \<and> m_index ?l \<le> n \<and> n \<le> length (m_input ?l) + 1"
        using "1.IH" False True by (cases "next_is_char l e") (auto simp: k_def)
      then show ?thesis using k(1) unfolding unf by auto
    next
      case False
      then have "quoted_loop e q ?l = ?l" by (simp add: quoted_loop.simps [of e q ?l] is_eof_def)
      then show ?thesis using k unfolding unf by auto
    qed
  qed
qed

text \<open>A string with neither its quote nor the escape character in it is read as it stands.\<close>

lemma quoted_loop_plain:
  assumes "unread l = body @ q # r" "q \<notin> set body" "e \<notin> set body" "e \<noteq> q"
  shows "quoted_loop e q l = l\<lparr>m_index := m_index l + length body\<rparr>"
  using assms
proof (induction body arbitrary: l)
  case Nil
  then show ?case by (simp add: quoted_loop.simps [of e q l] is_eof_unread next_is_char_def peek_Cons)
next
  case (Cons c body)
  let ?l = "l\<lparr>m_index := m_index l + 1\<rparr>"
  have "quoted_loop e q l = quoted_loop e q ?l"
    using Cons.prems by (auto simp: quoted_loop.simps [of e q l] is_eof_unread next_is_char_def peek_Cons)
  then show ?case using Cons.IH [of ?l] Cons.prems by simp
qed

lemma consume_quoted_plain:
  assumes "lexer_ok l" "unread l = q # body @ q # r" "is_quote q" "q \<notin> set body" "e \<notin> set body" "e \<noteq> q"
  shows "\<exists>l'. consume_quoted_string l e = Inr (Some body, l') \<and> lexer_ok l' \<and> m_input l' = m_input l \<and> unread l' = r"
proof -
  let ?l = "l\<lparr>m_index := m_index l + 1\<rparr>" and ?e = "l\<lparr>m_index := m_index l + 1 + length body\<rparr>"
  have loop: "quoted_loop e q ?l = ?e"
    using quoted_loop_plain [of ?l body q r e] assms(2,4-) by simp
  have unread: "unread ?e = q # r" using unread_advance [of l "1 + length body"] assms(2) by (simp add: add.assoc)
  have ok: "lexer_ok ?e" using lexer_ok_advance [OF assms(1), of "1 + length body"] assms(2) by (simp add: add.assoc)
  have len: "m_index l + 1 + length body \<le> length (m_input l)" using ok by (simp add: lexer_ok_def)
  have body: "take (length body) (drop (m_index l + 1) (m_input l)) = body"
  proof -
    have "drop (m_index l + 1) (m_input l) = drop 1 (unread l)" by (simp add: unread_def)
    then show ?thesis using assms(2) by simp
  qed
  have sub: "StringView_substring_view (m_input l) (m_index l + 1) (length body) = Inr body"
    using len body by simp
  have "consume_quoted_string l e = Inr (Some body, ignore ?e 1)"
    using assms(2,3) loop unread sub
    by (simp add: consume_quoted_string_def next_is_pred_def peek_Cons consume_eq Let_def)
  then show ?thesis using ok unread by simp
qed

text \<open>
  \<open>consume_and_unescape_string\<close> has moved past the closing quote when it reads the characters it
  returns: state_after a quoted string that ends the input the first of them aborts.
\<close>

lemma unescape_at_end:
  assumes "lexer_ok l" "unread l = []" "e \<noteq> 0"
  shows "unescape_loop e (Suc n) b l = Inl Verify_Failed"
proof -
  have "consume_specific_char l e = (False, l)"
    using assms(2,3) by (simp add: consume_specific_char_def next_is_char_def peek_unread)
  then show ?thesis using assms(2) by (simp add: consume_escaped_character_def consume_eq)
qed

lemma unescape_aborts:
  assumes "lexer_ok l" "unread l = q # body @ [q]" "is_quote q" "q \<notin> set body" "e \<notin> set body" "e \<noteq> q"
    "e \<noteq> 0" "body \<noteq> []"
  shows "consume_and_unescape_string l e = Inl Verify_Failed"
proof -
  obtain l' where l': "consume_quoted_string l e = Inr (Some body, l')" "lexer_ok l'" "unread l' = []"
    using consume_quoted_plain [OF assms(1) assms(2) assms(3-6)] by auto
  obtain n where "length body = Suc n" using assms(8) by (cases body) simp_all
  then show ?thesis using unescape_at_end [OF l'(2,3) assms(7), of n "[]"] l'(1)
    by (simp add: consume_and_unescape_string_def)
qed

section \<open>Sequences of operations\<close>

datatype lexer_op =
    Retreat | Retreat_By nat | Consume | Ignore nat | Consume_Specific_Char u8 | Consume_Specific_View chars
  | Consume_Count nat | Consume_All | Consume_Line | Consume_Until_Char u8 | Consume_Until_Cstring chars
  | Consume_While "u8 \<Rightarrow> bool" | Consume_Until_Pred "u8 \<Rightarrow> bool" | Ignore_Until_Char u8 | Ignore_Until_Cstring chars
  | Ignore_While "u8 \<Rightarrow> bool" | Ignore_Until_Pred "u8 \<Rightarrow> bool" | Consume_Quoted_String u8
  | Consume_Escaped_Character u8 "(u8 \<times> u8) list" | Consume_And_Unescape_String u8

text \<open>An escape map lists the characters and what they stand for, in turn.\<close>

definition escape_map_of :: "(u8 \<times> u8) list \<Rightarrow> chars" where
  "escape_map_of m = concat (map (\<lambda>(k, v). [k, v]) m)"

definition state_after :: "('a \<times> 's) res \<Rightarrow> 's res" where
  "state_after r = rbind r (\<lambda>(_, s). Inr s)"

fun lexer_step :: "lexer_op \<Rightarrow> lexer \<Rightarrow> lexer res" where
  "lexer_step Retreat l = retreat l"
| "lexer_step (Retreat_By n) l = retreat_by l n"
| "lexer_step Consume l = state_after (lexer_consume l)"
| "lexer_step (Ignore n) l = Inr (ignore l n)"
| "lexer_step (Consume_Specific_Char c) l = Inr (snd (consume_specific_char l c))"
| "lexer_step (Consume_Specific_View v) l = Inr (snd (consume_specific_view l v))"
| "lexer_step (Consume_Count n) l = state_after (consume_count l n)"
| "lexer_step Consume_All l = state_after (consume_all l)"
| "lexer_step Consume_Line l = state_after (consume_line l)"
| "lexer_step (Consume_Until_Char c) l = state_after (consume_until_char l c)"
| "lexer_step (Consume_Until_Cstring s) l = state_after (consume_until_cstring l s)"
| "lexer_step (Consume_While P) l = state_after (consume_while l P)"
| "lexer_step (Consume_Until_Pred P) l = state_after (consume_until_pred l P)"
| "lexer_step (Ignore_Until_Char c) l = Inr (ignore_until_char l c)"
| "lexer_step (Ignore_Until_Cstring s) l = Inr (ignore_until_cstring l s)"
| "lexer_step (Ignore_While P) l = Inr (ignore_while l P)"
| "lexer_step (Ignore_Until_Pred P) l = Inr (ignore_until_pred l P)"
| "lexer_step (Consume_Quoted_String e) l = state_after (consume_quoted_string l e)"
| "lexer_step (Consume_Escaped_Character e m) l = state_after (consume_escaped_character l e (escape_map_of m))"
| "lexer_step (Consume_And_Unescape_String e) l = state_after (consume_and_unescape_string l e)"

fun run_ops :: "('op \<Rightarrow> 's \<Rightarrow> 's res) \<Rightarrow> 'op list \<Rightarrow> 's \<Rightarrow> 's res" where
  "run_ops step [] s = Inr s"
| "run_ops step (op # ops) s = rbind (step op s) (run_ops step ops)"

text \<open>
  The contract of a cursor: from a good state every operation either fails a check of the code or
  ends in a good state over the same content. It carries over to sequences.
\<close>

locale cursor =
  fixes ok :: "'s \<Rightarrow> bool" and content :: "'s \<Rightarrow> 'c" and step :: "'op \<Rightarrow> 's \<Rightarrow> 's res"
  assumes step_keeps: "ok s \<Longrightarrow> step op s = Inr s' \<Longrightarrow> ok s' \<and> content s' = content s"
    and step_checked: "ok s \<Longrightarrow> step op s = Inl e \<Longrightarrow> e = Verify_Failed"
begin

lemma run_keeps: "ok s \<Longrightarrow> run_ops step ops s = Inr s' \<Longrightarrow> ok s' \<and> content s' = content s"
  by (induction ops arbitrary: s) (auto simp: rbind_Inr_iff dest: step_keeps)

lemma run_checked: "ok s \<Longrightarrow> run_ops step ops s = Inl e \<Longrightarrow> e = Verify_Failed"
proof (induction ops arbitrary: s)
  case (Cons op ops)
  then show ?case by (cases "step op s") (auto dest: step_checked step_keeps)
qed simp

lemma run_cases:
  "ok s \<Longrightarrow> run_ops step ops s = Inl Verify_Failed \<or>
     (\<exists>s'. run_ops step ops s = Inr s' \<and> ok s' \<and> content s' = content s)"
  by (cases "run_ops step ops s") (auto dest: run_checked run_keeps)

end

section \<open>The lexer is a cursor\<close>

definition stays :: "lexer \<Rightarrow> lexer \<Rightarrow> bool" where
  "stays l l' \<longleftrightarrow> lexer_ok l' \<and> m_input l' = m_input l"

definition stays_res :: "lexer \<Rightarrow> lexer res \<Rightarrow> bool" where
  "stays_res l r \<longleftrightarrow> (case r of Inl e \<Rightarrow> e = Verify_Failed | Inr l' \<Rightarrow> stays l l')"

lemma stays_refl: "lexer_ok l \<Longrightarrow> stays l l"
  by (simp add: stays_def)

lemma stays_trans: "stays l l1 \<Longrightarrow> stays l1 l2 \<Longrightarrow> stays l l2"
  by (simp add: stays_def)

lemma stays_index: "lexer_ok l \<Longrightarrow> n \<le> length (m_input l) \<Longrightarrow> stays l (l\<lparr>m_index := n\<rparr>)"
  by (simp add: stays_def lexer_ok_def)

lemma stays_ignore: "lexer_ok l \<Longrightarrow> stays l (ignore l n)"
  by (simp add: stays_def)

lemma skip_index:
  obtains n where "n \<le> length (unread l)" "skip_while go l = l\<lparr>m_index := m_index l + n\<rparr>"
  using skip_while_props by blast

lemma stays_skip: "lexer_ok l \<Longrightarrow> stays l (skip_while go l)"
  by (rule skip_index [of l go]) (simp add: stays_def lexer_ok_advance)

lemma stays_skip_ignore: "lexer_ok l \<Longrightarrow> stays l (ignore (skip_while go l) n)"
  using stays_skip [of l go] by (simp add: stays_def)

lemma skipped_total: "\<exists>v. skipped_view l (skip_while go l) = Inr v"
  by (rule skip_index [of l go]) (simp add: skipped_view_eq)

lemma after_skipped:
  "lexer_ok l \<Longrightarrow> (stays l l') \<Longrightarrow> stays_res l (state_after (rbind (skipped_view l (skip_while go l)) (\<lambda>v. Inr (v, l'))))"
  using skipped_total [of l go] by (auto simp: state_after_def stays_res_def)

lemma stays_specific: "lexer_ok l \<Longrightarrow> stays l (snd (consume_specific_char l c))"
  by (simp add: consume_specific_char_def stays_ignore stays_refl)

lemma stays_consume: "lexer_ok l \<Longrightarrow> stays_res l (state_after (lexer_consume l))"
proof (cases "unread l")
  case (Cons c r)
  assume "lexer_ok l"
  then have "lexer_ok (l\<lparr>m_index := m_index l + 1\<rparr>)" using Cons by (intro lexer_ok_advance) simp_all
  then show ?thesis using Cons by (simp add: consume_eq state_after_def stays_res_def stays_def)
qed (simp add: consume_eq state_after_def stays_res_def)

lemma stays_count: "lexer_ok l \<Longrightarrow> stays_res l (state_after (consume_count l n))"
proof -
  assume ok: "lexer_ok l"
  have "m_index l + min n (length (unread l)) \<le> length (m_input l)"
    using ok by (auto simp: lexer_ok_def unread_def)
  then show ?thesis using ok
    by (simp add: consume_count_def state_after_def stays_res_def stays_refl stays_index Let_def)
qed

lemma stays_all: "lexer_ok l \<Longrightarrow> stays_res l (state_after (consume_all l))"
proof -
  assume ok: "lexer_ok l"
  then have "m_index l + length (unread l) \<le> length (m_input l)" by (simp add: lexer_ok_def unread_def)
  then show ?thesis using ok by (simp add: consume_all_def state_after_def stays_res_def stays_refl stays_index)
qed

lemma quote_not_nul: "is_quote q \<Longrightarrow> q \<noteq> 0"
  by (auto simp: is_quote_def is_any_of_def)

lemma quoted_total:
  assumes ok: "lexer_ok l"
  shows "\<exists>v l'. consume_quoted_string l e = Inr (v, l') \<and> stays l l'"
proof (cases "is_quote (peek l 0)")
  case True
  then obtain q r where r: "unread l = q # r" "is_quote q"
    using quote_not_nul by (cases "unread l") (auto simp: peek_unread)
  let ?l = "l\<lparr>m_index := m_index l + 1\<rparr>"
  have ok1: "lexer_ok ?l" using ok r by (intro lexer_ok_advance) simp_all
  then have le: "m_index ?l \<le> length (m_input ?l)" by (simp add: lexer_ok_def)
  obtain n where n: "quoted_loop e q ?l = l\<lparr>m_index := n\<rparr>" "m_index l + 1 \<le> n"
    using quoted_loop_props [OF le, of e q] by auto
  let ?e = "l\<lparr>m_index := n\<rparr>"
  have step: "consume_quoted_string l e =
      (if peek ?e 0 \<noteq> q then Inr (None, l\<lparr>m_index := m_index l\<rparr>)
       else rbind (StringView_substring_view (m_input l) (m_index l + 1) (n - (m_index l + 1))) (\<lambda>v. Inr (Some v, ignore ?e 1)))"
    using True r n(1) by (simp add: consume_quoted_string_def next_is_pred_def consume_eq Let_def)
  show ?thesis
  proof (cases "peek ?e 0 = q")
    case True
    then have "n < length (m_input l)" using quote_not_nul [OF r(2)] by (simp add: peek_def split: if_splits)
    then have "lexer_ok ?e" "m_index l + 1 + (n - (m_index l + 1)) \<le> length (m_input l)"
      using ok n(2) by (simp_all add: lexer_ok_def)
    then show ?thesis using True step by (simp add: stays_def)
  next
    case False
    then show ?thesis using step ok by (simp add: stays_refl)
  qed
qed (simp add: consume_quoted_string_def next_is_pred_def stays_refl ok)

lemma escape_lookup_total: "\<exists>d. escape_lookup (escape_map_of m) c = Inr d"
  by (induction m) (auto simp: escape_map_of_def)

lemma default_map_pairs: "default_escape_map = escape_map_of [(0x6E, 0x0A), (0x72, 0x0D), (0x74, 0x09), (0x62, 0x08), (0x66, 0x0C)]"
  by (simp add: default_escape_map_def escape_map_of_def)

lemma stays_escaped:
  assumes "lexer_ok l"
  shows "stays_res l (state_after (consume_escaped_character l e (escape_map_of m)))"
proof -
  obtain b l1 where l1: "consume_specific_char l e = (b, l1)" by fastforce
  have s1: "stays l l1" using stays_specific [OF assms, of e] l1 by simp
  then have "stays_res l1 (state_after (lexer_consume l1))" by (simp add: stays_def stays_consume)
  then have s2: "stays_res l (state_after (lexer_consume l1))"
    using s1 by (auto simp: stays_res_def stays_def split: sum.splits)
  obtain d where d: "\<And>c. escape_lookup (escape_map_of m) c = Inr (d c)" using escape_lookup_total [of m] by metis
  show ?thesis
    using s2 by (cases "lexer_consume l1") (auto simp: consume_escaped_character_def l1 state_after_def d)
qed

lemmas stays_default = stays_escaped [of _ _ "[(0x6E, 0x0A), (0x72, 0x0D), (0x74, 0x09), (0x62, 0x08), (0x66, 0x0C)]",
  folded default_map_pairs]

lemma unescape_loop_stays:
  "lexer_ok l \<Longrightarrow> stays_res l (state_after (unescape_loop e n b l))"
proof (induction n arbitrary: b l)
  case (Suc n)
  show ?case
  proof (cases "consume_escaped_character l e default_escape_map")
    case (Inl x)
    then show ?thesis using stays_default [OF Suc.prems, of e] by (simp add: state_after_def)
  next
    case (Inr cl)
    obtain c l1 where cl: "cl = (c, l1)" by fastforce
    have s1: "stays l l1" using stays_default [OF Suc.prems, of e] Inr cl by (simp add: state_after_def stays_res_def)
    then have "stays_res l1 (state_after (unescape_loop e n (b @ [c]) l1))" using Suc.IH by (simp add: stays_def)
    then show ?thesis using s1 Inr cl by (auto simp: stays_res_def stays_def split: sum.splits)
  qed
qed (simp add: state_after_def stays_res_def stays_refl)

lemma stays_unescape: "lexer_ok l \<Longrightarrow> stays_res l (state_after (consume_and_unescape_string l e))"
proof -
  assume ok: "lexer_ok l"
  obtain v l1 where q: "consume_quoted_string l e = Inr (v, l1)" "stays l l1" using quoted_total [OF ok] by blast
  show ?thesis
  proof (cases v)
    case (Some s)
    have "stays_res l1 (state_after (unescape_loop e (length s) [] l1))"
      using q(2) by (simp add: unescape_loop_stays stays_def)
    then show ?thesis using q Some
      by (cases "unescape_loop e (length s) [] l1")
        (auto simp: consume_and_unescape_string_def state_after_def stays_res_def stays_def)
  qed (use q in \<open>simp add: consume_and_unescape_string_def state_after_def stays_res_def\<close>)
qed

lemma lexer_step_stays:
  assumes "lexer_ok l"
  shows "stays_res l (lexer_step op l)"
proof (cases op)
  case (Consume_Quoted_String e)
  then show ?thesis using quoted_total [OF assms, of e] by (auto simp: state_after_def stays_res_def)
next
  case Consume_Line
  then show ?thesis using consume_line_spec [OF assms] Consume_Line by (auto simp: state_after_def stays_res_def stays_def)
qed (use assms in \<open>auto simp: stays_consume stays_count stays_all stays_unescape stays_escaped Let_def
      retreat_def retreat_by_def verify_def consume_specific_view_def
      consume_until_char_def consume_until_cstring_def consume_while_def consume_until_pred_def
      ignore_until_char_def ignore_until_cstring_def ignore_while_def ignore_until_pred_def
      stays_res_def [of _ "Inr _"] stays_res_def [of _ "Inl _"] stays_specific stays_ignore stays_refl stays_skip stays_skip_ignore
      lexer_ok_def [of l] intro!: after_skipped stays_index\<close>)

interpretation lexer_cursor: cursor lexer_ok m_input lexer_step
proof
  show "lexer_ok l' \<and> m_input l' = m_input l" if "lexer_ok l" "lexer_step op l = Inr l'" for l op l'
    using lexer_step_stays [OF that(1), of op] that(2) by (simp add: stays_res_def stays_def)
  show "e = Verify_Failed" if "lexer_ok l" "lexer_step op l = Inl e" for l op e
    using lexer_step_stays [OF that(1), of op] that(2) by (simp add: stays_res_def)
qed

end
