(* ===== verification/Checked_Int.thy ===== *)
theory Checked_Int
  imports Prelude "HOL-Library.Signed_Division"
begin

text \<open>
  \<open>base/Checked.h\<close>: integers with a sticky overflow flag, over any integer type of the target.
  A type is its width and its signedness, a value of it an integer in its range; what is stored
  after an overflow is the result modulo the width, as the overflow builtins of the compiler do.
  The theorems: a conversion is accepted exactly when the value is in the range of the target type,
  and after any sequence of operations the flag tells whether an exact result left that range.
\<close>

section \<open>Integer types\<close>

record ctype =
  ct_bits :: nat
  ct_signed :: bool

definition numeric_min :: "ctype \<Rightarrow> int" where
  "numeric_min T = (if ct_signed T then - (2 ^ (ct_bits T - 1)) else 0)"

definition numeric_max :: "ctype \<Rightarrow> int" where
  "numeric_max T = (if ct_signed T then 2 ^ (ct_bits T - 1) - 1 else 2 ^ ct_bits T - 1)"

definition in_type :: "ctype \<Rightarrow> int \<Rightarrow> bool" where
  "in_type T x \<longleftrightarrow> numeric_min T \<le> x \<and> x \<le> numeric_max T"

definition wrap_type :: "ctype \<Rightarrow> int \<Rightarrow> int" where
  "wrap_type T x = numeric_min T + (x - numeric_min T) mod 2 ^ ct_bits T"

definition i64_type :: ctype where "i64_type = \<lparr>ct_bits = 64, ct_signed = True\<rparr>"
definition i32_type :: ctype where "i32_type = \<lparr>ct_bits = 32, ct_signed = True\<rparr>"
definition u32_type :: ctype where "u32_type = \<lparr>ct_bits = 32, ct_signed = False\<rparr>"

section \<open>Conversions\<close>

definition is_within_range :: "ctype \<Rightarrow> ctype \<Rightarrow> int \<Rightarrow> bool" where
  "is_within_range destination source v =
     (case (ct_bits destination \<ge> ct_bits source, ct_signed destination, ct_signed source) of
        (False, False, False) \<Rightarrow> v \<le> numeric_max destination
      | (False, True, True) \<Rightarrow> v \<le> numeric_max destination \<and> numeric_min destination \<le> v
      | (False, False, True) \<Rightarrow> v \<ge> 0 \<and> v \<le> numeric_max destination
      | (False, True, False) \<Rightarrow> v \<le> wrap_type source (numeric_max destination)
      | (True, False, False) \<Rightarrow> True
      | (True, True, True) \<Rightarrow> True
      | (True, False, True) \<Rightarrow> v \<ge> 0
      | (True, True, False) \<Rightarrow>
          if ct_bits destination > ct_bits source then True
          else v \<le> wrap_type source (numeric_max destination))"

record checked =
  ck_value :: int
  ck_overflow :: bool

definition Checked_default :: checked where
  "Checked_default = \<lparr>ck_value = 0, ck_overflow = False\<rparr>"

definition Checked_of :: "int \<Rightarrow> checked" where
  "Checked_of v = \<lparr>ck_value = v, ck_overflow = False\<rparr>"

definition Checked_convert :: "ctype \<Rightarrow> ctype \<Rightarrow> int \<Rightarrow> checked" where
  "Checked_convert T U v = \<lparr>ck_value = wrap_type T v, ck_overflow = (\<not> is_within_range T U v)\<rparr>"

text \<open>Moving leaves a zero without overflow behind: the new object and what is left of the old.\<close>

definition Checked_move :: "checked \<Rightarrow> checked \<times> checked" where
  "Checked_move other = (\<lparr>ck_value = ck_value other, ck_overflow = ck_overflow other\<rparr>, \<lparr>ck_value = 0, ck_overflow = False\<rparr>)"

section \<open>Operations\<close>

definition has_overflow :: "checked \<Rightarrow> bool" where
  "has_overflow c = ck_overflow c"

definition Checked_not :: "checked \<Rightarrow> bool res" where
  "Checked_not c = verify (\<not> ck_overflow c) (Inr (ck_value c = 0))"

definition Checked_value :: "checked \<Rightarrow> int res" where
  "Checked_value c = verify (\<not> ck_overflow c) (Inr (ck_value c))"

text \<open>The builtins compute with unlimited precision, store the wrapped result and report overflow.\<close>

definition overflow_builtin :: "ctype \<Rightarrow> int \<Rightarrow> checked \<Rightarrow> checked" where
  "overflow_builtin T exact c = \<lparr>ck_value = wrap_type T exact, ck_overflow = (ck_overflow c \<or> \<not> in_type T exact)\<rparr>"

definition Checked_add :: "ctype \<Rightarrow> checked \<Rightarrow> int \<Rightarrow> checked" where
  "Checked_add T c other = overflow_builtin T (ck_value c + other) c"

definition Checked_sub :: "ctype \<Rightarrow> checked \<Rightarrow> int \<Rightarrow> checked" where
  "Checked_sub T c other = overflow_builtin T (ck_value c - other) c"

definition Checked_mul :: "ctype \<Rightarrow> checked \<Rightarrow> int \<Rightarrow> checked" where
  "Checked_mul T c other = overflow_builtin T (ck_value c * other) c"

definition Checked_div :: "ctype \<Rightarrow> checked \<Rightarrow> int \<Rightarrow> checked" where
  "Checked_div T c other =
     (if ct_signed T \<and> other = - 1 \<and> ck_value c = numeric_min T then c\<lparr>ck_overflow := True\<rparr>
      else if other = 0 then c\<lparr>ck_overflow := True\<rparr>
      else c\<lparr>ck_value := ck_value c sdiv other\<rparr>)"

text \<open>The compound assignments with a checked operand, and the binary operators.\<close>

definition Checked_assign_with ::
  "(checked \<Rightarrow> int \<Rightarrow> checked) \<Rightarrow> checked \<Rightarrow> checked \<Rightarrow> checked res" where
  "Checked_assign_with op c other =
     (let c = c\<lparr>ck_overflow := ck_overflow c \<or> ck_overflow other\<rparr>
      in rbind (Checked_value other) (\<lambda>v. Inr (op c v)))"

definition Checked_add_assign :: "ctype \<Rightarrow> checked \<Rightarrow> checked \<Rightarrow> checked res" where
  "Checked_add_assign T = Checked_assign_with (Checked_add T)"

definition Checked_sub_assign :: "ctype \<Rightarrow> checked \<Rightarrow> checked \<Rightarrow> checked res" where
  "Checked_sub_assign T = Checked_assign_with (Checked_sub T)"

definition Checked_mul_assign :: "ctype \<Rightarrow> checked \<Rightarrow> checked \<Rightarrow> checked res" where
  "Checked_mul_assign T = Checked_assign_with (Checked_mul T)"

definition Checked_div_assign :: "ctype \<Rightarrow> checked \<Rightarrow> checked \<Rightarrow> checked res" where
  "Checked_div_assign T = Checked_assign_with (Checked_div T)"

definition Checked_increment :: "ctype \<Rightarrow> checked \<Rightarrow> checked" where
  "Checked_increment T c = Checked_add T c 1"

definition Checked_post_increment :: "ctype \<Rightarrow> checked \<Rightarrow> checked \<times> checked" where
  "Checked_post_increment T c = (c, Checked_add T c 1)"

definition Checked_decrement :: "ctype \<Rightarrow> checked \<Rightarrow> checked" where
  "Checked_decrement T c = Checked_sub T c 1"

definition Checked_post_decrement :: "ctype \<Rightarrow> checked \<Rightarrow> checked \<times> checked" where
  "Checked_post_decrement T c = (c, Checked_sub T c 1)"

definition Checked_plus :: "ctype \<Rightarrow> checked \<Rightarrow> checked \<Rightarrow> checked res" where
  "Checked_plus T a b = rbind (Checked_value b) (\<lambda>v. Inr (Checked_add T a v))"

definition Checked_minus :: "ctype \<Rightarrow> checked \<Rightarrow> checked \<Rightarrow> checked res" where
  "Checked_minus T a b = rbind (Checked_value b) (\<lambda>v. Inr (Checked_sub T a v))"

definition Checked_times :: "ctype \<Rightarrow> checked \<Rightarrow> checked \<Rightarrow> checked res" where
  "Checked_times T a b = rbind (Checked_value b) (\<lambda>v. Inr (Checked_mul T a v))"

definition Checked_divide :: "ctype \<Rightarrow> checked \<Rightarrow> checked \<Rightarrow> checked res" where
  "Checked_divide T a b = rbind (Checked_value b) (\<lambda>v. Inr (Checked_div T a v))"

definition Checked_less :: "checked \<Rightarrow> int \<Rightarrow> bool res" where
  "Checked_less a b = rbind (Checked_value a) (\<lambda>v. Inr (v < b))"

definition Checked_greater :: "checked \<Rightarrow> int \<Rightarrow> bool res" where
  "Checked_greater a b = rbind (Checked_value a) (\<lambda>v. Inr (v > b))"

definition Checked_greater_equal :: "checked \<Rightarrow> int \<Rightarrow> bool res" where
  "Checked_greater_equal a b = rbind (Checked_value a) (\<lambda>v. Inr (v \<ge> b))"

definition Checked_less_equal :: "checked \<Rightarrow> int \<Rightarrow> bool res" where
  "Checked_less_equal a b = rbind (Checked_value a) (\<lambda>v. Inr (v \<le> b))"

definition Checked_equal :: "checked \<Rightarrow> int \<Rightarrow> bool res" where
  "Checked_equal a b = rbind (Checked_value a) (\<lambda>v. Inr (v = b))"

definition Checked_not_equal :: "checked \<Rightarrow> int \<Rightarrow> bool res" where
  "Checked_not_equal a b = rbind (Checked_value a) (\<lambda>v. Inr (v \<noteq> b))"

text \<open>The static tests, as GCC compiles them; the one on three factors goes through the object.\<close>

definition addition_would_overflow :: "ctype \<Rightarrow> int \<Rightarrow> int \<Rightarrow> bool" where
  "addition_would_overflow T u v \<longleftrightarrow> \<not> in_type T (u + v)"

definition multiplication_would_overflow :: "ctype \<Rightarrow> int \<Rightarrow> int \<Rightarrow> bool" where
  "multiplication_would_overflow T u v \<longleftrightarrow> \<not> in_type T (u * v)"

definition multiplication_would_overflow3 :: "ctype \<Rightarrow> ctype \<Rightarrow> int \<Rightarrow> int \<Rightarrow> int \<Rightarrow> bool" where
  "multiplication_would_overflow3 T U u v x =
     has_overflow (Checked_mul T (Checked_mul T (Checked_convert T U u) (wrap_type T v)) (wrap_type T x))"

section \<open>Ranges\<close>

lemma in_type_bounds: "in_type T x \<longleftrightarrow> numeric_min T \<le> x \<and> x < numeric_min T + 2 ^ ct_bits T" if "ct_bits T > 0"
proof -
  from that obtain n where "ct_bits T = Suc n" by (auto simp: gr0_conv_Suc)
  then show ?thesis by (auto simp: in_type_def numeric_min_def numeric_max_def)
qed

lemma wrap_in_type: "ct_bits T > 0 \<Longrightarrow> in_type T (wrap_type T x)"
  by (simp add: in_type_bounds wrap_type_def)

lemma wrap_id: "ct_bits T > 0 \<Longrightarrow> in_type T x \<Longrightarrow> wrap_type T x = x"
  by (simp add: in_type_bounds wrap_type_def)

lemma power_two_le: "a \<le> b \<Longrightarrow> (2 :: int) ^ a \<le> 2 ^ b"
  by (simp add: power_increasing)

lemma within_range_iff:
  assumes "ct_bits T > 0" "ct_bits S > 0" "in_type S v"
  shows "is_within_range T S v \<longleftrightarrow> in_type T v"
proof -
  note ranges = in_type_def numeric_min_def numeric_max_def
  have max: "wrap_type S (numeric_max T) = numeric_max T"
    if "ct_bits T \<le> ct_bits S" "ct_signed T" "\<not> ct_signed S"
  proof (rule wrap_id [OF assms(2)])
    have "(2 :: int) ^ (ct_bits T - 1) \<le> 2 ^ ct_bits S" using that(1) by (intro power_two_le) simp
    moreover have "(1 :: int) \<le> 2 ^ (ct_bits T - 1)" by simp
    ultimately show "in_type S (numeric_max T)"
      using that(2,3) unfolding ranges by (simp only: if_True if_False) linarith
  qed
  consider "ct_bits T < ct_bits S" | "ct_bits T = ct_bits S" | "ct_bits S < ct_bits T" by linarith
  then show ?thesis
  proof cases
    case 1
    then show ?thesis using assms max by (auto simp: is_within_range_def ranges split: bool.splits)
  next
    case 2
    from assms(2) obtain n where "ct_bits S = Suc n" by (auto simp: gr0_conv_Suc)
    then show ?thesis
      using 2 assms max by (cases "ct_signed T"; cases "ct_signed S") (auto simp: is_within_range_def ranges)
  next
    case 3
    from assms(1,2) obtain m n where bits: "ct_bits T = Suc m" "ct_bits S = Suc n" by (auto simp: gr0_conv_Suc)
    define a b where "a = (2 :: int) ^ n" and "b = (2 :: int) ^ m"
    have ab: "a > 0" "a + a \<le> b"
      using power_two_le [of "Suc n" m] 3 bits by (auto simp: a_def b_def)
    have "numeric_min S = (if ct_signed S then - a else 0)" "numeric_max S = (if ct_signed S then a - 1 else a + a - 1)"
      "numeric_min T = (if ct_signed T then - b else 0)" "numeric_max T = (if ct_signed T then b - 1 else b + b - 1)"
      using bits by (simp_all add: numeric_min_def numeric_max_def a_def b_def)
    then show ?thesis
      using assms(3) ab 3 by (cases "ct_signed T"; cases "ct_signed S") (auto simp: is_within_range_def in_type_def)
  qed
qed

section \<open>Sequences of operations\<close>

datatype checked_op = Add int | Sub int | Mul int | Div int

fun checked_step :: "ctype \<Rightarrow> checked_op \<Rightarrow> checked \<Rightarrow> checked" where
  "checked_step T (Add x) c = Checked_add T c x"
| "checked_step T (Sub x) c = Checked_sub T c x"
| "checked_step T (Mul x) c = Checked_mul T c x"
| "checked_step T (Div x) c = Checked_div T c x"

definition checked_run :: "ctype \<Rightarrow> checked_op list \<Rightarrow> checked \<Rightarrow> checked" where
  "checked_run T ops c = fold (checked_step T) ops c"

text \<open>The exact results, as long as each is defined and in the range of the type.\<close>

fun exact_result :: "checked_op \<Rightarrow> int \<Rightarrow> int option" where
  "exact_result (Add x) v = Some (v + x)"
| "exact_result (Sub x) v = Some (v - x)"
| "exact_result (Mul x) v = Some (v * x)"
| "exact_result (Div x) v = (if x = 0 then None else Some (v sdiv x))"

fun exact_run :: "ctype \<Rightarrow> checked_op list \<Rightarrow> int \<Rightarrow> int option" where
  "exact_run T [] v = Some v"
| "exact_run T (op # ops) v =
     (case exact_result op v of None \<Rightarrow> None | Some r \<Rightarrow> if in_type T r then exact_run T ops r else None)"

fun operand :: "checked_op \<Rightarrow> int" where
  "operand (Add x) = x" | "operand (Sub x) = x" | "operand (Mul x) = x" | "operand (Div x) = x"

lemma sdiv_bounds:
  fixes v x :: int
  assumes "x \<noteq> 0"
  shows "\<bar>v sdiv x\<bar> \<le> \<bar>v\<bar>" "x \<noteq> - 1 \<Longrightarrow> x \<noteq> 1 \<Longrightarrow> v \<noteq> 0 \<Longrightarrow> \<bar>v sdiv x\<bar> < \<bar>v\<bar>"
proof -
  have eq: "\<bar>v sdiv x\<bar> = \<bar>v\<bar> div \<bar>x\<bar>"
    using assms by (cases "v = 0") (simp_all add: signed_divide_int_def abs_mult abs_sgn_eq pos_imp_zdiv_nonneg_iff)
  have "\<bar>x\<bar> \<ge> 1" using assms by simp
  then show "\<bar>v sdiv x\<bar> \<le> \<bar>v\<bar>"
    unfolding eq using int_div_less_self [of "\<bar>v\<bar>" "\<bar>x\<bar>"] by (cases "v = 0"; cases "\<bar>x\<bar> = 1") auto
  show "\<bar>v sdiv x\<bar> < \<bar>v\<bar>" if "x \<noteq> - 1" "x \<noteq> 1" "v \<noteq> 0"
    unfolding eq using that assms by (intro int_div_less_self) auto
qed

lemma sdiv_in_type:
  assumes "ct_bits T > 0" "in_type T v" "in_type T x" "x \<noteq> 0"
  shows "in_type T (v sdiv x) \<longleftrightarrow> \<not> (ct_signed T \<and> x = - 1 \<and> v = numeric_min T)"
proof (cases "ct_signed T")
  case False
  then have "0 \<le> v" "0 < x" using assms by (auto simp: in_type_def numeric_min_def)
  then have "0 \<le> v sdiv x" by (cases "v = 0") (simp_all add: signed_divide_int_def pos_imp_zdiv_nonneg_iff)
  then show ?thesis using sdiv_bounds(1) [OF assms(4), of v] False assms(2) \<open>0 \<le> v\<close>
    by (simp add: in_type_def numeric_min_def)
next
  case True
  define p where "p = (2 :: int) ^ (ct_bits T - 1)"
  have p: "p > 0" and range: "in_type T y \<longleftrightarrow> - p \<le> y \<and> y < p" for y
    using True by (auto simp: p_def in_type_def numeric_min_def numeric_max_def)
  have min: "numeric_min T = - p" using True by (simp add: p_def numeric_min_def)
  show ?thesis
  proof (cases "x = - 1")
    case True': True
    then have "v sdiv x = - v" by (simp add: signed_divide_int_def flip: sgn_mult) (simp add: mult_sgn_abs)
    then show ?thesis using assms(2) True True' min by (auto simp: range)
  next
    case False
    have "x = 1 \<Longrightarrow> v sdiv x = v" by (simp add: signed_divide_int_def mult_sgn_abs)
    then have "in_type T (v sdiv x)"
      using sdiv_bounds [OF assms(4), of v] assms(2) False p unfolding range by (cases "x = 1"; cases "v = 0") auto
    then show ?thesis using False by simp
  qed
qed

lemma checked_step_exact:
  assumes "ct_bits T > 0" "in_type T (ck_value c)" "in_type T (operand op)"
  shows "in_type T (ck_value (checked_step T op c))"
    "ck_overflow c \<Longrightarrow> ck_overflow (checked_step T op c)"
    "\<not> ck_overflow c \<Longrightarrow> checked_step T op c =
       (case exact_result op (ck_value c) of
          None \<Rightarrow> c\<lparr>ck_overflow := True\<rparr>
        | Some r \<Rightarrow> if in_type T r then Checked_of r else (checked_step T op c)\<lparr>ck_overflow := True\<rparr>)"
proof -
  note ops = Checked_add_def Checked_sub_def Checked_mul_def overflow_builtin_def Checked_of_def
    wrap_in_type [OF assms(1)] wrap_id [OF assms(1)]
  have div: "in_type T (ck_value c sdiv x) \<longleftrightarrow> \<not> (ct_signed T \<and> x = - 1 \<and> ck_value c = numeric_min T)"
    if "op = Div x" "x \<noteq> 0" for x using sdiv_in_type [OF assms(1,2) _ that(2)] assms(3) that(1) by simp
  show "in_type T (ck_value (checked_step T op c))"
    using div assms(2) by (cases op) (auto simp: ops Checked_div_def)
  show "ck_overflow c \<Longrightarrow> ck_overflow (checked_step T op c)"
    by (cases op) (simp_all add: ops Checked_div_def)
  show "checked_step T op c =
     (case exact_result op (ck_value c) of
        None \<Rightarrow> c\<lparr>ck_overflow := True\<rparr>
      | Some r \<Rightarrow> if in_type T r then Checked_of r else (checked_step T op c)\<lparr>ck_overflow := True\<rparr>)"
    if "\<not> ck_overflow c"
    using div that by (cases op) (auto simp: ops Checked_div_def)
qed

lemma checked_run_sticky:
  "ct_bits T > 0 \<Longrightarrow> in_type T (ck_value c) \<Longrightarrow> list_all (\<lambda>op. in_type T (operand op)) ops \<Longrightarrow>
   in_type T (ck_value (checked_run T ops c)) \<and> (ck_overflow c \<longrightarrow> ck_overflow (checked_run T ops c))"
  by (induction ops arbitrary: c) (simp_all add: checked_run_def checked_step_exact)

lemma checked_run_exact:
  assumes "ct_bits T > 0" "in_type T v" "list_all (\<lambda>op. in_type T (operand op)) ops"
  shows "case exact_run T ops v of
      Some r \<Rightarrow> checked_run T ops (Checked_of v) = Checked_of r \<and> in_type T r
    | None \<Rightarrow> has_overflow (checked_run T ops (Checked_of v)) \<and> in_type T (ck_value (checked_run T ops (Checked_of v)))"
  using assms(2,3)
proof (induction ops arbitrary: v)
  case Nil
  then show ?case by (simp add: checked_run_def)
next
  case (Cons op ops)
  let ?c = "checked_step T op (Checked_of v)"
  have run: "checked_run T (op # ops) (Checked_of v) = checked_run T ops ?c" by (simp add: checked_run_def)
  have v: "in_type T (ck_value (Checked_of v))" and op: "in_type T (operand op)" and ops: "list_all (\<lambda>op. in_type T (operand op)) ops"
    using Cons.prems by (simp_all add: Checked_of_def)
  note step = checked_step_exact [OF assms(1) v op]
  have c: "?c = (case exact_result op v of
      None \<Rightarrow> (Checked_of v)\<lparr>ck_overflow := True\<rparr>
    | Some r \<Rightarrow> if in_type T r then Checked_of r else ?c\<lparr>ck_overflow := True\<rparr>)"
    using step(3) by (simp add: Checked_of_def)
  show ?case
  proof (cases "exact_run T [op] v")
    case None
    then have "ck_overflow ?c" using c by (auto split: option.splits if_splits) (metis checked.select_convs(2) checked.update_convs(2) checked.surjective)+
    then have "has_overflow (checked_run T (op # ops) (Checked_of v))"
      using checked_run_sticky [OF assms(1) step(1) ops] run by (simp add: has_overflow_def)
    moreover have "in_type T (ck_value (checked_run T (op # ops) (Checked_of v)))"
      using checked_run_sticky [OF assms(1) step(1) ops] run by simp
    moreover have "exact_run T (op # ops) v = None" using None by (auto split: option.splits if_splits)
    ultimately show ?thesis by simp
  next
    case (Some r)
    then have r: "exact_result op v = Some r" "in_type T r" by (auto split: option.splits if_splits)
    have e: "?c = Checked_of r" using c r by simp
    show ?thesis using Cons.IH [OF r(2) ops] r unfolding run e by simp
  qed
qed

end
