(* ===== verification/Time.thy ===== *)
theory Time
  imports Checked_Int
begin

text \<open>
  The durations of \<open>base/Time.h\<close> and \<open>base/Time.cpp\<close>: \<open>i64\<close> seconds with \<open>u32\<close> nanoseconds.
  Plain signed arithmetic that leaves its type is undefined behaviour, and the model says so; the
  theorems show that it does not happen, that sums and differences of durations are exact or
  saturate, and that conversions round as their names say and saturate.
\<close>

section \<open>Signed arithmetic\<close>

definition signed_op :: "ctype \<Rightarrow> int \<Rightarrow> int res" where
  "signed_op T x = (if in_type T x then Inr x else Inl Undefined_Behaviour)"

abbreviation "i32_op \<equiv> signed_op i32_type"
abbreviation "i64_op \<equiv> signed_op i64_type"

section \<open>Durations\<close>

record duration =
  m_seconds :: int
  m_nanoseconds :: int

abbreviation "i64_max \<equiv> 0x7fffffffffffffff :: int"
abbreviation "i64_min \<equiv> - 0x8000000000000000 :: int"

definition Time_of :: "int \<Rightarrow> int \<Rightarrow> duration" where
  "Time_of seconds nanoseconds = \<lparr>m_seconds = seconds, m_nanoseconds = nanoseconds\<rparr>"

definition Time_move :: "duration \<Rightarrow> duration \<times> duration" where
  "Time_move other = (Time_of (m_seconds other) (m_nanoseconds other), Time_of 0 0)"

definition Time_min :: duration where "Time_min = Time_of i64_min 0"
definition Time_zero :: duration where "Time_zero = Time_of 0 0"
definition Time_max :: duration where "Time_max = Time_of i64_max 999999999"

text \<open>The quotient, and the numerator it leaves.\<close>

definition sane_mod :: "int \<Rightarrow> int \<Rightarrow> (int \<times> int) res" where
  "sane_mod numerator denominator =
     verify (2 \<le> denominator \<and> denominator \<le> 1000000000)
       (let dividend = numerator sdiv denominator; numerator = numerator smod denominator
        in if numerator < 0
           then rbind (i64_op (numerator + denominator)) (\<lambda>numerator.
                rbind (i64_op (dividend - 1)) (\<lambda>dividend. Inr (dividend, numerator)))
           else Inr (dividend, numerator))"

definition sane_mod32 :: "int \<Rightarrow> int \<Rightarrow> (int \<times> int) res" where
  "sane_mod32 numerator denominator =
     rbind (sane_mod numerator denominator) (\<lambda>(dividend, numerator_64).
       Inr (wrap_type i32_type dividend, wrap_type i32_type numerator_64))"

definition from_seconds :: "int \<Rightarrow> duration" where
  "from_seconds seconds = Time_of seconds 0"

definition from_nanoseconds :: "int \<Rightarrow> duration res" where
  "from_nanoseconds nanoseconds =
     rbind (sane_mod nanoseconds 1000000000) (\<lambda>(seconds, nanoseconds).
       Inr (Time_of seconds (wrap_type u32_type nanoseconds)))"

definition from_microseconds :: "int \<Rightarrow> duration res" where
  "from_microseconds microseconds =
     rbind (sane_mod microseconds 1000000) (\<lambda>(seconds, microseconds).
     rbind (i64_op (microseconds * 1000)) (\<lambda>nanoseconds.
       Inr (Time_of seconds (wrap_type u32_type nanoseconds))))"

definition from_milliseconds :: "int \<Rightarrow> duration res" where
  "from_milliseconds milliseconds =
     rbind (sane_mod milliseconds 1000) (\<lambda>(seconds, milliseconds).
     rbind (i64_op (milliseconds * 1000000)) (\<lambda>nanoseconds.
       Inr (Time_of seconds (wrap_type u32_type nanoseconds))))"

definition from_half_sanitized :: "int \<Rightarrow> int \<Rightarrow> int \<Rightarrow> duration res" where
  "from_half_sanitized seconds extra_seconds nanoseconds =
     verify (nanoseconds < 1000000000)
       (rbind (if (seconds \<le> 0 \<and> extra_seconds > 0) \<or> (seconds \<ge> 0 \<and> extra_seconds < 0)
               then rbind (i64_op (seconds + extra_seconds)) (\<lambda>seconds. Inr (seconds, 0))
               else Inr (seconds, extra_seconds)) (\<lambda>(seconds, extra_seconds).
          if addition_would_overflow i64_type seconds extra_seconds
          then Inr (if seconds < 0 then Time_min else Time_max)
          else rbind (i64_op (seconds + extra_seconds)) (\<lambda>seconds. Inr (Time_of seconds nanoseconds))))"

record timespec =
  tv_sec :: int
  tv_nsec :: int

record timeval =
  tvu_sec :: int
  tvu_usec :: int

definition from_timespec :: "timespec \<Rightarrow> duration res" where
  "from_timespec ts =
     rbind (sane_mod32 (wrap_type i32_type (tv_nsec ts)) 1000000000) (\<lambda>(extra_secs, nsecs).
       from_half_sanitized (tv_sec ts) extra_secs (wrap_type u32_type nsecs))"

definition from_timeval :: "timeval \<Rightarrow> duration res" where
  "from_timeval tv =
     rbind (sane_mod32 (wrap_type i32_type (tvu_usec tv)) 1000000) (\<lambda>(extra_secs, usecs).
       verify (0 \<le> usecs \<and> usecs < 1000000)
         (rbind (i32_op (usecs * 1000)) (\<lambda>nsecs.
            from_half_sanitized (tvu_sec tv) extra_secs (wrap_type u32_type nsecs))))"

section \<open>Conversions from durations\<close>

definition to_truncated_seconds :: "duration \<Rightarrow> int res" where
  "to_truncated_seconds t =
     verify (m_nanoseconds t < 1000000000)
       (if m_seconds t < 0 \<and> m_nanoseconds t \<noteq> 0 then i64_op (m_seconds t + 1) else Inr (m_seconds t))"

text \<open>The end of the conversions: the value, or the bound on the side of the sign.\<close>

definition saturated :: "duration \<Rightarrow> checked \<Rightarrow> int res" where
  "saturated t c =
     (if \<not> has_overflow c then Checked_value c else Inr (if m_seconds t < 0 then i64_min else i64_max))"

definition starting_seconds :: "duration \<Rightarrow> checked res" where
  "starting_seconds t =
     rbind (if m_seconds t < 0 then i64_op (m_seconds t + 1) else Inr (m_seconds t)) (\<lambda>s. Inr (Checked_of s))"

definition to_truncated_milliseconds :: "duration \<Rightarrow> int res" where
  "to_truncated_milliseconds t =
     verify (m_nanoseconds t < 1000000000)
       (rbind (starting_seconds t) (\<lambda>milliseconds.
          let milliseconds = Checked_mul i64_type milliseconds 1000;
              milliseconds = Checked_add i64_type milliseconds (m_nanoseconds t div 1000000);
              milliseconds =
                (if m_seconds t < 0 then
                   Checked_sub i64_type
                     (if m_nanoseconds t mod 1000000 \<noteq> 0 then snd (Checked_post_increment i64_type milliseconds)
                      else milliseconds) 1000
                 else milliseconds)
          in saturated t milliseconds))"

definition to_truncated_microseconds :: "duration \<Rightarrow> int res" where
  "to_truncated_microseconds t =
     verify (m_nanoseconds t < 1000000000)
       (rbind (starting_seconds t) (\<lambda>microseconds.
          let microseconds = Checked_mul i64_type microseconds 1000000;
              microseconds = Checked_add i64_type microseconds (m_nanoseconds t div 1000);
              microseconds =
                (if m_seconds t < 0 then
                   Checked_sub i64_type
                     (if m_nanoseconds t mod 1000 \<noteq> 0 then snd (Checked_post_increment i64_type microseconds)
                      else microseconds) 1000000
                 else microseconds)
          in saturated t microseconds))"

definition to_seconds :: "duration \<Rightarrow> int res" where
  "to_seconds t =
     verify (m_nanoseconds t < 1000000000)
       (if m_seconds t \<ge> 0 \<and> m_nanoseconds t \<noteq> 0
        then let seconds = snd (Checked_post_increment i64_type (Checked_of (m_seconds t)))
             in if has_overflow seconds then Inr i64_max else Checked_value seconds
        else Inr (m_seconds t))"

definition to_milliseconds :: "duration \<Rightarrow> int res" where
  "to_milliseconds t =
     verify (m_nanoseconds t < 1000000000)
       (rbind (starting_seconds t) (\<lambda>milliseconds.
          let milliseconds = Checked_mul i64_type milliseconds 1000;
              milliseconds = Checked_add i64_type milliseconds (m_nanoseconds t div 1000000);
              milliseconds =
                (if m_seconds t \<ge> 0 \<and> m_nanoseconds t mod 1000000 \<noteq> 0
                 then snd (Checked_post_increment i64_type milliseconds) else milliseconds);
              milliseconds = (if m_seconds t < 0 then Checked_sub i64_type milliseconds 1000 else milliseconds)
          in saturated t milliseconds))"

definition to_microseconds :: "duration \<Rightarrow> int res" where
  "to_microseconds t =
     verify (m_nanoseconds t < 1000000000)
       (rbind (starting_seconds t) (\<lambda>microseconds.
          let microseconds = Checked_mul i64_type microseconds 1000000;
              microseconds = Checked_add i64_type microseconds (m_nanoseconds t div 1000);
              microseconds =
                (if m_seconds t \<ge> 0 \<and> m_nanoseconds t mod 1000 \<noteq> 0
                 then snd (Checked_post_increment i64_type microseconds) else microseconds);
              microseconds = (if m_seconds t < 0 then Checked_sub i64_type microseconds 1000000 else microseconds)
          in saturated t microseconds))"

definition to_nanoseconds :: "duration \<Rightarrow> int res" where
  "to_nanoseconds t =
     verify (m_nanoseconds t < 1000000000)
       (rbind (starting_seconds t) (\<lambda>nanoseconds.
          let nanoseconds = Checked_mul i64_type nanoseconds 1000000000;
              nanoseconds = Checked_add i64_type nanoseconds (m_nanoseconds t);
              nanoseconds = (if m_seconds t < 0 then Checked_sub i64_type nanoseconds 1000000000 else nanoseconds)
          in saturated t nanoseconds))"

definition to_timespec :: "duration \<Rightarrow> timespec res" where
  "to_timespec t =
     verify (m_nanoseconds t < 1000000000)
       (Inr \<lparr>tv_sec = m_seconds t, tv_nsec = wrap_type i32_type (m_nanoseconds t)\<rparr>)"

definition to_timeval :: "duration \<Rightarrow> timeval res" where
  "to_timeval t =
     verify (m_nanoseconds t < 1000000000)
       (Inr \<lparr>tvu_sec = m_seconds t, tvu_usec = wrap_type i32_type (m_nanoseconds t) sdiv 1000\<rparr>)"

section \<open>Arithmetic of durations\<close>

definition Time_plus :: "duration \<Rightarrow> duration \<Rightarrow> duration res" where
  "Time_plus t other =
     verify (m_nanoseconds t < 1000000000)
       (verify (m_nanoseconds other < 1000000000)
         (let new_nsecs = wrap_type u32_type (m_nanoseconds t + m_nanoseconds other);
              extra_secs = new_nsecs div 1000000000;
              new_nsecs = new_nsecs mod 1000000000
          in rbind
               (if extra_secs \<noteq> 0 then
                  verify (extra_secs = 1)
                    (if m_seconds t \<noteq> i64_max then
                       rbind (i64_op (m_seconds t + 1)) (\<lambda>this_secs. Inr (Some (this_secs, m_seconds other)))
                     else if m_seconds other \<noteq> i64_max then
                       rbind (i64_op (m_seconds other + 1)) (\<lambda>other_secs. Inr (Some (m_seconds t, other_secs)))
                     else Inr None)
                else Inr (Some (m_seconds t, m_seconds other)))
               (\<lambda>secs.
                  case secs of
                    None \<Rightarrow> Inr Time_max
                  | Some (this_secs, other_secs) \<Rightarrow>
                      let new_secs = Checked_add i64_type (Checked_of this_secs) other_secs
                      in if has_overflow new_secs then Inr (if other_secs > 0 then Time_max else Time_min)
                         else rbind (Checked_value new_secs) (\<lambda>secs. Inr (Time_of secs new_nsecs)))))"

definition Time_minus :: "duration \<Rightarrow> duration \<Rightarrow> duration res" where
  "Time_minus t other =
     verify (m_nanoseconds t < 1000000000)
       (verify (m_nanoseconds other < 1000000000)
         (if m_nanoseconds other \<noteq> 0 then
            Time_plus t (Time_of (NOT (m_seconds other)) (wrap_type u32_type (1000000000 - m_nanoseconds other)))
          else if m_seconds other \<noteq> i64_min then
            rbind (i64_op (- m_seconds other)) (\<lambda>secs. Time_plus t (Time_of secs 0))
          else if m_seconds t \<ge> 0 then Inr Time_max
          else rbind (i64_op (m_seconds t + 0x4000000000000000)) (\<lambda>s.
               rbind (i64_op (s + 0x4000000000000000)) (\<lambda>s. Inr (Time_of s (m_nanoseconds t))))))"

definition Time_is_zero :: "duration \<Rightarrow> bool" where
  "Time_is_zero t \<longleftrightarrow> m_seconds t = 0 \<and> m_nanoseconds t = 0"

definition Time_equal :: "duration \<Rightarrow> duration \<Rightarrow> bool" where
  "Time_equal t other \<longleftrightarrow> m_seconds t = m_seconds other \<and> m_nanoseconds t = m_nanoseconds other"

definition Time_less :: "duration \<Rightarrow> duration \<Rightarrow> bool" where
  "Time_less t other \<longleftrightarrow> m_seconds t < m_seconds other \<or>
     (m_seconds t = m_seconds other \<and> m_nanoseconds t < m_nanoseconds other)"

definition Time_less_equal :: "duration \<Rightarrow> duration \<Rightarrow> bool" where
  "Time_less_equal t other \<longleftrightarrow> m_seconds t < m_seconds other \<or>
     (m_seconds t = m_seconds other \<and> m_nanoseconds t \<le> m_nanoseconds other)"

definition Time_greater :: "duration \<Rightarrow> duration \<Rightarrow> bool" where
  "Time_greater t other \<longleftrightarrow> m_seconds t > m_seconds other \<or>
     (m_seconds t = m_seconds other \<and> m_nanoseconds t > m_nanoseconds other)"

definition Time_greater_equal :: "duration \<Rightarrow> duration \<Rightarrow> bool" where
  "Time_greater_equal t other \<longleftrightarrow> m_seconds t > m_seconds other \<or>
     (m_seconds t = m_seconds other \<and> m_nanoseconds t \<ge> m_nanoseconds other)"

section \<open>Arithmetic of the C structures\<close>

text \<open>The templates work on any structure; the types of its fields are parameters.\<close>

definition timeval_sub :: "ctype \<Rightarrow> ctype \<Rightarrow> timeval \<Rightarrow> timeval \<Rightarrow> timeval res" where
  "timeval_sub S U a b =
     rbind (signed_op S (tvu_sec a - tvu_sec b)) (\<lambda>sec.
     rbind (signed_op U (tvu_usec a - tvu_usec b)) (\<lambda>usec.
       if usec < 0
       then rbind (signed_op S (sec - 1)) (\<lambda>sec.
            rbind (signed_op U (usec + 1000000)) (\<lambda>usec. Inr \<lparr>tvu_sec = sec, tvu_usec = usec\<rparr>))
       else Inr \<lparr>tvu_sec = sec, tvu_usec = usec\<rparr>))"

definition timeval_add :: "ctype \<Rightarrow> ctype \<Rightarrow> timeval \<Rightarrow> timeval \<Rightarrow> timeval res" where
  "timeval_add S U a b =
     rbind (signed_op S (tvu_sec a + tvu_sec b)) (\<lambda>sec.
     rbind (signed_op U (tvu_usec a + tvu_usec b)) (\<lambda>usec.
       if usec \<ge> 1000000
       then rbind (signed_op S (sec + 1)) (\<lambda>sec.
            rbind (signed_op U (usec - 1000000)) (\<lambda>usec. Inr \<lparr>tvu_sec = sec, tvu_usec = usec\<rparr>))
       else Inr \<lparr>tvu_sec = sec, tvu_usec = usec\<rparr>))"

definition timespec_sub :: "ctype \<Rightarrow> ctype \<Rightarrow> timespec \<Rightarrow> timespec \<Rightarrow> timespec res" where
  "timespec_sub S N a b =
     rbind (signed_op S (tv_sec a - tv_sec b)) (\<lambda>sec.
     rbind (signed_op N (tv_nsec a - tv_nsec b)) (\<lambda>nsec.
       if nsec < 0
       then rbind (signed_op S (sec - 1)) (\<lambda>sec.
            rbind (signed_op N (nsec + 1000000000)) (\<lambda>nsec. Inr \<lparr>tv_sec = sec, tv_nsec = nsec\<rparr>))
       else Inr \<lparr>tv_sec = sec, tv_nsec = nsec\<rparr>))"

text \<open>The end of the two sums of times of day: a carry of at most one second.\<close>

definition timespec_carry :: "ctype \<Rightarrow> ctype \<Rightarrow> int \<Rightarrow> int \<Rightarrow> timespec res" where
  "timespec_carry S N sec nsec =
     (if nsec \<ge> 1000000000
      then rbind (signed_op S (sec + 1)) (\<lambda>sec.
           rbind (signed_op N (nsec - 1000000000)) (\<lambda>nsec. Inr \<lparr>tv_sec = sec, tv_nsec = nsec\<rparr>))
      else Inr \<lparr>tv_sec = sec, tv_nsec = nsec\<rparr>)"

definition timespec_add :: "ctype \<Rightarrow> ctype \<Rightarrow> timespec \<Rightarrow> timespec \<Rightarrow> timespec res" where
  "timespec_add S N a b =
     rbind (signed_op S (tv_sec a + tv_sec b)) (\<lambda>sec.
     rbind (signed_op N (tv_nsec a + tv_nsec b)) (\<lambda>nsec. timespec_carry S N sec nsec))"

definition timespec_add_timeval :: "ctype \<Rightarrow> ctype \<Rightarrow> timespec \<Rightarrow> timeval \<Rightarrow> timespec res" where
  "timespec_add_timeval S N a b =
     rbind (signed_op S (tv_sec a + tvu_sec b)) (\<lambda>sec.
     rbind (signed_op N (tvu_usec b * 1000)) (\<lambda>nsec_b.
     rbind (signed_op N (tv_nsec a + nsec_b)) (\<lambda>nsec. timespec_carry S N sec nsec)))"

definition timeval_to_timespec :: "ctype \<Rightarrow> timeval \<Rightarrow> timespec res" where
  "timeval_to_timespec N tv = rbind (signed_op N (tvu_usec tv * 1000)) (\<lambda>nsec. Inr \<lparr>tv_sec = tvu_sec tv, tv_nsec = nsec\<rparr>)"

definition timespec_to_timeval :: "timespec \<Rightarrow> timeval" where
  "timespec_to_timeval ts = \<lparr>tvu_sec = tv_sec ts, tvu_usec = tv_nsec ts sdiv 1000\<rparr>"

definition timespec_greater_equal :: "timespec \<Rightarrow> timespec \<Rightarrow> bool" where
  "timespec_greater_equal a b \<longleftrightarrow> tv_sec a > tv_sec b \<or> (tv_sec a = tv_sec b \<and> tv_nsec a \<ge> tv_nsec b)"

definition timespec_greater :: "timespec \<Rightarrow> timespec \<Rightarrow> bool" where
  "timespec_greater a b \<longleftrightarrow> tv_sec a > tv_sec b \<or> (tv_sec a = tv_sec b \<and> tv_nsec a > tv_nsec b)"

definition timespec_less :: "timespec \<Rightarrow> timespec \<Rightarrow> bool" where
  "timespec_less a b \<longleftrightarrow> tv_sec a < tv_sec b \<or> (tv_sec a = tv_sec b \<and> tv_nsec a < tv_nsec b)"

definition timespec_less_equal :: "timespec \<Rightarrow> timespec \<Rightarrow> bool" where
  "timespec_less_equal a b \<longleftrightarrow> tv_sec a < tv_sec b \<or> (tv_sec a = tv_sec b \<and> tv_nsec a \<le> tv_nsec b)"

definition timespec_equal :: "timespec \<Rightarrow> timespec \<Rightarrow> bool" where
  "timespec_equal a b \<longleftrightarrow> tv_sec a = tv_sec b \<and> tv_nsec a = tv_nsec b"

definition timespec_not_equal :: "timespec \<Rightarrow> timespec \<Rightarrow> bool" where
  "timespec_not_equal a b \<longleftrightarrow> tv_sec a \<noteq> tv_sec b \<or> tv_nsec a \<noteq> tv_nsec b"

section \<open>Durations count nanoseconds\<close>

definition time_ok :: "duration \<Rightarrow> bool" where
  "time_ok t \<longleftrightarrow> in_type i64_type (m_seconds t) \<and> 0 \<le> m_nanoseconds t \<and> m_nanoseconds t < 1000000000"

definition time_ns :: "duration \<Rightarrow> int" where
  "time_ns t = m_seconds t * 1000000000 + m_nanoseconds t"

definition clamp :: "int \<Rightarrow> int \<Rightarrow> int \<Rightarrow> int" where
  "clamp lo hi x = max lo (min hi x)"

lemma i64_range: "in_type i64_type x \<longleftrightarrow> i64_min \<le> x \<and> x \<le> i64_max"
  by (simp add: in_type_def i64_type_def numeric_min_def numeric_max_def)

lemma i32_range: "in_type i32_type x \<longleftrightarrow> - 0x80000000 \<le> x \<and> x \<le> 0x7fffffff"
  by (simp add: in_type_def i32_type_def numeric_min_def numeric_max_def)

lemma u32_range: "in_type u32_type x \<longleftrightarrow> 0 \<le> x \<and> x \<le> 0xffffffff"
  by (simp add: in_type_def u32_type_def numeric_min_def numeric_max_def)

lemma wrap_u32: "0 \<le> x \<Longrightarrow> x \<le> 0xffffffff \<Longrightarrow> wrap_type u32_type x = x"
  by (intro wrap_id) (simp add: u32_type_def, simp only: u32_range)

lemma wrap_i32: "- 0x80000000 \<le> x \<Longrightarrow> x \<le> 0x7fffffff \<Longrightarrow> wrap_type i32_type x = x"
  by (intro wrap_id) (simp add: i32_type_def, simp only: i32_range)

lemma signed_op_ok [simp]: "in_type T x \<Longrightarrow> signed_op T x = Inr x"
  by (simp add: signed_op_def)

lemma i64_wrap_id: "in_type i64_type x \<Longrightarrow> wrap_type i64_type x = x"
  by (rule wrap_id) (simp_all add: i64_type_def)

lemma Time_of_sel [simp]: "m_seconds (Time_of s n) = s" "m_nanoseconds (Time_of s n) = n"
  by (simp_all add: Time_of_def)

definition saturated_time :: "int \<Rightarrow> int \<Rightarrow> duration" where
  "saturated_time s n = (if s > i64_max then Time_max else if s < i64_min then Time_min else Time_of s n)"

lemma saturated_time_spec:
  assumes "0 \<le> n" "n < 1000000000"
  shows "time_ok (saturated_time s n)"
    "time_ns (saturated_time s n) = clamp (time_ns Time_min) (time_ns Time_max) (s * 1000000000 + n)"
  using assms
  by (auto simp: saturated_time_def time_ok_def i64_range time_ns_def clamp_def Time_max_def Time_min_def Time_of_def)

lemma checked_sum_saturates:
  assumes "i64_min \<le> x" "x \<le> i64_max" "i64_min \<le> y" "y \<le> i64_max"
  shows "(let new_secs = Checked_add i64_type (Checked_of x) y
      in if has_overflow new_secs then Inr (if y > 0 then Time_max else Time_min)
         else rbind (Checked_value new_secs) (\<lambda>secs. Inr (Time_of secs n))) = Inr (saturated_time (x + y) n)"
  using assms
  by (auto simp: Checked_add_def overflow_builtin_def Checked_of_def has_overflow_def Checked_value_def
      i64_range i64_wrap_id saturated_time_def Let_def)

lemma carry_split:
  fixes r :: int
  assumes "0 \<le> r" "r < 1000000000"
  shows "(r + 1000000000) div 1000000000 = 1" "(r + 1000000000) mod 1000000000 = r"
  using assms by (simp_all add: div_add_self2 div_pos_pos_trivial)

lemma time_plus_eq:
  assumes "i64_min \<le> s" "s \<le> i64_max" "i64_min \<le> s'" "s' \<le> i64_max" "0 \<le> n" "n < 1000000000" "0 \<le> n'" "n' < 1000000000"
  shows "Time_plus (Time_of s n) (Time_of s' n') =
    Inr (if n + n' < 1000000000 then saturated_time (s + s') (n + n')
         else saturated_time (s + s' + 1) (n + n' - 1000000000))"
proof (cases "n + n' < 1000000000")
  case True
  have "wrap_type u32_type (n + n') = n + n'" using assms by (intro wrap_u32) simp_all
  moreover have "(n + n') div 1000000000 = 0" "(n + n') mod 1000000000 = n + n'" using assms True by simp_all
  ultimately show ?thesis
    using assms True checked_sum_saturates [of s s' "n + n'"] by (auto simp: Time_plus_def Let_def split: if_splits)
next
  case False
  have w: "wrap_type u32_type (n + n') = n + n'" using assms by (intro wrap_u32) simp_all
  have q: "(n + n') div 1000000000 = 1" "(n + n') mod 1000000000 = n + n' - 1000000000"
    using carry_split [of "n + n' - 1000000000"] assms False by simp_all
  let ?m = "n + n' - 1000000000"
  consider "s \<noteq> i64_max" | "s = i64_max" "s' \<noteq> i64_max" | "s = i64_max" "s' = i64_max" by blast
  then show ?thesis
  proof cases
    case 1
    then show ?thesis using assms False w q checked_sum_saturates [of "s + 1" s' ?m]
      by (auto simp: Time_plus_def Let_def i64_range add.commute add.left_commute split: if_splits)
  next
    case 2
    then show ?thesis using assms False w q checked_sum_saturates [of s "s' + 1" ?m]
      by (auto simp: Time_plus_def Let_def i64_range add.assoc split: if_splits)
  next
    case 3
    then show ?thesis using assms False w q by (simp add: Time_plus_def Let_def saturated_time_def)
  qed
qed

lemma duration_cases:
  assumes "time_ok t"
  obtains s n where "t = Time_of s n" "i64_min \<le> s" "s \<le> i64_max" "0 \<le> n" "n < 1000000000"
  using assms by (cases t) (auto simp: Time_of_def time_ok_def i64_range)

lemma time_plus_saturates:
  assumes "time_ok a" "time_ok b"
  shows "\<exists>t. Time_plus a b = Inr t \<and> time_ok t \<and>
    time_ns t = clamp (time_ns Time_min) (time_ns Time_max) (time_ns a + time_ns b)"
proof -
  obtain s n where a: "a = Time_of s n" "i64_min \<le> s" "s \<le> i64_max" "0 \<le> n" "n < 1000000000"
    using duration_cases [OF assms(1)] .
  obtain s' n' where b: "b = Time_of s' n'" "i64_min \<le> s'" "s' \<le> i64_max" "0 \<le> n'" "n' < 1000000000"
    using duration_cases [OF assms(2)] .
  have sum: "time_ns a + time_ns b = (s + s') * 1000000000 + (n + n')"
    "time_ns a + time_ns b = (s + s' + 1) * 1000000000 + (n + n' - 1000000000)"
    by (simp_all add: a(1) b(1) time_ns_def Time_of_def algebra_simps)
  show ?thesis
  proof (cases "n + n' < 1000000000")
    case True
    then show ?thesis
      using saturated_time_spec [of "n + n'" "s + s'"] a b sum(1) by (simp add: time_plus_eq)
  next
    case False
    then show ?thesis
      using saturated_time_spec [of "n + n' - 1000000000" "s + s' + 1"] a b sum(2) by (simp add: time_plus_eq)
  qed
qed

lemma time_minus_saturates:
  assumes "time_ok a" "time_ok b"
  shows "\<exists>t. Time_minus a b = Inr t \<and> time_ok t \<and>
    time_ns t = clamp (time_ns Time_min) (time_ns Time_max) (time_ns a - time_ns b)"
proof -
  obtain s n where a: "a = Time_of s n" "i64_min \<le> s" "s \<le> i64_max" "0 \<le> n" "n < 1000000000"
    using duration_cases [OF assms(1)] .
  obtain s' n' where b: "b = Time_of s' n'" "i64_min \<le> s'" "s' \<le> i64_max" "0 \<le> n'" "n' < 1000000000"
    using duration_cases [OF assms(2)] .
  have neg: "\<exists>t. Time_plus a c = Inr t \<and> time_ok t \<and>
      time_ns t = clamp (time_ns Time_min) (time_ns Time_max) (time_ns a - time_ns b)"
    if "time_ok c" "time_ns c = - time_ns b" for c
    using time_plus_saturates [OF assms(1) that(1)] that(2) by simp
  consider "n' \<noteq> 0" | "n' = 0" "s' \<noteq> i64_min" | "n' = 0" "s' = i64_min" by blast
  then show ?thesis
  proof cases
    case 1
    let ?c = "Time_of (NOT s') (1000000000 - n')"
    have w: "wrap_type u32_type (1000000000 - n') = 1000000000 - n'" using b 1 by (intro wrap_u32) simp_all
    have "time_ok ?c" using b 1 by (simp add: time_ok_def i64_range not_int_def)
    moreover have "time_ns ?c = - time_ns b" by (simp add: b(1) time_ns_def not_int_def algebra_simps)
    ultimately show ?thesis using neg [of ?c] a b 1 w by (simp add: Time_minus_def)
  next
    case 2
    let ?c = "Time_of (- s') 0"
    have "time_ok ?c" using b 2 by (simp add: time_ok_def i64_range)
    moreover have "time_ns ?c = - time_ns b" using 2 by (simp add: b(1) time_ns_def)
    ultimately show ?thesis using neg [of ?c] a b 2 by (simp add: Time_minus_def i64_range)
  next
    case 3
    show ?thesis
    proof (cases "s \<ge> 0")
      case True
      have "Time_minus a b = Inr (saturated_time (s + 0x8000000000000000) n)"
        using True a b 3 by (simp add: Time_minus_def saturated_time_def)
      then show ?thesis using saturated_time_spec [OF a(4,5), of "s + 0x8000000000000000"] a(1) b(1) 3
        by (simp add: time_ns_def algebra_simps)
    next
      case False
      have "Time_minus a b = Inr (saturated_time (s + 0x8000000000000000) n)"
        using False a b 3 by (simp add: Time_minus_def saturated_time_def i64_range)
      then show ?thesis using saturated_time_spec [OF a(4,5), of "s + 0x8000000000000000"] a(1) b(1) 3
        by (simp add: time_ns_def algebra_simps)
    qed
  qed
qed

section \<open>Rounding\<close>

text \<open>A unit of \<open>u\<close> nanoseconds, of which there are \<open>k\<close> in a second.\<close>

definition round_away :: "int \<Rightarrow> int \<Rightarrow> int" where
  "round_away x u = (if x \<ge> 0 then (x + u - 1) div u else x div u)"

definition round_to_zero :: "int \<Rightarrow> int \<Rightarrow> int" where
  "round_to_zero x u = (if x \<ge> 0 then x div u else (x + u - 1) div u)"

lemma ceil_eq:
  fixes x u :: int
  assumes "u > 0"
  shows "(x + u - 1) div u = x div u + (if x mod u = 0 then 0 else 1)"
proof -
  define q r where "q = x div u" and "r = x mod u"
  have r: "0 \<le> r" "r < u" and x: "x = r + q * u" using assms by (simp_all add: q_def r_def)
  have "(x + u - 1) div u = q + (r + u - 1) div u"
    using assms div_mult_self1 [of u "r + u - 1" q] by (simp add: x algebra_simps)
  moreover have "(r + u - 1) div u = (if r = 0 then 0 else 1)"
    using r div_add_self2 [of u "r - 1"] by (auto simp: div_pos_pos_trivial algebra_simps)
  ultimately show ?thesis by (simp add: q_def r_def)
qed

lemma round_to_zero_sdiv: "u > 0 \<Longrightarrow> round_to_zero x u = x sdiv u"
  using zdiv_zminus1_eq_if [of u x] ceil_eq [of u x]
  by (cases "x = 0") (auto simp: round_to_zero_def signed_divide_int_def)

lemma sticky:
  "has_overflow c \<Longrightarrow> has_overflow (Checked_add T c x)" "has_overflow c \<Longrightarrow> has_overflow (Checked_sub T c x)"
  by (simp_all add: has_overflow_def Checked_add_def Checked_sub_def overflow_builtin_def)

lemma exact_i64:
  "i64_min \<le> v + x \<Longrightarrow> v + x \<le> i64_max \<Longrightarrow> Checked_add i64_type (Checked_of v) x = Checked_of (v + x)"
  "i64_min \<le> v - x \<Longrightarrow> v - x \<le> i64_max \<Longrightarrow> Checked_sub i64_type (Checked_of v) x = Checked_of (v - x)"
  "i64_min \<le> v * x \<Longrightarrow> v * x \<le> i64_max \<Longrightarrow> Checked_mul i64_type (Checked_of v) x = Checked_of (v * x)"
  by (simp_all add: Checked_add_def Checked_sub_def Checked_mul_def overflow_builtin_def Checked_of_def i64_wrap_id i64_range)

lemma overflow_i64:
  "v + x < i64_min \<or> v + x > i64_max \<Longrightarrow> has_overflow (Checked_add i64_type (Checked_of v) x)"
  "v - x < i64_min \<or> v - x > i64_max \<Longrightarrow> has_overflow (Checked_sub i64_type (Checked_of v) x)"
  "v * x < i64_min \<or> v * x > i64_max \<Longrightarrow> has_overflow (Checked_mul i64_type (Checked_of v) x)"
  by (auto simp: Checked_add_def Checked_sub_def Checked_mul_def overflow_builtin_def Checked_of_def i64_range has_overflow_def)

lemma saturated_of: "saturated t (Checked_of v) = Inr v"
  by (simp add: saturated_def Checked_of_def has_overflow_def Checked_value_def)

lemma saturated_over: "has_overflow c \<Longrightarrow> saturated t c = Inr (if m_seconds t < 0 then i64_min else i64_max)"
  by (simp add: saturated_def)

text \<open>From nonnegative seconds the value only grows.\<close>

lemma grow_twice:
  assumes "0 \<le> p" "0 \<le> x" "0 \<le> y" "m_seconds t \<ge> 0" "c = Checked_of p \<and> p \<le> i64_max \<or> has_overflow c \<and> p > i64_max"
  shows "saturated t (Checked_add i64_type (Checked_add i64_type c x) y) = Inr (clamp i64_min i64_max (p + x + y))"
proof (cases "p + x + y \<le> i64_max")
  case True
  then show ?thesis using assms by (auto simp: exact_i64 saturated_of clamp_def)
next
  case False
  have "has_overflow (Checked_add i64_type (Checked_add i64_type c x) y)"
  proof (cases "p + x \<le> i64_max")
    case True
    then have "Checked_add i64_type c x = Checked_of (p + x)" using assms by (auto simp: exact_i64)
    then show ?thesis using False by (simp add: overflow_i64)
  next
    case False
    then have "has_overflow (Checked_add i64_type c x)" using assms(5) by (auto simp: overflow_i64 sticky)
    then show ?thesis by (rule sticky)
  qed
  then show ?thesis using False assms(4) by (simp add: saturated_over clamp_def)
qed

text \<open>From negative seconds it is largest after the first product, and drops at the end.\<close>

lemma drop_last:
  assumes "p \<le> 0" "0 \<le> x" "0 \<le> y" "x + y \<le> k" "k \<le> 1000000000" "m_seconds t < 0"
    "c = Checked_of p \<and> i64_min \<le> p \<or> has_overflow c \<and> p < i64_min"
  shows "saturated t (Checked_sub i64_type (Checked_add i64_type (Checked_add i64_type c x) y) k) =
    Inr (clamp i64_min i64_max (p + x + y - k))"
proof (cases "i64_min \<le> p")
  case True
  then have "Checked_add i64_type (Checked_add i64_type c x) y = Checked_of (p + x + y)"
    using assms by (auto simp: exact_i64)
  then show ?thesis
    using assms(1-6) by (cases "i64_min \<le> p + x + y - k") (simp_all add: exact_i64 overflow_i64 saturated_of saturated_over clamp_def)
next
  case False
  then have "has_overflow c" using assms(7) by auto
  then show ?thesis using False assms(1-6) by (simp add: sticky saturated_over clamp_def)
qed

lemma add_zero: "in_type i64_type (ck_value c) \<Longrightarrow> Checked_add i64_type c 0 = c"
  by (cases c) (simp add: Checked_add_def overflow_builtin_def i64_wrap_id)

lemma add_in_type: "in_type i64_type (ck_value (Checked_add i64_type c x))"
  by (simp add: Checked_add_def overflow_builtin_def wrap_in_type i64_type_def)

lemma product_start:
  assumes "time_ok t"
  shows "m_seconds t \<ge> 0 \<Longrightarrow> starting_seconds t = Inr (Checked_of (m_seconds t))"
    "m_seconds t < 0 \<Longrightarrow> starting_seconds t = Inr (Checked_of (m_seconds t + 1))"
  using assms by (auto simp: starting_seconds_def time_ok_def i64_range)

lemma product_cases:
  "p = v * k \<Longrightarrow> Checked_mul i64_type (Checked_of v) k = Checked_of p \<and> i64_min \<le> p \<and> p \<le> i64_max \<or>
   has_overflow (Checked_mul i64_type (Checked_of v) k) \<and> (p < i64_min \<or> p > i64_max)"
  by (cases "i64_min \<le> p \<and> p \<le> i64_max") (auto simp: exact_i64 overflow_i64 not_le)

text \<open>
  One conversion for every unit: after the product the code adds the whole units of the
  nanoseconds, then one more when it rounds, then takes back the second it dropped.
\<close>

definition unit_chain :: "duration \<Rightarrow> int \<Rightarrow> int \<Rightarrow> bool \<Rightarrow> checked \<Rightarrow> checked" where
  "unit_chain t k u up c =
     (let c = Checked_add i64_type (Checked_mul i64_type c k) (m_nanoseconds t div u);
          c = (if up then snd (Checked_post_increment i64_type c) else c)
      in if m_seconds t < 0 then Checked_sub i64_type c k else c)"

lemma unit_chain_spec:
  assumes "time_ok t" "0 < u" "0 < k" "k * u = 1000000000"
  shows "\<exists>c. starting_seconds t = Inr c \<and>
    saturated t (unit_chain t k u up c) =
      Inr (clamp i64_min i64_max (m_seconds t * k + m_nanoseconds t div u + (if up then 1 else 0)))"
proof -
  let ?s = "m_seconds t" and ?x = "m_nanoseconds t div u" and ?y = "if up then 1 else 0 :: int"
  have n: "0 \<le> m_nanoseconds t" "m_nanoseconds t < k * u" using assms(1,4) by (simp_all add: time_ok_def)
  have x0: "0 \<le> ?x" using n assms(2) by (simp add: pos_imp_zdiv_nonneg_iff)
  have "?x * u < k * u" using n(2) minus_mod_eq_div_mult [of "m_nanoseconds t" u] pos_mod_sign [OF assms(2), of "m_nanoseconds t"] by linarith
  then have x: "?x < k" using assms(2) by simp
  have y: "0 \<le> ?y" "?x + ?y \<le> k" using x by auto
  have k: "k \<le> 1000000000" using assms(2-4) mult_left_mono [of 1 u k] by simp
  have chain: "unit_chain t k u up c =
      (let c = Checked_add i64_type (Checked_add i64_type (Checked_mul i64_type c k) ?x) ?y
       in if ?s < 0 then Checked_sub i64_type c k else c)" for c
    by (simp add: unit_chain_def Checked_post_increment_def add_zero [OF add_in_type] Let_def)
  show ?thesis
  proof (cases "?s \<ge> 0")
    case True
    have "0 \<le> ?s * k" using True assms(3) by simp
    then show ?thesis
      using product_start(1) [OF assms(1) True] product_cases [of "?s * k" ?s k]
        grow_twice [OF \<open>0 \<le> ?s * k\<close> x0 y(1) True, of "Checked_mul i64_type (Checked_of ?s) k"] True
      by (auto simp: chain)
  next
    case False
    then have neg: "(?s + 1) * k \<le> 0" and s: "?s < 0" using assms(3) by (auto simp: mult_le_0_iff)
    have sum: "(?s + 1) * k + ?x + ?y - k = ?s * k + ?x + ?y" by (simp add: algebra_simps)
    have cases: "Checked_mul i64_type (Checked_of (?s + 1)) k = Checked_of ((?s + 1) * k) \<and> i64_min \<le> (?s + 1) * k \<or>
        has_overflow (Checked_mul i64_type (Checked_of (?s + 1)) k) \<and> (?s + 1) * k < i64_min"
      using product_cases [of "(?s + 1) * k" "?s + 1" k] neg by auto
    note last = drop_last [OF neg x0 y k s cases, unfolded sum]
    have "unit_chain t k u up (Checked_of (?s + 1)) =
        Checked_sub i64_type (Checked_add i64_type (Checked_add i64_type
          (Checked_mul i64_type (Checked_of (?s + 1)) k) ?x) ?y) k"
      using s unfolding chain by (simp only: Let_def if_True)
    then show ?thesis using product_start(2) [OF assms(1) s] last by auto
  qed
qed

lemma units_of_time:
  assumes "time_ok t" "0 < u" "k * u = 1000000000"
  shows "time_ns t div u = m_seconds t * k + m_nanoseconds t div u" "time_ns t mod u = m_nanoseconds t mod u"
    "time_ns t \<ge> 0 \<longleftrightarrow> m_seconds t \<ge> 0"
proof -
  have "time_ns t = m_nanoseconds t + m_seconds t * k * u" by (simp add: time_ns_def assms(3) mult.assoc)
  then show "time_ns t div u = m_seconds t * k + m_nanoseconds t div u" "time_ns t mod u = m_nanoseconds t mod u"
    using assms(2) by simp_all
  show "time_ns t \<ge> 0 \<longleftrightarrow> m_seconds t \<ge> 0" using assms(1) by (auto simp: time_ns_def time_ok_def)
qed

lemma unit_conversion:
  assumes "time_ok t" "0 < u" "0 < k" "k * u = 1000000000"
  shows "\<exists>c. starting_seconds t = Inr c \<and>
    saturated t (unit_chain t k u (m_seconds t < 0 \<and> m_nanoseconds t mod u \<noteq> 0) c) =
      Inr (clamp i64_min i64_max (round_to_zero (time_ns t) u))"
    "\<exists>c. starting_seconds t = Inr c \<and>
    saturated t (unit_chain t k u (m_seconds t \<ge> 0 \<and> m_nanoseconds t mod u \<noteq> 0) c) =
      Inr (clamp i64_min i64_max (round_away (time_ns t) u))"
proof -
  note units = units_of_time [OF assms(1,2,4)]
  have "round_to_zero (time_ns t) u = m_seconds t * k + m_nanoseconds t div u +
      (if m_seconds t < 0 \<and> m_nanoseconds t mod u \<noteq> 0 then 1 else 0)"
    by (auto simp: round_to_zero_def ceil_eq [OF assms(2)] units)
  then show "\<exists>c. starting_seconds t = Inr c \<and>
    saturated t (unit_chain t k u (m_seconds t < 0 \<and> m_nanoseconds t mod u \<noteq> 0) c) =
      Inr (clamp i64_min i64_max (round_to_zero (time_ns t) u))"
    using unit_chain_spec [OF assms] by simp
  have "round_away (time_ns t) u = m_seconds t * k + m_nanoseconds t div u +
      (if m_seconds t \<ge> 0 \<and> m_nanoseconds t mod u \<noteq> 0 then 1 else 0)"
    by (auto simp: round_away_def ceil_eq [OF assms(2)] units)
  then show "\<exists>c. starting_seconds t = Inr c \<and>
    saturated t (unit_chain t k u (m_seconds t \<ge> 0 \<and> m_nanoseconds t mod u \<noteq> 0) c) =
      Inr (clamp i64_min i64_max (round_away (time_ns t) u))"
    using unit_chain_spec [OF assms] by simp
qed

lemma conversions_round:
  assumes "time_ok t"
  shows "to_truncated_milliseconds t = Inr (clamp i64_min i64_max (time_ns t sdiv 1000000))"
    "to_truncated_microseconds t = Inr (clamp i64_min i64_max (time_ns t sdiv 1000))"
    "to_milliseconds t = Inr (clamp i64_min i64_max (round_away (time_ns t) 1000000))"
    "to_microseconds t = Inr (clamp i64_min i64_max (round_away (time_ns t) 1000))"
    "to_nanoseconds t = Inr (clamp i64_min i64_max (time_ns t))"
proof -
  have n: "m_nanoseconds t < 1000000000" using assms by (simp add: time_ok_def)
  note unf = unit_chain_def Let_def
  show "to_truncated_milliseconds t = Inr (clamp i64_min i64_max (time_ns t sdiv 1000000))"
    using unit_conversion(1) [OF assms, of 1000000 1000] n
    by (auto simp: to_truncated_milliseconds_def unf simp flip: round_to_zero_sdiv)
  show "to_truncated_microseconds t = Inr (clamp i64_min i64_max (time_ns t sdiv 1000))"
    using unit_conversion(1) [OF assms, of 1000 1000000] n
    by (auto simp: to_truncated_microseconds_def unf simp flip: round_to_zero_sdiv)
  show "to_milliseconds t = Inr (clamp i64_min i64_max (round_away (time_ns t) 1000000))"
    using unit_conversion(2) [OF assms, of 1000000 1000] n by (auto simp: to_milliseconds_def unf)
  show "to_microseconds t = Inr (clamp i64_min i64_max (round_away (time_ns t) 1000))"
    using unit_conversion(2) [OF assms, of 1000 1000000] n by (auto simp: to_microseconds_def unf)
  show "to_nanoseconds t = Inr (clamp i64_min i64_max (time_ns t))"
    using unit_conversion(2) [OF assms, of 1 1000000000] n by (auto simp: to_nanoseconds_def unf round_away_def)
qed

lemma second_conversions_round:
  assumes "time_ok t"
  shows "to_truncated_seconds t = Inr (time_ns t sdiv 1000000000)"
    "to_seconds t = Inr (clamp i64_min i64_max (round_away (time_ns t) 1000000000))"
proof -
  obtain s n where t: "t = Time_of s n" "i64_min \<le> s" "s \<le> i64_max" "0 \<le> n" "n < 1000000000"
    using duration_cases [OF assms] .
  note units = units_of_time [OF assms, of 1000000000 1, simplified]
  have ceil: "(time_ns t + 1000000000 - 1) div 1000000000 = s + (if n = 0 then 0 else 1)"
    using units t ceil_eq [of 1000000000 "time_ns t"] by simp
  show "to_truncated_seconds t = Inr (time_ns t sdiv 1000000000)"
    using units t ceil unfolding round_to_zero_sdiv [of 1000000000, symmetric, simplified]
    by (auto simp: to_truncated_seconds_def round_to_zero_def i64_range)
  show "to_seconds t = Inr (clamp i64_min i64_max (round_away (time_ns t) 1000000000))"
    using units t ceil overflow_i64(1) [of i64_max 1]
    by (cases "s = i64_max") (auto simp: to_seconds_def round_away_def Checked_post_increment_def exact_i64 overflow_i64 clamp_def
        Checked_of_def [of "s + 1"] has_overflow_def Checked_value_def Let_def)
qed

section \<open>Conversions to durations\<close>

lemma sane_mod_floor:
  assumes "in_type i64_type x" "2 \<le> d" "d \<le> 1000000000"
  shows "sane_mod x d = Inr (x div d, x mod d)"
proof -
  have q: "x sdiv d = x div d + (if x < 0 \<and> x mod d \<noteq> 0 then 1 else 0)"
    using round_to_zero_sdiv [of d x] ceil_eq [of d x] assms(2) by (auto simp: round_to_zero_def split: if_splits)
  have r: "x smod d = x - (x sdiv d) * d" by (simp add: minus_sdiv_mult_eq_smod)
  have m: "0 \<le> x mod d" "x mod d < d" using assms(2) by simp_all
  have split: "x - (x div d) * d = x mod d" by (simp add: minus_div_mult_eq_mod)
  have bound: "i64_min \<le> x div d" "x div d \<le> i64_max" if "x < 0"
  proof -
    have "x \<le> x div d" using that assms(2) zdiv_mono2_neg [of x 1 d] by simp
    then show "i64_min \<le> x div d" using assms(1) by (simp add: i64_range)
    show "x div d \<le> i64_max" using that assms(2) div_neg_pos_less0 [of x d] by simp
  qed
  show ?thesis
  proof (cases "x < 0 \<and> x mod d \<noteq> 0")
    case True
    then have "x smod d = x - (x div d) * d - d" unfolding r q by (simp add: algebra_simps)
    then have "x smod d = x mod d - d" unfolding split .
    moreover have "in_type i64_type (x mod d)" "in_type i64_type (x div d)"
      using m assms(3) bound True unfolding i64_range by linarith+
    ultimately show ?thesis using True q m(2) assms(2,3) by (simp add: sane_mod_def Let_def)
  next
    case False
    then have "x sdiv d = x div d" unfolding q by auto
    then have "x smod d = x - (x div d) * d" unfolding r by simp
    then have "x smod d = x mod d" unfolding split .
    moreover have "(x mod d < 0) = False" using m(1) by simp
    ultimately show ?thesis using \<open>x sdiv d = x div d\<close> assms(2,3) by (simp add: sane_mod_def Let_def)
  qed
qed

lemma small_nanoseconds:
  "0 \<le> m \<Longrightarrow> m < 1000000000 \<Longrightarrow> i64_op m = Inr m \<and> wrap_type u32_type m = m"
  by (simp add: wrap_u32 i64_range)

lemma from_units_exact:
  assumes "in_type i64_type x"
  shows "from_nanoseconds x = Inr (Time_of (x div 1000000000) (x mod 1000000000))"
    "from_microseconds x = Inr (Time_of (x div 1000000) (x mod 1000000 * 1000))"
    "from_milliseconds x = Inr (Time_of (x div 1000) (x mod 1000 * 1000000))"
proof -
  show "from_nanoseconds x = Inr (Time_of (x div 1000000000) (x mod 1000000000))"
    using sane_mod_floor [OF assms, of 1000000000] small_nanoseconds [of "x mod 1000000000"]
    by (simp add: from_nanoseconds_def)
  have "0 \<le> x mod 1000000" "x mod 1000000 < 1000000" by simp_all
  then have "i64_op (x mod 1000000 * 1000) = Inr (x mod 1000000 * 1000) \<and>
      wrap_type u32_type (x mod 1000000 * 1000) = x mod 1000000 * 1000" by (intro small_nanoseconds) linarith+
  then show "from_microseconds x = Inr (Time_of (x div 1000000) (x mod 1000000 * 1000))"
    using sane_mod_floor [OF assms, of 1000000] by (simp add: from_microseconds_def)
  have "0 \<le> x mod 1000" "x mod 1000 < 1000" by simp_all
  then have "i64_op (x mod 1000 * 1000000) = Inr (x mod 1000 * 1000000) \<and>
      wrap_type u32_type (x mod 1000 * 1000000) = x mod 1000 * 1000000" by (intro small_nanoseconds) linarith+
  then show "from_milliseconds x = Inr (Time_of (x div 1000) (x mod 1000 * 1000000))"
    using sane_mod_floor [OF assms, of 1000] by (simp add: from_milliseconds_def)
qed

lemma from_half_sanitized_spec:
  assumes "in_type i64_type s" "in_type i32_type e" "0 \<le> n" "n < 1000000000"
  shows "from_half_sanitized s e n = Inr (saturated_time (s + e) n)"
proof -
  have e: "- 0x80000000 \<le> e" "e \<le> 0x7fffffff" using assms(2) by (simp_all add: i32_range)
  have s: "i64_min \<le> s" "s \<le> i64_max" using assms(1) by (simp_all add: i64_range)
  show ?thesis using e s assms(4)
    by (cases "(s \<le> 0 \<and> e > 0) \<or> (s \<ge> 0 \<and> e < 0)")
      (auto simp: from_half_sanitized_def addition_would_overflow_def saturated_time_def i64_range)
qed

lemma from_timespec_saturates:
  assumes "in_type i64_type (tv_sec ts)" "in_type i32_type (tv_nsec ts)"
  shows "\<exists>t. from_timespec ts = Inr t \<and> time_ok t \<and>
    time_ns t = clamp (time_ns Time_min) (time_ns Time_max) (tv_sec ts * 1000000000 + tv_nsec ts)"
proof -
  let ?n = "tv_nsec ts"
  have n: "- 0x80000000 \<le> ?n" "?n \<le> 0x7fffffff" using assms(2) by (simp_all add: i32_range)
  define q r where "q = ?n div 1000000000" and "r = ?n mod 1000000000"
  have r: "0 \<le> r" "r < 1000000000" and qr: "?n = q * 1000000000 + r" by (simp_all add: q_def r_def)
  have q: "- 3 \<le> q" "q \<le> 2" using qr r n by linarith+
  have w: "wrap_type i32_type ?n = ?n" "wrap_type i32_type q = q" "wrap_type i32_type r = r" "wrap_type u32_type r = r"
    using n q r by (simp_all add: wrap_i32 wrap_u32)
  have "sane_mod ?n 1000000000 = Inr (q, r)"
    using n sane_mod_floor [of ?n 1000000000] by (simp add: q_def r_def i64_range)
  then have "from_timespec ts = Inr (saturated_time (tv_sec ts + q) r)"
    using w r q assms(1) by (simp add: from_timespec_def sane_mod32_def from_half_sanitized_spec i32_range)
  then show ?thesis using saturated_time_spec [OF r, of "tv_sec ts + q"] qr by (simp add: algebra_simps)
qed

end
