(* ===== verification/Calendar.thy ===== *)
theory Calendar
  imports Time
begin

text \<open>
  The calendar functions of \<open>base/Time.h\<close> and \<open>base/Time.cpp\<close>. The theorems: the loop over the years
  counts days as the Gregorian calendar does, and the day of the week agrees with that count.
\<close>

section \<open>Calendar\<close>

definition is_leap_year :: "int \<Rightarrow> bool" where
  "is_leap_year year \<longleftrightarrow> year smod 4 = 0 \<and> (year smod 100 \<noteq> 0 \<or> year smod 400 = 0)"

definition days_in_year :: "int \<Rightarrow> int" where
  "days_in_year year = 365 + (if is_leap_year year then 1 else 0)"

definition day_of_year :: "int \<Rightarrow> nat \<Rightarrow> int \<Rightarrow> int res" where
  "day_of_year year month day =
     verify (month \<ge> 1 \<and> month \<le> 12)
       (rbind (vec_at [0, 31, 59, 90, 120, 151, 181, 212, 243, 273, 304, 334] (month - 1)) (\<lambda>days_before.
        rbind (i32_op (days_before + day)) (\<lambda>sum.
        rbind (i32_op (sum - 1)) (\<lambda>day_of_year.
          if is_leap_year year \<and> month \<ge> 3 then i32_op (day_of_year + 1) else Inr day_of_year))))"

definition days_in_month :: "int \<Rightarrow> nat \<Rightarrow> int res" where
  "days_in_month year month =
     verify (month \<ge> 1 \<and> month \<le> 12)
       (if month = 2 then Inr (if is_leap_year year then 29 else 28)
        else let is_long_month = (month = 1 \<or> month = 3 \<or> month = 5 \<or> month = 7 \<or> month = 8 \<or> month = 10 \<or> month = 12)
             in Inr (if is_long_month then 31 else 30))"

definition day_of_week :: "int \<Rightarrow> nat \<Rightarrow> int \<Rightarrow> int res" where
  "day_of_week year month day =
     verify (month \<ge> 1 \<and> month \<le> 12)
       (rbind (if month < 3 then i32_op (year - 1) else Inr year) (\<lambda>year.
        rbind (i32_op (year + year sdiv 4)) (\<lambda>sum.
        rbind (i32_op (sum - year sdiv 100)) (\<lambda>sum.
        rbind (i32_op (sum + year sdiv 400)) (\<lambda>sum.
        rbind (vec_at [0, 3, 2, 5, 0, 3, 5, 1, 4, 6, 2, 4] (month - 1)) (\<lambda>offset.
        rbind (i32_op (sum + offset)) (\<lambda>sum.
        rbind (i32_op (sum + day)) (\<lambda>sum. Inr (wrap_type u32_type (sum smod 7))))))))))"

text \<open>
  \<open>days_in_year\<close> is unsigned, so \<open>days += days_in_year(...)\<close> adds modulo \<open>2 ^ 32\<close> and the sum is
  converted back to \<open>int\<close>.
\<close>

function years_up :: "int \<Rightarrow> int \<Rightarrow> int \<Rightarrow> int" where
  "years_up current_year year days =
     (if current_year < year
      then years_up (current_year + 1) year
             (wrap_type i32_type (wrap_type u32_type (wrap_type u32_type days + days_in_year current_year)))
      else days)"
  by pat_completeness auto
termination by (relation "measure (\<lambda>(current_year, year, days). nat (year - current_year))") auto

function years_down :: "int \<Rightarrow> int \<Rightarrow> int" where
  "years_down current_year days =
     (if current_year < 1970
      then years_down (current_year + 1)
             (wrap_type i32_type (wrap_type u32_type (wrap_type u32_type days - days_in_year current_year)))
      else days)"
  by pat_completeness auto
termination by (relation "measure (\<lambda>(current_year, days). nat (1970 - current_year))") auto

declare years_up.simps [simp del] years_down.simps [simp del]

definition years_to_days_since_epoch :: "int \<Rightarrow> int" where
  "years_to_days_since_epoch year = years_down year (years_up 1970 year 0)"

lemma unsigned_sum:
  assumes "in_type i32_type (x + y)"
  shows "wrap_type i32_type (wrap_type u32_type (wrap_type u32_type x + y)) = x + y"
    "wrap_type i32_type (wrap_type u32_type (wrap_type u32_type x - - y)) = x + y"
proof -
  have "wrap_type i32_type (wrap_type u32_type (wrap_type u32_type x + y)) = wrap_type i32_type (x + y)"
    by (simp add: wrap_type_def i32_type_def u32_type_def numeric_min_def mod_simps)
  also have "\<dots> = x + y" using assms by (intro wrap_id) (simp_all add: i32_type_def)
  finally show "wrap_type i32_type (wrap_type u32_type (wrap_type u32_type x + y)) = x + y"
    "wrap_type i32_type (wrap_type u32_type (wrap_type u32_type x - - y)) = x + y" by simp_all
qed

section \<open>The day of the week\<close>

definition leaps :: "int \<Rightarrow> int" where
  "leaps y = y div 4 - y div 100 + y div 400"

lemma smod_zero: "(x :: int) smod d = 0 \<longleftrightarrow> d dvd x"
  by (cases "x = 0") (simp_all add: smod_int_alt_def sgn_0_0 flip: dvd_eq_mod_eq_0)

lemma is_leap_year_iff: "is_leap_year y \<longleftrightarrow> 4 dvd y \<and> (\<not> 100 dvd y \<or> 400 dvd y)"
  by (simp add: is_leap_year_def smod_zero)

lemma div_pred:
  fixes y d :: int
  assumes "d > 1"
  shows "y div d = (y - 1) div d + (if d dvd y then 1 else 0)"
proof (cases "d dvd y")
  case True
  then obtain q where "y = d * q" by blast
  then show ?thesis using assms div_mult_self1 [of d "- 1" q] by (simp add: div_eq_minus1 mult.commute)
next
  case False
  then have r: "0 < y mod d" "y mod d < d" using assms pos_mod_sign [of d y] by (auto simp: dvd_eq_mod_eq_0 order_le_less)
  have "(y - 1) div d = ((y mod d - 1) + y div d * d) div d" by (simp add: minus_div_mult_eq_mod [symmetric])
  also have "\<dots> = (y mod d - 1) div d + y div d" using assms by simp
  also have "(y mod d - 1) div d = 0" using r by (intro div_pos_pos_trivial) linarith+
  finally show ?thesis using False by simp
qed

lemma leaps_step: "leaps y = leaps (y - 1) + (if is_leap_year y then 1 else 0)"
proof -
  define a b c :: int where "a = (if 4 dvd y then 1 else 0)" and "b = (if 100 dvd y then 1 else 0)"
    and "c = (if 400 dvd y then 1 else 0)"
  have "y div 4 = (y - 1) div 4 + a" "y div 100 = (y - 1) div 100 + b" "y div 400 = (y - 1) div 400 + c"
    unfolding a_def b_def c_def by (rule div_pred, simp)+
  then have "leaps y = leaps (y - 1) + (a - b + c)" unfolding leaps_def by linarith
  moreover have "4 dvd y" if "100 dvd y" using dvd_trans [OF _ that, of 4] by simp
  moreover have "100 dvd y" if "400 dvd y" using dvd_trans [OF _ that, of 100] by simp
  then have "a - b + c = (if is_leap_year y then 1 else 0)"
    using \<open>100 dvd y \<Longrightarrow> 4 dvd y\<close> unfolding is_leap_year_iff a_def b_def c_def
    by (cases "400 dvd y"; cases "100 dvd y"; cases "4 dvd y") simp_all
  ultimately show ?thesis by simp
qed

definition days_before_year :: "int \<Rightarrow> int" where
  "days_before_year y = 365 * (y - 1970) + leaps (y - 1) - leaps 1969"

lemma days_before_year_step: "days_before_year (y + 1) = days_before_year y + days_in_year y"
  using leaps_step [of y] by (simp add: days_before_year_def days_in_year_def algebra_simps)

lemma days_before_year_epoch: "days_before_year 1970 = 0"
  by (simp add: days_before_year_def)

lemma days_before_year_mono: "x \<le> y \<Longrightarrow> days_before_year x \<le> days_before_year y"
proof (induction y rule: int_ge_induct)
  case (step y)
  then show ?case using days_before_year_step [of y] by (simp add: days_in_year_def split: if_splits)
qed simp

lemma years_up_spec:
  assumes "x \<le> y" "in_type i32_type (days_before_year x)" "in_type i32_type (days_before_year y)"
  shows "years_up x y (days_before_year x) = days_before_year y"
  using assms
proof (induction "nat (y - x)" arbitrary: x)
  case 0
  then show ?case by (simp add: years_up.simps [of x])
next
  case (Suc n)
  then have lt: "x < y" by simp
  have "in_type i32_type (days_before_year (x + 1))"
    using Suc.prems lt days_before_year_mono [of x "x + 1"] days_before_year_mono [of "x + 1" y] by (simp add: i32_range)
  then show ?case using Suc.hyps(1) [of "x + 1"] Suc.hyps(2) Suc.prems lt
    using unsigned_sum(1) [of "days_before_year x" "days_in_year x"]
    by (simp add: years_up.simps [of x] days_before_year_step)
qed

lemma years_down_spec:
  assumes "y \<le> 1970" "in_type i32_type (days - days_before_year 1970 + days_before_year y)" "in_type i32_type days"
  shows "years_down y days = days + days_before_year y"
  using assms
proof (induction "nat (1970 - y)" arbitrary: y days)
  case 0
  then have "y = 1970" by simp
  then show ?case using years_down.simps [of 1970 days] by (simp add: days_before_year_epoch)
next
  case (Suc n)
  then have lt: "y < 1970" by simp
  let ?days = "days - days_in_year y"
  have eq: "?days + days_before_year (y + 1) = days + days_before_year y"
    by (simp add: days_before_year_step)
  have "days_before_year (y + 1) \<le> 0"
    using days_before_year_mono [of "y + 1" 1970] lt days_before_year_epoch by simp
  moreover have "0 \<le> days_in_year y" by (simp add: days_in_year_def)
  ultimately have "in_type i32_type ?days"
    using Suc.prems(2,3) eq days_before_year_epoch by (simp add: i32_range)
  then show ?case
    using Suc.hyps(1) [of "y + 1" ?days] Suc.hyps(2) Suc.prems lt eq days_before_year_epoch
      unsigned_sum(2) [of days "- days_in_year y"]
    by (simp add: years_down.simps [of y])
qed

lemma years_to_days_spec:
  assumes "in_type i32_type (days_before_year y)"
  shows "years_to_days_since_epoch y = days_before_year y"
proof (cases "1970 \<le> y")
  case True
  have "in_type i32_type 0" by (simp add: i32_range)
  then have "years_up 1970 y 0 = days_before_year y"
    using years_up_spec [of 1970 y] True assms days_before_year_epoch by simp
  then show ?thesis using True by (simp add: years_to_days_since_epoch_def years_down.simps [of y])
next
  case False
  have "years_up 1970 y 0 = 0" using False by (simp add: years_up.simps [of 1970])
  moreover have "years_down y 0 = days_before_year y"
    using years_down_spec [of y 0] False assms days_before_year_epoch by (simp add: i32_range)
  ultimately show ?thesis by (simp add: years_to_days_since_epoch_def)
qed

lemma days_before_year_bounds:
  assumes "1 \<le> y" "y \<le> 5000000"
  shows "in_type i32_type (days_before_year y)" "0 \<le> leaps (y - 1)" "leaps (y - 1) \<le> y" "0 \<le> leaps y" "leaps y \<le> y"
proof -
  have *: "0 \<le> leaps x" "leaps x \<le> x" if "0 \<le> x" for x
  proof -
    have "x div 100 \<le> x div 4" using that by (intro zdiv_mono2) simp_all
    moreover have "x div 400 \<le> x div 100" using that by (intro zdiv_mono2) simp_all
    moreover have "x div 4 \<le> x" "0 \<le> x div 400" using that by (simp_all add: pos_imp_zdiv_nonneg_iff)
    ultimately show "0 \<le> leaps x" "leaps x \<le> x" unfolding leaps_def by linarith+
  qed
  have l: "leaps 1969 = 477" by (simp add: leaps_def)
  show "0 \<le> leaps (y - 1)" "0 \<le> leaps y" "leaps y \<le> y" using * [of "y - 1"] * [of y] assms(1) by simp_all
  show "leaps (y - 1) \<le> y" using * [of "y - 1"] assms(1) by simp
  then show "in_type i32_type (days_before_year y)"
    using \<open>0 \<le> leaps (y - 1)\<close> assms unfolding i32_range days_before_year_def l by auto
qed

definition month_days :: "int list" where
  "month_days = [0, 31, 59, 90, 120, 151, 181, 212, 243, 273, 304, 334]"

definition month_offsets :: "int list" where
  "month_offsets = [0, 3, 2, 5, 0, 3, 5, 1, 4, 6, 2, 4]"

lemma month_lengths: "length month_days = 12" "length month_offsets = 12"
  by (simp_all add: month_days_def month_offsets_def)

lemma month_cases:
  "1 \<le> m \<Longrightarrow> m \<le> 12 \<Longrightarrow> m = 1 \<or> m = 2 \<or> m = 3 \<or> m = 4 \<or> m = 5 \<or> m = 6 \<or> m = 7 \<or> m = 8 \<or> m = 9 \<or> m = 10 \<or> m = 11 \<or> m = (12 :: nat)"
  by arith

lemma month_tables:
  assumes "1 \<le> m" "m \<le> (12 :: nat)"
  shows "\<exists>j. month_days ! (m - 1) = month_offsets ! (m - 1) + 7 * j + (if m < 3 then 0 else 1)"
    "0 \<le> month_days ! (m - 1)" "month_days ! (m - 1) \<le> 334" "0 \<le> month_offsets ! (m - 1)" "month_offsets ! (m - 1) \<le> 6"
proof -
  have "(month_days ! (m - 1) - month_offsets ! (m - 1) - (if m < 3 then 0 else 1)) mod 7 = 0"
    "0 \<le> month_days ! (m - 1)" "month_days ! (m - 1) \<le> 334" "0 \<le> month_offsets ! (m - 1)" "month_offsets ! (m - 1) \<le> 6"
    using month_cases [OF assms] by (elim disjE; simp add: month_days_def month_offsets_def)+
  then show "\<exists>j. month_days ! (m - 1) = month_offsets ! (m - 1) + 7 * j + (if m < 3 then 0 else 1)"
    "0 \<le> month_days ! (m - 1)" "month_days ! (m - 1) \<le> 334" "0 \<le> month_offsets ! (m - 1)" "month_offsets ! (m - 1) \<le> 6"
    by (auto simp: mod_eq_0_iff_dvd elim!: dvdE) (metis add.commute diff_add_cancel diff_diff_eq2 add.assoc)+
qed

lemma day_of_year_spec:
  assumes "1 \<le> m" "m \<le> 12" "1 \<le> d" "d \<le> 31"
  shows "day_of_year y m d = Inr (month_days ! (m - 1) + d - 1 + (if is_leap_year y \<and> m \<ge> 3 then 1 else 0))"
proof -
  note t = month_tables(2,3) [OF assms(1,2)]
  have "vec_at month_days (m - 1) = Inr (month_days ! (m - 1))" using assms by (intro vec_at_ok) (simp add: month_lengths)
  then show ?thesis using assms t unfolding day_of_year_def month_days_def [symmetric] by (simp add: i32_range)
qed

lemma day_of_week_spec:
  assumes "1 \<le> y" "y \<le> 5000000" "1 \<le> m" "m \<le> 12" "1 \<le> d" "d \<le> 31"
  defines "yy \<equiv> if m < 3 then y - 1 else y"
  shows "day_of_week y m d = Inr ((yy + leaps yy + month_offsets ! (m - 1) + d) mod 7)"
proof -
  note o = month_tables(4,5) [OF assms(3,4)]
  have yy: "0 \<le> yy" "yy \<le> 5000000" "(if m < 3 then i32_op (y - 1) else Inr y) = Inr yy"
    using assms(1,2) by (auto simp: yy_def i32_range)
  have divs: "yy sdiv 4 = yy div 4" "yy sdiv 100 = yy div 100" "yy sdiv 400 = yy div 400"
    using yy(1) by (cases "yy = 0"; simp add: signed_divide_int_def)+
  have b: "0 \<le> yy div 4" "0 \<le> yy div 100" "0 \<le> yy div 400" "yy div 4 \<le> yy" "yy div 100 \<le> yy" "yy div 400 \<le> yy"
    using yy(1) by (simp_all add: pos_imp_zdiv_nonneg_iff)
  have at: "vec_at month_offsets (m - 1) = Inr (month_offsets ! (m - 1))" using assms by (intro vec_at_ok) (simp add: month_lengths)
  define S where "S = yy + yy div 4 - yy div 100 + yy div 400 + month_offsets ! (m - 1) + d"
  have "yy div 100 \<le> yy div 4" using yy(1) by (intro zdiv_mono2) simp_all
  then have S0: "0 \<le> S" using yy(1) b o assms(5) unfolding S_def by linarith
  have ops: "in_type i32_type (yy + yy div 4)" "in_type i32_type (yy + yy div 4 - yy div 100)"
    "in_type i32_type (yy + yy div 4 - yy div 100 + yy div 400)"
    "in_type i32_type (yy + yy div 4 - yy div 100 + yy div 400 + month_offsets ! (m - 1))" "in_type i32_type S"
    using \<open>yy div 100 \<le> yy div 4\<close> yy b o assms(5,6) unfolding i32_range S_def by (intro conjI; linarith)+
  have "S smod 7 = S mod 7" using S0 by (cases "S = 0") (simp_all add: smod_int_alt_def)
  moreover have "0 \<le> S mod 7" "S mod 7 < 7" by simp_all
  then have "wrap_type u32_type (S mod 7) = S mod 7" by (intro wrap_u32) linarith+
  ultimately have "day_of_week y m d = Inr (S mod 7)"
    unfolding day_of_week_def month_offsets_def [symmetric]
    by (simp only: assms(3,4) simp_thms verify_True yy(3) rbind_simps divs signed_op_ok [OF ops(1)]
        signed_op_ok [OF ops(2)] signed_op_ok [OF ops(3)] at signed_op_ok [OF ops(4)]
        signed_op_ok [OF ops(5)] flip: S_def)
  then show ?thesis by (simp add: S_def leaps_def algebra_simps)
qed

lemma weekday_agrees:
  assumes "1 \<le> y" "y \<le> 5000000" "1 \<le> m" "m \<le> 12" "1 \<le> d" "d \<le> 31"
  shows "\<exists>n. years_to_days_since_epoch y = days_before_year y \<and> day_of_year y m d = Inr n \<and>
    day_of_week y m d = Inr ((years_to_days_since_epoch y + n + 4) mod 7)"
proof -
  define t off where "t = month_days ! (m - 1)" and "off = month_offsets ! (m - 1)"
  define leap :: int where "leap = (if is_leap_year y \<and> m \<ge> 3 then 1 else 0)"
  define yy where "yy = (if m < 3 then y - 1 else y)"
  obtain j where j: "t = off + 7 * j + (if m < 3 then 0 else 1)"
    using month_tables(1) [OF assms(3,4)] unfolding t_def off_def by blast
  have l: "leaps (y - 1) + leap = leaps yy" using leaps_step [of y] by (auto simp: leap_def yy_def)
  let ?D = "days_before_year y + (t + d - 1 + leap)"
  have "years_to_days_since_epoch y = days_before_year y" "day_of_year y m d = Inr (t + d - 1 + leap)"
    using years_to_days_spec [OF days_before_year_bounds(1) [OF assms(1,2)]] day_of_year_spec [OF assms(3-6)]
    by (simp_all add: t_def leap_def)
  moreover have "?D + 4 = (yy + leaps yy + off + d) + 7 * (52 * y + j - 102789)"
    using j l by (auto simp: days_before_year_def yy_def leaps_def [of 1969])
  then have "(?D + 4) mod 7 = (yy + leaps yy + off + d) mod 7" by (simp only: mod_mult_self2)
  ultimately show ?thesis using day_of_week_spec [OF assms] by (simp add: yy_def off_def)
qed

end
