(* ===== verification/Simulation.thy ===== *)
theory Simulation
  imports Prelude
begin

text \<open>
  Sequences of operations on a component and on its specification. A step returns its result and the
  next state, or a fault. For a component \<open>None\<close> stands for not returning; for a specification it stands
  for an operation that is outside the contract. The locale \<open>simulation\<close> lifts the laws of single
  steps, faults included, to sequences; the containers that promise to behave like a list interpret it.
\<close>

fun run_sequence :: "('s \<Rightarrow> 'op \<Rightarrow> ('r \<times> 's) res option) \<Rightarrow> 'op list \<Rightarrow> 's \<Rightarrow> ('r list \<times> 's) res option" where
  "run_sequence step [] s = Some (Inr ([], s))"
| "run_sequence step (op # ops) s =
     xbind (step s op) (\<lambda>(r, s). xbind (run_sequence step ops s) (\<lambda>(rs, s). Some (Inr (r # rs, s))))"

locale simulation =
  fixes ok :: "'s \<Rightarrow> bool" and abs :: "'s \<Rightarrow> 'x"
    and step :: "'s \<Rightarrow> 'op \<Rightarrow> ('r \<times> 's) res option" and spec :: "'x \<Rightarrow> 'op \<Rightarrow> ('r \<times> 'x) res option"
  assumes step_law: "ok s \<Longrightarrow> spec (abs s) op = Some (Inr (r, x)) \<Longrightarrow>
      \<exists>s'. step s op = Some (Inr (r, s')) \<and> ok s' \<and> abs s' = x"
    and fault_law: "ok s \<Longrightarrow> spec (abs s) op = Some (Inl e) \<Longrightarrow> step s op = Some (Inl e)"
begin

lemma run_refines:
  "ok s \<Longrightarrow> run_sequence spec ops (abs s) = Some outcome \<Longrightarrow>
   (case outcome of
      Inl e \<Rightarrow> run_sequence step ops s = Some (Inl e)
    | Inr (rs, x) \<Rightarrow> \<exists>s'. run_sequence step ops s = Some (Inr (rs, s')) \<and> ok s' \<and> abs s' = x)"
proof (induction ops arbitrary: s outcome)
  case (Cons op ops)
  consider e where "spec (abs s) op = Some (Inl e)" | r x where "spec (abs s) op = Some (Inr (r, x))"
    using Cons.prems(2) by (cases "spec (abs s) op") (auto, metis sum.exhaust surj_pair)
  then show ?case
  proof cases
    case 1
    then show ?thesis using Cons.prems fault_law by auto
  next
    case 2
    obtain s' where s': "step s op = Some (Inr (r, s'))" "ok s'" "abs s' = x" using step_law [OF Cons.prems(1) 2] by blast
    from Cons.prems(2) 2 s'(3) obtain outcome' where o: "run_sequence spec ops (abs s') = Some outcome'"
        "outcome = (case outcome' of Inl e \<Rightarrow> Inl e | Inr (rs, x) \<Rightarrow> Inr (r # rs, x))"
      by (cases "run_sequence spec ops x") (auto simp: lift_res_def split: sum.splits)
    show ?thesis using Cons.IH [OF s'(2) o(1)] o(2) s'(1) by (auto split: sum.splits)
  qed
qed auto

end

end
