(* ===== verification/Circular_Queue.thy ===== *)
theory Circular_Queue
  imports Simulation
begin

text \<open>
  \<open>base/CircularQueue.h\<close> and \<open>base/CircularDeque.h\<close>: a ring of \<open>Capacity\<close> slots. A slot is \<open>None\<close>
  while no object lives in it; using such a slot as an object is a fault. The queue keeps the last
  \<open>Capacity\<close> values put in it: the contracts are the locales \<open>bounded_queue\<close> and \<open>bounded_deque\<close>, and
  for sequences of all operations \<open>simulation\<close> with lists; the ring is an instance of each.
\<close>

section \<open>The ring\<close>

record 'a ring =
  elements :: "'a option list"
  ring_size :: nat
  ring_head :: nat

definition ring_capacity :: "'a ring \<Rightarrow> nat" where
  "ring_capacity q = length (elements q)"

definition CircularQueue_create :: "nat \<Rightarrow> 'a ring" where
  "CircularQueue_create capacity = \<lparr>elements = replicate capacity None, ring_size = 0, ring_head = 0\<rparr>"

text \<open>The destructor call on a slot, a placement \<open>new\<close> in it, and a read of the object in it.\<close>

definition destroy_slot :: "'a option list \<Rightarrow> nat \<Rightarrow> 'a option list res" where
  "destroy_slot es i =
     rbind (read_at es i) (\<lambda>slot. if slot = None then Inl Undefined_Behaviour else write_at es i None)"

definition construct_slot :: "'a option list \<Rightarrow> nat \<Rightarrow> 'a \<Rightarrow> 'a option list res" where
  "construct_slot es i v = write_at es i (Some v)"

definition object_at :: "'a option list \<Rightarrow> nat \<Rightarrow> 'a res" where
  "object_at es i =
     rbind (read_at es i) (\<lambda>slot. case slot of None \<Rightarrow> Inl Undefined_Behaviour | Some v \<Rightarrow> Inr v)"

definition ring_index :: "'a ring \<Rightarrow> nat \<Rightarrow> nat" where
  "ring_index q i = usz (ring_head q + i) mod ring_capacity q"

fun clear_loop :: "'a ring \<Rightarrow> nat list \<Rightarrow> 'a ring res" where
  "clear_loop q [] = Inr q"
| "clear_loop q (i # is) =
     rbind (destroy_slot (elements q) (ring_index q i)) (\<lambda>es. clear_loop (q\<lparr>elements := es\<rparr>) is)"

definition CircularQueue_clear :: "'a ring \<Rightarrow> 'a ring res" where
  "CircularQueue_clear q =
     rbind (clear_loop q [0..<ring_size q]) (\<lambda>q. Inr (q\<lparr>ring_head := 0, ring_size := 0\<rparr>))"

definition CircularQueue_is_empty :: "'a ring \<Rightarrow> bool" where
  "CircularQueue_is_empty q \<longleftrightarrow> ring_size q = 0"

definition CircularQueue_enqueue :: "'a ring \<Rightarrow> 'a \<Rightarrow> 'a ring res" where
  "CircularQueue_enqueue q v =
     (let slot = ring_index q (ring_size q) in
      rbind (if ring_size q = ring_capacity q then destroy_slot (elements q) slot else Inr (elements q)) (\<lambda>es.
      rbind (construct_slot es slot v) (\<lambda>es.
        Inr (if ring_size q = ring_capacity q
             then q\<lparr>elements := es, ring_head := usz (ring_head q + 1) mod ring_capacity q\<rparr>
             else q\<lparr>elements := es, ring_size := ring_size q + 1\<rparr>))))"

definition CircularQueue_dequeue :: "'a ring \<Rightarrow> ('a \<times> 'a ring) res" where
  "CircularQueue_dequeue q =
     verify (\<not> CircularQueue_is_empty q)
       (rbind (object_at (elements q) (ring_head q)) (\<lambda>v.
        rbind (destroy_slot (elements q) (ring_head q)) (\<lambda>es.
          Inr (v, q\<lparr>elements := es, ring_head := usz (ring_head q + 1) mod ring_capacity q,
                    ring_size := ring_size q - 1\<rparr>))))"

definition CircularQueue_at :: "'a ring \<Rightarrow> nat \<Rightarrow> 'a res" where
  "CircularQueue_at q index = object_at (elements q) (ring_index q index)"

definition CircularQueue_first :: "'a ring \<Rightarrow> 'a res" where
  "CircularQueue_first q = CircularQueue_at q 0"

definition CircularQueue_last :: "'a ring \<Rightarrow> 'a res" where
  "CircularQueue_last q = CircularQueue_at q (usub (ring_size q) 1)"

definition CircularQueue_head_index :: "'a ring \<Rightarrow> nat" where
  "CircularQueue_head_index q = ring_head q"

text \<open>The iterator, and the loop \<open>for (auto& v : queue)\<close> over it.\<close>

definition ConstIterator_increment :: "'a ring \<Rightarrow> nat \<Rightarrow> nat" where
  "ConstIterator_increment q index =
     (let index = usz (index + 1) mod ring_capacity q
      in if index = ring_head q then ring_size q else index)"

definition CircularQueue_begin :: "'a ring \<Rightarrow> nat" where
  "CircularQueue_begin q = ring_head q"

definition CircularQueue_end :: "'a ring \<Rightarrow> nat" where
  "CircularQueue_end q = ring_size q"

partial_function (option) iterate_from :: "'a ring \<Rightarrow> nat \<Rightarrow> 'a list res option" where
  "iterate_from q index =
     (if index = CircularQueue_end q then Some (Inr [])
      else lift_res (object_at (elements q) index) (\<lambda>v.
           xbind (iterate_from q (ConstIterator_increment q index)) (\<lambda>vs. Some (Inr (v # vs)))))"

definition CircularQueue_iterate :: "'a ring \<Rightarrow> 'a list res option" where
  "CircularQueue_iterate q = iterate_from q (CircularQueue_begin q)"

section \<open>The deque\<close>

definition CircularDeque_enqueue_begin :: "'a ring \<Rightarrow> 'a \<Rightarrow> 'a ring res" where
  "CircularDeque_enqueue_begin q v =
     (let new_head = usz (usub (ring_head q) 1 + ring_capacity q) mod ring_capacity q in
      rbind (if ring_size q = ring_capacity q
             then rbind (destroy_slot (elements q) new_head) (\<lambda>es. Inr (es, ring_size q))
             else Inr (elements q, ring_size q + 1)) (\<lambda>(es, size).
      rbind (construct_slot es new_head v) (\<lambda>es.
        Inr (q\<lparr>elements := es, ring_size := size, ring_head := new_head\<rparr>))))"

definition CircularDeque_dequeue_end :: "'a ring \<Rightarrow> ('a \<times> 'a ring) res" where
  "CircularDeque_dequeue_end q =
     verify (\<not> CircularQueue_is_empty q)
       (let slot = usub (usz (ring_head q + ring_size q)) 1 mod ring_capacity q in
        rbind (object_at (elements q) slot) (\<lambda>v.
        rbind (destroy_slot (elements q) slot) (\<lambda>es.
          Inr (v, q\<lparr>elements := es, ring_size := ring_size q - 1\<rparr>))))"

section \<open>Contents\<close>

definition ring_ok :: "'a ring \<Rightarrow> bool" where
  "ring_ok q \<longleftrightarrow> 0 < ring_capacity q \<and> ring_capacity q < 2 ^ 31 \<and> ring_head q < ring_capacity q \<and>
     ring_size q \<le> ring_capacity q \<and>
     (\<forall>i<ring_capacity q. elements q ! ((ring_head q + i) mod ring_capacity q) \<noteq> None \<longleftrightarrow> i < ring_size q)"

definition contents :: "'a ring \<Rightarrow> 'a list" where
  "contents q = map (\<lambda>i. the (elements q ! ((ring_head q + i) mod ring_capacity q))) [0..<ring_size q]"

lemma length_contents [simp]: "length (contents q) = ring_size q"
  by (simp add: contents_def)

lemma ring_okD:
  assumes "ring_ok q"
  shows "0 < ring_capacity q" "ring_capacity q < 2 ^ 31" "ring_head q < ring_capacity q" "ring_size q \<le> ring_capacity q"
    "i < ring_size q \<Longrightarrow> elements q ! ((ring_head q + i) mod ring_capacity q) = Some (contents q ! i)"
    "ring_size q \<le> i \<Longrightarrow> i < ring_capacity q \<Longrightarrow> elements q ! ((ring_head q + i) mod ring_capacity q) = None"
  using assms by (auto simp: ring_ok_def contents_def)

lemma ring_slot:
  assumes "ring_ok q" "i < ring_capacity q"
  shows "elements q ! ((ring_head q + i) mod ring_capacity q) = (if i < ring_size q then Some (contents q ! i) else None)"
  using ring_okD(5,6) [OF assms(1), of i] assms(2) by simp

lemma ring_index_ok: "ring_ok q \<Longrightarrow> i \<le> ring_capacity q \<Longrightarrow> ring_index q i = (ring_head q + i) mod ring_capacity q"
  using ring_okD(1-4) [of q] by (simp add: ring_index_def usz_small)

lemma mod_inj:
  fixes i j h C :: nat
  assumes "i < C" "j < C" "(h + i) mod C = (h + j) mod C"
  shows "i = j"
proof -
  have "i = j" if "i \<le> j" "j < C" "(h + i) mod C = (h + j) mod C" for i j
  proof -
    have "C dvd j - i" using that(3) mod_eq_dvd_iff_nat [of "h + i" "h + j" C] that(1) by simp
    then show ?thesis using that(1,2) by (cases "j - i = 0") (auto dest: dvd_imp_le)
  qed
  then show ?thesis using assms by (metis nat_le_linear)
qed

text \<open>Two ways to state a ring: by its fields, or by the objects from the head on.\<close>

lemma ring_contentsI:
  assumes "0 < ring_capacity q" "ring_capacity q < 2 ^ 31" "ring_head q < ring_capacity q" "ring_size q = length vs"
    "length vs \<le> ring_capacity q"
    "\<And>i. i < ring_capacity q \<Longrightarrow>
       elements q ! ((ring_head q + i) mod ring_capacity q) = (if i < length vs then Some (vs ! i) else None)"
  shows "ring_ok q" "contents q = vs"
  using assms by (auto simp: ring_ok_def contents_def intro!: nth_equalityI)

lemma slot_less [simp]: "ring_ok q \<Longrightarrow> (k :: nat) mod ring_capacity q < length (elements q)"
  using ring_okD(1) [of q] by (simp add: ring_capacity_def)

lemma capacity_update [simp]:
  "ring_capacity (q\<lparr>elements := es\<rparr>) = length es" "ring_capacity (q\<lparr>ring_head := h\<rparr>) = ring_capacity q"
  "ring_capacity (q\<lparr>ring_size := n\<rparr>) = ring_capacity q"
  by (simp_all add: ring_capacity_def)

lemma capacity_length: "length (elements q) = ring_capacity q"
  by (simp add: ring_capacity_def)

lemma object_ok: "i < length es \<Longrightarrow> es ! i = Some v \<Longrightarrow> object_at es i = Inr v"
  by (simp add: object_at_def read_at_def)

lemma destroy_ok: "i < length es \<Longrightarrow> es ! i = Some v \<Longrightarrow> destroy_slot es i = Inr (es[i := None])"
  by (simp add: destroy_slot_def read_at_def write_at_def)

lemma construct_ok: "i < length es \<Longrightarrow> construct_slot es i v = Inr (es[i := Some v])"
  by (simp add: construct_slot_def write_at_def)

lemma enqueue_full:
  assumes ok: "ring_ok q" and full: "ring_size q = ring_capacity q"
  shows "\<exists>q'. CircularQueue_enqueue q v = Inr q' \<and> ring_ok q' \<and> ring_capacity q' = ring_capacity q \<and>
    contents q' = tl (contents q) @ [v]"
proof -
  let ?C = "ring_capacity q" and ?h = "ring_head q" and ?es = "elements q"
  note d = ring_okD [OF ok]
  let ?q = "q\<lparr>elements := ?es[?h := Some v], ring_head := (?h + 1) mod ?C\<rparr>"
  have h: "(?h + ?C) mod ?C = ?h" using d(3) by simp
  have old: "?es ! ?h = Some (contents q ! 0)" using d(5) [of 0] d(1,3) full by simp
  have "ring_index q ?C = ?h" using ring_index_ok [OF ok, of ?C] h by simp
  then have run: "CircularQueue_enqueue q v = Inr ?q"
    using full d(1-3) old by (simp add: CircularQueue_enqueue_def destroy_ok construct_ok capacity_length Let_def)
  have new: "elements ?q ! ((ring_head ?q + i) mod ring_capacity ?q) = Some ((tl (contents q) @ [v]) ! i)" if "i < ?C" for i
  proof -
    have pos: "((?h + 1) mod ?C + i) mod ?C = (?h + (i + 1)) mod ?C" by (simp add: mod_add_left_eq)
    show ?thesis
    proof (cases "i + 1 = ?C")
      case True
      then have "\<not> i < ?C - 1" "i - (?C - 1) = 0" by simp_all
      then show ?thesis using True pos h d(3) full by (simp add: capacity_length nth_append)
    next
      case False
      then have "(?h + (i + 1)) mod ?C \<noteq> (?h + 0) mod ?C" using mod_inj [of "i + 1" ?C 0 ?h] that by auto
      then have "?es[?h := Some v] ! ((?h + (i + 1)) mod ?C) = Some (contents q ! (i + 1))"
        using d(3) d(5) [of "i + 1"] False that full by simp
      moreover have "i < ?C - 1" using False that by simp
      ultimately show ?thesis using pos full by (simp add: capacity_length nth_append nth_tl)
    qed
  qed
  have "ring_ok ?q \<and> contents ?q = tl (contents q) @ [v]"
    using ring_contentsI [of ?q "tl (contents q) @ [v]"] new d(1,2) full by (simp add: capacity_length)
  then show ?thesis using run by (simp add: capacity_length)
qed

lemma enqueue_room:
  assumes ok: "ring_ok q" and room: "ring_size q < ring_capacity q"
  shows "\<exists>q'. CircularQueue_enqueue q v = Inr q' \<and> ring_ok q' \<and> ring_capacity q' = ring_capacity q \<and>
    contents q' = contents q @ [v]"
proof -
  let ?C = "ring_capacity q" and ?h = "ring_head q" and ?s = "ring_size q" and ?es = "elements q"
  note d = ring_okD [OF ok]
  let ?k = "(?h + ?s) mod ?C"
  let ?q = "q\<lparr>elements := ?es[?k := Some v], ring_size := ?s + 1\<rparr>"
  have run: "CircularQueue_enqueue q v = Inr ?q"
    using room ok ring_index_ok [OF ok d(4)] by (simp add: CircularQueue_enqueue_def construct_ok Let_def)
  have new: "elements ?q ! ((ring_head ?q + i) mod ring_capacity ?q) =
      (if i < ?s + 1 then Some ((contents q @ [v]) ! i) else None)" if "i < ?C" for i
  proof (cases "i = ?s")
    case True
    then show ?thesis using d(1) by (simp add: capacity_length nth_append)
  next
    case False
    then have "?k \<noteq> (?h + i) mod ?C" using mod_inj [of ?s ?C i ?h] that room by auto
    then show ?thesis using ring_slot [OF ok that] False by (simp add: capacity_length nth_append)
  qed
  have "ring_ok ?q \<and> contents ?q = contents q @ [v]"
    using ring_contentsI [of ?q "contents q @ [v]"] new d(1-3) room by (simp add: capacity_length)
  then show ?thesis using run by (simp add: capacity_length)
qed

lemma enqueue_spec:
  assumes "ring_ok q"
  shows "\<exists>q'. CircularQueue_enqueue q v = Inr q' \<and> ring_ok q' \<and> ring_capacity q' = ring_capacity q \<and>
    contents q' = (if length (contents q) < ring_capacity q then contents q else tl (contents q)) @ [v]"
  using enqueue_full [OF assms, of v] enqueue_room [OF assms, of v] ring_okD(4) [OF assms]
  by (cases "ring_size q < ring_capacity q") auto

lemma dequeue_spec:
  assumes ok: "ring_ok q" and ne: "contents q \<noteq> []"
  shows "\<exists>q'. CircularQueue_dequeue q = Inr (hd (contents q), q') \<and> ring_ok q' \<and>
    ring_capacity q' = ring_capacity q \<and> contents q' = tl (contents q)"
proof -
  let ?C = "ring_capacity q" and ?h = "ring_head q" and ?s = "ring_size q" and ?es = "elements q"
  note d = ring_okD [OF ok]
  let ?q = "q\<lparr>elements := ?es[?h := None], ring_head := (?h + 1) mod ?C, ring_size := ?s - 1\<rparr>"
  have s: "0 < ?s" using ne by (metis length_contents length_greater_0_conv)
  have old: "?es ! ?h = Some (hd (contents q))" using d(5) [of 0] d(3) s ne by (simp add: hd_conv_nth)
  have run: "CircularQueue_dequeue q = Inr (hd (contents q), ?q)"
    using s d(1-3) old
    by (simp add: CircularQueue_dequeue_def CircularQueue_is_empty_def object_ok destroy_ok capacity_length)
  have new: "elements ?q ! ((ring_head ?q + i) mod ring_capacity ?q) =
      (if i < ?s - 1 then Some (tl (contents q) ! i) else None)" if "i < ?C" for i
  proof (cases "i + 1 = ?C")
    case True
    then have "((?h + 1) mod ?C + i) mod ?C = ?h" using d(3) by (simp add: mod_add_left_eq) (metis Suc_eq_plus1 add_Suc_right mod_add_self2 mod_less)
    then show ?thesis using d(3,4) True by (simp add: capacity_length)
  next
    case False
    have pos: "((?h + 1) mod ?C + i) mod ?C = (?h + (i + 1)) mod ?C" by (simp add: mod_add_left_eq)
    have "(?h + (i + 1)) mod ?C \<noteq> (?h + 0) mod ?C" using mod_inj [of "i + 1" ?C 0 ?h] that False d(1) by auto
    then have "?es[?h := None] ! ((?h + (i + 1)) mod ?C) = (if i + 1 < ?s then Some (contents q ! (i + 1)) else None)"
      using d(3) ring_slot [OF ok, of "i + 1"] that False by simp
    then show ?thesis using pos by (simp add: capacity_length nth_tl less_diff_conv)
  qed
  have "ring_ok ?q \<and> contents ?q = tl (contents q)"
    using ring_contentsI [of ?q "tl (contents q)"] new d(1,2,4) by (simp add: capacity_length)
  then show ?thesis using run by (simp add: capacity_length)
qed

lemma head_before:
  assumes "ring_ok q"
  defines "h' \<equiv> usz (usub (ring_head q) 1 + ring_capacity q) mod ring_capacity q"
  shows "h' < ring_capacity q" "(h' + (i + 1)) mod ring_capacity q = (ring_head q + i) mod ring_capacity q"
proof -
  let ?C = "ring_capacity q" and ?h = "ring_head q"
  note d = ring_okD [OF assms(1)]
  have "usz (usub ?h 1 + ?C) = ?h + ?C - 1"
  proof (cases "?h = 0")
    case True
    have "usub 0 1 = 2 ^ 32 - 1" by (simp add: usub_def usz_def)
    then show ?thesis using True d(1,2) by (simp add: usz_def mod_if)
  next
    case False
    then show ?thesis using d by simp
  qed
  then have h': "h' = (?h + ?C - 1) mod ?C" by (simp add: h'_def)
  then show "h' < ?C" using d(1) by simp
  have "(h' + (i + 1)) mod ?C = (?h + ?C - 1 + (i + 1)) mod ?C" unfolding h' by (rule mod_add_left_eq)
  also have "?h + ?C - 1 + (i + 1) = ?h + i + ?C" using d(1) by simp
  finally show "(h' + (i + 1)) mod ?C = (?h + i) mod ?C" by simp
qed

lemma enqueue_begin_spec:
  assumes ok: "ring_ok q"
  shows "\<exists>q'. CircularDeque_enqueue_begin q v = Inr q' \<and> ring_ok q' \<and> ring_capacity q' = ring_capacity q \<and>
    contents q' = v # (if length (contents q) < ring_capacity q then contents q else butlast (contents q))"
proof -
  let ?C = "ring_capacity q" and ?s = "ring_size q" and ?es = "elements q"
  note d = ring_okD [OF ok]
  define h' where "h' = usz (usub (ring_head q) 1 + ?C) mod ?C"
  note h' = head_before [OF ok, folded h'_def]
  define vs where "vs = v # (if ?s < ?C then contents q else butlast (contents q))"
  have len: "length vs = (if ?s < ?C then ?s + 1 else ?C)" using d(1,4) by (simp add: vs_def)
  let ?q = "q\<lparr>elements := ?es[h' := Some v], ring_size := length vs, ring_head := h'\<rparr>"
  have run: "CircularDeque_enqueue_begin q v = Inr ?q"
  proof (cases "?s < ?C")
    case True
    then show ?thesis using h'(1) len unfolding CircularDeque_enqueue_begin_def Let_def h'_def [symmetric]
      by (simp add: construct_ok capacity_length)
  next
    case False
    have "h' = (ring_head q + (?C - 1)) mod ?C" using h'(2) [of "?C - 1"] h'(1) d(1) by simp
    then have "?es ! h' = Some (contents q ! (?C - 1))" using d(5) [of "?C - 1"] d(1,4) False by simp
    then show ?thesis using h'(1) len False d(4) unfolding CircularDeque_enqueue_begin_def Let_def h'_def [symmetric]
      by (simp add: destroy_ok construct_ok capacity_length)
  qed
  have new: "elements ?q ! ((ring_head ?q + i) mod ring_capacity ?q) = (if i < length vs then Some (vs ! i) else None)"
    if i: "i < ?C" for i
  proof (cases i)
    case 0
    then show ?thesis using h'(1) by (simp add: capacity_length vs_def)
  next
    case (Suc j)
    have "(h' + (j + 1)) mod ?C \<noteq> (h' + 0) mod ?C" using mod_inj [of "j + 1" ?C 0 h'] i Suc d(1) by (metis Suc_eq_plus1 nat.distinct(1))
    then have ne: "(ring_head q + j) mod ?C \<noteq> h'" using h' by simp
    have "i < length vs \<longleftrightarrow> j < ?s" using len Suc i d(4) by auto
    moreover have "vs ! i = contents q ! j" if "j < ?s" using Suc that i d(4) by (auto simp: vs_def nth_butlast)
    ultimately show ?thesis using Suc i h'(2) [of j] ne ring_slot [OF ok, of j] by (simp add: capacity_length)
  qed
  have "ring_ok ?q \<and> contents ?q = vs"
    using ring_contentsI [of ?q vs] new d(1,2,4) h'(1) len by (simp add: capacity_length split: if_splits)
  then show ?thesis using run d(4) by (simp add: capacity_length vs_def)
qed

lemma dequeue_end_spec:
  assumes ok: "ring_ok q" and ne: "contents q \<noteq> []"
  shows "\<exists>q'. CircularDeque_dequeue_end q = Inr (last (contents q), q') \<and> ring_ok q' \<and>
    ring_capacity q' = ring_capacity q \<and> contents q' = butlast (contents q)"
proof -
  let ?C = "ring_capacity q" and ?h = "ring_head q" and ?s = "ring_size q" and ?es = "elements q"
  note d = ring_okD [OF ok]
  have s: "0 < ?s" using ne by (metis length_contents length_greater_0_conv)
  let ?k = "(?h + (?s - 1)) mod ?C"
  let ?q = "q\<lparr>elements := ?es[?k := None], ring_size := ?s - 1\<rparr>"
  have slot: "usub (usz (?h + ?s)) 1 mod ?C = ?k" using d(1-4) s by simp
  have old: "?es ! ?k = Some (last (contents q))" using d(5) [of "?s - 1"] s ne by (simp add: last_conv_nth)
  have run: "CircularDeque_dequeue_end q = Inr (last (contents q), ?q)"
    using s slot_less [OF ok, of "?h + (?s - 1)"] old object_ok [of ?k ?es] destroy_ok [of ?k ?es]
    unfolding CircularDeque_dequeue_end_def Let_def slot CircularQueue_is_empty_def by simp
  have new: "elements ?q ! ((ring_head ?q + i) mod ring_capacity ?q) =
      (if i < ?s - 1 then Some (butlast (contents q) ! i) else None)" if "i < ?C" for i
  proof (cases "i = ?s - 1")
    case True
    then show ?thesis using slot_less [OF ok] by (simp add: capacity_length)
  next
    case False
    have "?s - 1 < ?C" using s d(4) by simp
    then have "?k \<noteq> (?h + i) mod ?C" using mod_inj [of "?s - 1" ?C i ?h] that False by auto
    then show ?thesis using ring_slot [OF ok that] False s by (auto simp: capacity_length nth_butlast)
  qed
  have "ring_ok ?q \<and> contents ?q = butlast (contents q)"
    using ring_contentsI [of ?q "butlast (contents q)"] new d(1-4) by (simp add: capacity_length)
  then show ?thesis using run by (simp add: capacity_length)
qed

lemma at_spec: "ring_ok q \<Longrightarrow> i < length (contents q) \<Longrightarrow> CircularQueue_at q i = Inr (contents q ! i)"
  using ring_okD(4) [of q] ring_okD(5) [of q i] by (simp add: CircularQueue_at_def ring_index_ok object_ok)

lemma object_dead: "i < length es \<Longrightarrow> es ! i = None \<Longrightarrow> object_at es i = Inl Undefined_Behaviour"
  by (simp add: object_at_def read_at_def)

lemma at_dead:
  "ring_ok q \<Longrightarrow> length (contents q) \<le> i \<Longrightarrow> i < ring_capacity q \<Longrightarrow> CircularQueue_at q i = Inl Undefined_Behaviour"
  using ring_okD(6) [of q i] by (simp add: CircularQueue_at_def ring_index_ok object_dead)

text \<open>Every slot is some number of places after the head; so in an empty ring every slot is free.\<close>

lemma slot_offset:
  fixes k h C :: nat
  assumes "k < C" "h < C"
  obtains i where "i < C" "k = (h + i) mod C"
proof (cases "h \<le> k")
  case True
  then show ?thesis using that [of "k - h"] assms by simp
next
  case False
  then have "(h + (k + C - h)) mod C = k" using assms by simp
  then show ?thesis using that [of "k + C - h"] assms False by simp
qed

lemma at_empty:
  assumes "ring_ok q" "contents q = []"
  shows "CircularQueue_at q i = Inl Undefined_Behaviour"
proof -
  note d = ring_okD [OF assms(1)]
  have "ring_size q = 0" using assms(2) length_contents [of q] by simp
  moreover obtain j where "j < ring_capacity q" "ring_index q i = (ring_head q + j) mod ring_capacity q"
    using slot_offset [of "ring_index q i" "ring_capacity q" "ring_head q"] d(1,3) by (auto simp: ring_index_def)
  ultimately show ?thesis using d(6) [of j] assms(1) by (simp add: CircularQueue_at_def object_dead)
qed

lemma first_spec:
  "ring_ok q \<Longrightarrow> CircularQueue_first q = (if contents q = [] then Inl Undefined_Behaviour else Inr (hd (contents q)))"
  using at_empty [of q 0] at_spec [of q 0]
  by (auto simp: CircularQueue_first_def hd_conv_nth simp flip: length_greater_0_conv simp del: length_contents)

lemma last_spec:
  assumes "ring_ok q"
  shows "CircularQueue_last q = (if contents q = [] then Inl Undefined_Behaviour else Inr (last (contents q)))"
proof (cases "contents q = []")
  case True
  then show ?thesis using at_empty [OF assms] by (simp add: CircularQueue_last_def)
next
  case False
  then have s: "0 < ring_size q" by (metis length_contents length_greater_0_conv)
  then have "usub (ring_size q) 1 = ring_size q - 1" using ring_okD(2,4) [OF assms] by simp
  then show ?thesis using at_spec [OF assms, of "ring_size q - 1"] False s
    by (simp add: CircularQueue_last_def last_conv_nth)
qed

lemma clear_loop_spec:
  assumes "0 < ring_capacity q" "ring_capacity q < 2 ^ 31" "ring_head q < ring_capacity q" "n \<le> ring_capacity q" "j \<le> n"
    "\<And>i. i < ring_capacity q \<Longrightarrow> elements q ! ((ring_head q + i) mod ring_capacity q) \<noteq> None \<longleftrightarrow> j \<le> i \<and> i < n"
  shows "clear_loop q [j..<n] = Inr (q\<lparr>elements := replicate (ring_capacity q) None\<rparr>)"
  using assms
proof (induction "n - j" arbitrary: j q)
  case 0
  have "elements q ! k = None" if k: "k < ring_capacity q" for k
  proof -
    obtain i where i: "i < ring_capacity q" "k = (ring_head q + i) mod ring_capacity q"
      using slot_offset [OF k "0.prems"(3)] .
    show ?thesis using "0.prems"(6) [OF i(1)] "0.hyps" unfolding i(2) by auto
  qed
  then have "elements q = replicate (ring_capacity q) None"
    by (intro nth_equalityI) (simp_all add: ring_capacity_def)
  then have "q\<lparr>elements := replicate (ring_capacity q) None\<rparr> = q" by (cases q) (simp add: ring_capacity_def)
  then show ?case using "0.hyps" "0.prems"(5) by simp
next
  case (Suc m)
  let ?C = "ring_capacity q" and ?h = "ring_head q"
  let ?k = "(?h + j) mod ?C"
  let ?q = "q\<lparr>elements := (elements q)[?k := None]\<rparr>"
  have j: "j < n" using Suc.hyps(2) by simp
  have k: "?k < length (elements q)" using Suc.prems(1) by (simp add: ring_capacity_def)
  obtain v where v: "elements q ! ?k = Some v" using Suc.prems(6) [of j] j Suc.prems(4) by auto
  have "ring_index q j = ?k" using Suc.prems(2-4) j by (simp add: ring_index_def usz_small)
  then have step: "clear_loop q (j # [Suc j..<n]) = clear_loop ?q [Suc j..<n]"
    using destroy_ok [OF k v] by simp
  have live: "elements ?q ! ((?h + i) mod ?C) \<noteq> None \<longleftrightarrow> Suc j \<le> i \<and> i < n" if "i < ?C" for i
  proof (cases "i = j")
    case False
    then have "?k \<noteq> (?h + i) mod ?C" using mod_inj [of j ?C i ?h] that j Suc.prems(4) by auto
    then show ?thesis using Suc.prems(6) [OF that] False by auto
  qed (use k in simp)
  have "clear_loop ?q [Suc j..<n] = Inr (?q\<lparr>elements := replicate (ring_capacity ?q) None\<rparr>)"
    using Suc.hyps(1) [of "Suc j" ?q] Suc.hyps(2) Suc.prems(1-5) j live by (simp add: capacity_length)
  then show ?case using step j by (simp add: upt_conv_Cons capacity_length)
qed

lemma clear_spec:
  assumes "ring_ok q"
  shows "\<exists>q'. CircularQueue_clear q = Inr q' \<and> ring_ok q' \<and> ring_capacity q' = ring_capacity q \<and> contents q' = []"
proof -
  let ?q = "q\<lparr>elements := replicate (ring_capacity q) None, ring_head := 0, ring_size := 0\<rparr>"
  have "clear_loop q [0..<ring_size q] = Inr (q\<lparr>elements := replicate (ring_capacity q) None\<rparr>)"
    using assms by (intro clear_loop_spec) (auto simp: ring_ok_def)
  then have "CircularQueue_clear q = Inr ?q" by (simp add: CircularQueue_clear_def)
  moreover have "ring_ok ?q \<and> contents ?q = []"
    using ring_contentsI [of ?q "[]"] ring_okD(1,2) [OF assms] by simp
  ultimately show ?thesis by auto
qed

lemma create_ring:
  assumes "0 < n" "n < 2 ^ 31"
  shows "ring_ok (CircularQueue_create n)" "contents (CircularQueue_create n) = []" "ring_capacity (CircularQueue_create n) = n"
  using assms by (simp_all add: ring_ok_def contents_def CircularQueue_create_def ring_capacity_def)

section \<open>The contract\<close>

text \<open>
  A queue of bounded capacity keeps the latest values: the oldest makes room for a new one. Taking
  from an empty one fails its check.
\<close>

fun enq_all :: "('q \<Rightarrow> 'a \<Rightarrow> 'q res) \<Rightarrow> 'a list \<Rightarrow> 'q \<Rightarrow> 'q res" where
  "enq_all enq [] q = Inr q"
| "enq_all enq (v # vs) q = rbind (enq q v) (enq_all enq vs)"

lemma rev_butlast: "rev (butlast xs) = tl (rev xs)"
  by (cases xs rule: rev_cases) simp_all

locale bounded_queue =
  fixes ok :: "'q \<Rightarrow> bool" and abs :: "'q \<Rightarrow> 'a list" and cap :: "'q \<Rightarrow> nat"
    and enq :: "'q \<Rightarrow> 'a \<Rightarrow> 'q res" and deq :: "'q \<Rightarrow> ('a \<times> 'q) res"
  assumes bounded: "ok q \<Longrightarrow> length (abs q) \<le> cap q"
    and enq_law: "ok q \<Longrightarrow> \<exists>q'. enq q v = Inr q' \<and> ok q' \<and> cap q' = cap q \<and>
      abs q' = (if length (abs q) < cap q then abs q else tl (abs q)) @ [v]"
    and deq_empty: "ok q \<Longrightarrow> abs q = [] \<Longrightarrow> deq q = Inl Verify_Failed"
    and deq_law: "ok q \<Longrightarrow> abs q \<noteq> [] \<Longrightarrow> \<exists>q'. deq q = Inr (hd (abs q), q') \<and> ok q' \<and> cap q' = cap q \<and> abs q' = tl (abs q)"
begin

lemma keeps_latest:
  "ok q \<Longrightarrow> \<exists>q'. enq_all enq vs q = Inr q' \<and> ok q' \<and> cap q' = cap q \<and>
    abs q' = drop (length (abs q) + length vs - cap q) (abs q @ vs)"
proof (induction vs arbitrary: q)
  case Nil
  then show ?case using bounded [OF Nil] by simp
next
  case (Cons v vs)
  obtain q1 where q1: "enq q v = Inr q1" "ok q1" "cap q1 = cap q"
      "abs q1 = (if length (abs q) < cap q then abs q else tl (abs q)) @ [v]" using enq_law [OF Cons.prems] by blast
  obtain q2 where q2: "enq_all enq vs q1 = Inr q2" "ok q2" "cap q2 = cap q"
      "abs q2 = drop (length (abs q1) + length vs - cap q) (abs q1 @ vs)" using Cons.IH [OF q1(2)] q1(3) by auto
  have "abs q2 = drop (length (abs q) + length (v # vs) - cap q) (abs q @ v # vs)"
  proof (cases "length (abs q) < cap q")
    case False
    then have "length (abs q) = cap q" "abs q \<noteq> []" using bounded [OF Cons.prems] bounded [OF q1(2)] q1(3,4) by auto
    then show ?thesis using q1(4) q2(4) by (cases "abs q") auto
  qed (simp add: q1(4) q2(4))
  then show ?case using q1 q2 by auto
qed

end

text \<open>With values put and taken at both ends, a deque is such a queue in either direction.\<close>

locale bounded_deque = bounded_queue ok abs cap enq deq
  for ok :: "'q \<Rightarrow> bool" and abs :: "'q \<Rightarrow> 'a list" and cap enq deq +
  fixes enq_front :: "'q \<Rightarrow> 'a \<Rightarrow> 'q res" and deq_back :: "'q \<Rightarrow> ('a \<times> 'q) res"
  assumes enq_front_law: "ok q \<Longrightarrow> \<exists>q'. enq_front q v = Inr q' \<and> ok q' \<and> cap q' = cap q \<and>
      abs q' = v # (if length (abs q) < cap q then abs q else butlast (abs q))"
    and deq_back_empty: "ok q \<Longrightarrow> abs q = [] \<Longrightarrow> deq_back q = Inl Verify_Failed"
    and deq_back_law: "ok q \<Longrightarrow> abs q \<noteq> [] \<Longrightarrow>
      \<exists>q'. deq_back q = Inr (last (abs q), q') \<and> ok q' \<and> cap q' = cap q \<and> abs q' = butlast (abs q)"

sublocale bounded_deque \<subseteq> reversed: bounded_queue ok "\<lambda>q. rev (abs q)" cap enq_front deq_back
proof
  show "length (rev (abs q)) \<le> cap q" if "ok q" for q using bounded [OF that] by simp
  show "\<exists>q'. enq_front q v = Inr q' \<and> ok q' \<and> cap q' = cap q \<and>
      rev (abs q') = (if length (rev (abs q)) < cap q then rev (abs q) else tl (rev (abs q))) @ [v]" if "ok q" for q v
    using enq_front_law [OF that, of v] by (auto simp: rev_butlast)
  show "deq_back q = Inl Verify_Failed" if "ok q" "rev (abs q) = []" for q using deq_back_empty that by simp
  show "\<exists>q'. deq_back q = Inr (hd (rev (abs q)), q') \<and> ok q' \<and> cap q' = cap q \<and> rev (abs q') = tl (rev (abs q))"
    if "ok q" "rev (abs q) \<noteq> []" for q
    using deq_back_law [of q] that by (auto simp: hd_rev rev_butlast)
qed

interpretation ring_deque: bounded_deque ring_ok contents ring_capacity CircularQueue_enqueue CircularQueue_dequeue
  CircularDeque_enqueue_begin CircularDeque_dequeue_end
proof
  show "length (contents q) \<le> ring_capacity q" if "ring_ok q" for q :: "'a ring" using ring_okD(4) [OF that] by simp
  show "CircularQueue_dequeue q = Inl Verify_Failed" if "ring_ok q" "contents q = []" for q :: "'a ring"
    using that length_contents [of q] by (simp add: CircularQueue_dequeue_def CircularQueue_is_empty_def)
  show "CircularDeque_dequeue_end q = Inl Verify_Failed" if "ring_ok q" "contents q = []" for q :: "'a ring"
    using that length_contents [of q] by (simp add: CircularDeque_dequeue_end_def CircularQueue_is_empty_def)
qed (rule enqueue_spec dequeue_spec enqueue_begin_spec dequeue_end_spec; assumption)+

text \<open>
  All operations, on a ring and on the list of its values. Using a place that holds no value, as
  \<open>first\<close> and \<open>last\<close> do on an empty ring, is undefined. An index of the capacity or more, which
  wraps around to other places, is outside the contract.
\<close>

datatype 'a ring_op =
  Enqueue 'a | Dequeue | Enqueue_Begin 'a | Dequeue_End | Clear | At nat | First | Last | Size | Is_Empty

datatype 'a ring_result = Done | Value 'a | Count nat | Flag bool

definition with_value :: "('a \<times> 'q) res \<Rightarrow> ('a ring_result \<times> 'q) res" where
  "with_value r = rbind r (\<lambda>(v, q). Inr (Value v, q))"

fun ring_step :: "'a ring \<Rightarrow> 'a ring_op \<Rightarrow> ('a ring_result \<times> 'a ring) res option" where
  "ring_step q (Enqueue v) = Some (rbind (CircularQueue_enqueue q v) (\<lambda>q. Inr (Done, q)))"
| "ring_step q Dequeue = Some (with_value (CircularQueue_dequeue q))"
| "ring_step q (Enqueue_Begin v) = Some (rbind (CircularDeque_enqueue_begin q v) (\<lambda>q. Inr (Done, q)))"
| "ring_step q Dequeue_End = Some (with_value (CircularDeque_dequeue_end q))"
| "ring_step q Clear = Some (rbind (CircularQueue_clear q) (\<lambda>q. Inr (Done, q)))"
| "ring_step q (At i) = Some (rbind (CircularQueue_at q i) (\<lambda>v. Inr (Value v, q)))"
| "ring_step q First = Some (rbind (CircularQueue_first q) (\<lambda>v. Inr (Value v, q)))"
| "ring_step q Last = Some (rbind (CircularQueue_last q) (\<lambda>v. Inr (Value v, q)))"
| "ring_step q Size = Some (Inr (Count (ring_size q), q))"
| "ring_step q Is_Empty = Some (Inr (Flag (CircularQueue_is_empty q), q))"

fun list_ring :: "nat \<Rightarrow> 'a list \<Rightarrow> 'a ring_op \<Rightarrow> ('a ring_result \<times> 'a list) res option" where
  "list_ring n xs (Enqueue v) = Some (Inr (Done, (if length xs < n then xs else tl xs) @ [v]))"
| "list_ring n xs Dequeue = Some (if xs = [] then Inl Verify_Failed else Inr (Value (hd xs), tl xs))"
| "list_ring n xs (Enqueue_Begin v) = Some (Inr (Done, v # (if length xs < n then xs else butlast xs)))"
| "list_ring n xs Dequeue_End = Some (if xs = [] then Inl Verify_Failed else Inr (Value (last xs), butlast xs))"
| "list_ring n xs Clear = Some (Inr (Done, []))"
| "list_ring n xs (At i) =
     (if i < n then Some (if i < length xs then Inr (Value (xs ! i), xs) else Inl Undefined_Behaviour) else None)"
| "list_ring n xs First = Some (if xs = [] then Inl Undefined_Behaviour else Inr (Value (hd xs), xs))"
| "list_ring n xs Last = Some (if xs = [] then Inl Undefined_Behaviour else Inr (Value (last xs), xs))"
| "list_ring n xs Size = Some (Inr (Count (length xs), xs))"
| "list_ring n xs Is_Empty = Some (Inr (Flag (xs = []), xs))"

lemma ring_is_empty: "CircularQueue_is_empty q \<longleftrightarrow> contents q = []"
  using length_contents [of q] by (metis CircularQueue_is_empty_def length_0_conv)

lemma ring_step_spec:
  assumes ok: "ring_ok q" and spec: "list_ring (ring_capacity q) (contents q) op = Some (Inr (r, xs))"
  shows "\<exists>q'. ring_step q op = Some (Inr (r, q')) \<and> (ring_ok q' \<and> ring_capacity q' = ring_capacity q) \<and> contents q' = xs"
proof (cases op)
  case (Enqueue v)
  then show ?thesis using ring_deque.enq_law [OF ok, of v] spec by auto
next
  case Dequeue
  then show ?thesis using ring_deque.deq_law [OF ok] spec by (auto simp: with_value_def split: if_splits)
next
  case (Enqueue_Begin v)
  then show ?thesis using ring_deque.enq_front_law [OF ok, of v] spec by auto
next
  case Dequeue_End
  then show ?thesis using ring_deque.deq_back_law [OF ok] spec by (auto simp: with_value_def split: if_splits)
next
  case Clear
  then show ?thesis using clear_spec [OF ok] spec by auto
next
  case (At i)
  then show ?thesis using at_spec [OF ok, of i] ok spec by (auto split: if_splits)
qed (use ok spec in \<open>auto simp: first_spec last_spec ring_is_empty split: if_splits\<close>)

lemma ring_step_fault:
  assumes ok: "ring_ok q" and spec: "list_ring (ring_capacity q) (contents q) op = Some (Inl e)"
  shows "ring_step q op = Some (Inl e)"
  using spec ring_deque.deq_empty [OF ok] ring_deque.deq_back_empty [OF ok] at_dead [OF ok] first_spec [OF ok] last_spec [OF ok]
  by (cases op) (auto simp: with_value_def split: if_splits)

interpretation ring: simulation "\<lambda>q. ring_ok q \<and> ring_capacity q = n" contents ring_step "list_ring n" for n
  by unfold_locales (use ring_step_spec ring_step_fault in blast)+

section \<open>Iteration\<close>

text \<open>
  The end of the iteration is the index \<open>size\<close>, whatever the head: it is right only for a full ring and
  from head 0. With the head further on the loop stops early, and with the head behind the size it
  leaves the values and uses a free slot.
\<close>

lemma increment_to:
  assumes "ring_ok q" "j + 1 < ring_capacity q"
  shows "ConstIterator_increment q ((ring_head q + j) mod ring_capacity q) = (ring_head q + (j + 1)) mod ring_capacity q"
proof -
  note d = ring_okD [OF assms(1)]
  have "(ring_head q + j) mod ring_capacity q < ring_capacity q" using d(1) by simp
  then have "usz ((ring_head q + j) mod ring_capacity q + 1) = (ring_head q + j) mod ring_capacity q + 1"
    using d(2) by (intro usz_small) simp
  then have "usz ((ring_head q + j) mod ring_capacity q + 1) mod ring_capacity q = (ring_head q + (j + 1)) mod ring_capacity q"
    by (simp add: mod_Suc_eq)
  moreover have "(ring_head q + (j + 1)) mod ring_capacity q \<noteq> ring_head q"
    using mod_inj [of "j + 1" "ring_capacity q" 0 "ring_head q"] assms(2) d(3) by auto
  ultimately show ?thesis by (simp add: ConstIterator_increment_def Let_def)
qed

lemma iterate_full:
  assumes "ring_ok q" "ring_size q = ring_capacity q" "j < ring_capacity q"
  shows "iterate_from q ((ring_head q + j) mod ring_capacity q) = Some (Inr (drop j (contents q)))"
  using assms(3)
proof (induction "ring_capacity q - j" arbitrary: j)
  case (Suc n)
  let ?C = "ring_capacity q"
  note d = ring_okD [OF assms(1)]
  have obj: "object_at (elements q) ((ring_head q + j) mod ?C) = Inr (contents q ! j)"
    using d(5) [of j] Suc.prems assms(1,2) by (simp add: object_ok)
  have ne: "(ring_head q + j) mod ?C \<noteq> CircularQueue_end q"
    using mod_less_divisor [OF d(1), of "ring_head q + j"] assms(2) by (simp add: CircularQueue_end_def)
  have "iterate_from q (ConstIterator_increment q ((ring_head q + j) mod ?C)) = Some (Inr (drop (Suc j) (contents q)))"
  proof (cases "j + 1 < ?C")
    case True
    then show ?thesis using Suc.hyps(1) [of "j + 1"] Suc.hyps(2) increment_to [OF assms(1) True] by simp
  next
    case False
    then have j: "j = ?C - 1" using Suc.prems by simp
    have "(ring_head q + j) mod ?C < ?C" using d(1) by simp
    then have "usz ((ring_head q + j) mod ?C + 1) = (ring_head q + j) mod ?C + 1" using d(2) by (intro usz_small) simp
    moreover have "((ring_head q + j) mod ?C + 1) mod ?C = ring_head q" using j d(1,3) by (simp add: mod_Suc_eq)
    ultimately have "ConstIterator_increment q ((ring_head q + j) mod ?C) = CircularQueue_end q"
      by (simp add: ConstIterator_increment_def CircularQueue_end_def Let_def)
    then show ?thesis using j assms(2) d(1) by (simp add: iterate_from.simps [of q "CircularQueue_end q"])
  qed
  then show ?case using obj ne Suc.prems assms(2) by (subst iterate_from.simps) (simp add: Cons_nth_drop_Suc)
qed simp

lemma iterate_stops:
  assumes "ring_ok q" "ring_size q < ring_capacity q" "ring_head q + j \<le> ring_size q"
  shows "iterate_from q (ring_head q + j) = Some (Inr (take (ring_size q - ring_head q - j) (drop j (contents q))))"
  using assms(3)
proof (induction "ring_size q - ring_head q - j" arbitrary: j)
  case 0
  then show ?case by (simp add: iterate_from.simps [of q "ring_head q + j"] CircularQueue_end_def)
next
  case (Suc n)
  note d = ring_okD [OF assms(1)]
  have lt: "ring_head q + j < ring_size q" using Suc.hyps(2) by simp
  have obj: "object_at (elements q) (ring_head q + j) = Inr (contents q ! j)"
    using d(5) [of j] lt assms(2) by (simp add: object_ok capacity_length)
  have "ConstIterator_increment q (ring_head q + j) = ring_head q + (j + 1)"
    using increment_to [OF assms(1), of j] lt assms(2) by simp
  moreover have "iterate_from q (ring_head q + (j + 1)) = Some (Inr (take n (drop (j + 1) (contents q))))"
  proof -
    have "n = ring_size q - ring_head q - (j + 1)" using Suc.hyps(2) by simp
    then show ?thesis using Suc.hyps(1) [of "j + 1"] lt by simp
  qed
  moreover have "drop j (contents q) = contents q ! j # drop (j + 1) (contents q)"
    using lt by (simp add: Cons_nth_drop_Suc)
  ultimately show ?case using obj lt Suc.hyps(2) [symmetric]
    by (subst iterate_from.simps) (simp add: CircularQueue_end_def)
qed

lemma iterate_leaves:
  assumes "ring_ok q" "ring_size q < ring_head q" "j \<le> ring_size q"
  shows "iterate_from q ((ring_head q + j) mod ring_capacity q) = Some (Inl Undefined_Behaviour)"
  using assms(3)
proof (induction "ring_size q - j" arbitrary: j)
  case 0
  let ?C = "ring_capacity q"
  note d = ring_okD [OF assms(1)]
  have "object_at (elements q) ((ring_head q + j) mod ?C) = Inl Undefined_Behaviour"
    using "0" d(6) [of j] d(3) assms(1,2) by (simp add: object_dead)
  moreover have "(ring_head q + j) mod ?C \<noteq> CircularQueue_end q"
    using "0.prems" assms(2) d(3) by (auto simp: CircularQueue_end_def mod_if)
  ultimately show ?case by (subst iterate_from.simps) simp
next
  case (Suc n)
  let ?C = "ring_capacity q"
  note d = ring_okD [OF assms(1)]
  have j: "j < ring_size q" using Suc.hyps(2) by simp
  have "object_at (elements q) ((ring_head q + j) mod ?C) = Inr (contents q ! j)"
    using d(5) [OF j] assms(1) by (simp add: object_ok)
  moreover have "(ring_head q + j) mod ?C \<noteq> CircularQueue_end q"
    using j assms(2) d(3) by (auto simp: CircularQueue_end_def mod_if)
  moreover have "iterate_from q ((ring_head q + (j + 1)) mod ?C) = Some (Inl Undefined_Behaviour)"
    using Suc.hyps j by (intro Suc.hyps(1)) simp_all
  ultimately show ?case using increment_to [OF assms(1), of j] j assms(2) d(3) by (subst iterate_from.simps) simp
qed

lemma iterate_spec:
  assumes "ring_ok q"
  shows "CircularQueue_iterate q = Some
    (if ring_size q = ring_capacity q then Inr (contents q)
     else if ring_head q \<le> ring_size q then Inr (take (ring_size q - ring_head q) (contents q))
     else Inl Undefined_Behaviour)"
  using iterate_full [OF assms, of 0] iterate_stops [OF assms, of 0] iterate_leaves [OF assms, of 0] ring_okD(1,3,4) [OF assms]
  by (auto simp: CircularQueue_iterate_def CircularQueue_begin_def)

end
