(* ===== verification/Binary_Heap.thy ===== *)
theory Binary_Heap
  imports Prelude "HOL-Library.Multiset"
begin

text \<open>
  \<open>base/BinaryHeap.h\<close>: keys with values in an array of \<open>Capacity\<close> elements, of which the first
  \<open>m_size\<close> are in use. An element takes two bytes at least, so that an index doubled does not wrap.
  The contract is the locale \<open>priority_queue\<close>: what is in the heap is a multiset, an insertion adds
  to it, and \<open>pop_min\<close> takes an element of least key.
\<close>

section \<open>The heap\<close>

record ('k, 'v) binary_heap =
  m_elements :: "('k \<times> 'v) list"
  m_size :: nat

definition key_at :: "('k \<times> 'v) list \<Rightarrow> nat \<Rightarrow> 'k res" where
  "key_at es i = rbind (read_at es i) (\<lambda>e. Inr (fst e))"

definition swap_at :: "'a list \<Rightarrow> nat \<Rightarrow> nat \<Rightarrow> 'a list res" where
  "swap_at es i j =
     rbind (read_at es i) (\<lambda>x. rbind (read_at es j) (\<lambda>y. rbind (write_at es i y) (\<lambda>es. write_at es j x)))"

definition min_child :: "('k::linorder \<times> 'v) list \<Rightarrow> nat \<Rightarrow> nat \<Rightarrow> nat res" where
  "min_child es used index =
     (let left_child = index * 2 + 1; right_child = index * 2 + 2; child = left_child in
      if right_child < used then
        rbind (key_at es right_child) (\<lambda>r. rbind (key_at es child) (\<lambda>m.
          Inr (if r < m then right_child else child)))
      else Inr child)"

definition stays_above :: "('k::linorder \<times> 'v) list \<Rightarrow> nat \<Rightarrow> nat \<Rightarrow> bool res" where
  "stays_above es i c = rbind (key_at es i) (\<lambda>a. rbind (key_at es c) (\<lambda>b. Inr (a \<le> b)))"

lemma min_child_range: "min_child es used index = Inr c \<Longrightarrow> index * 2 + 1 < used \<Longrightarrow> index < c \<and> c < used"
  by (auto simp: min_child_def Let_def rbind_Inr_iff split: if_splits)

function heapify_down :: "nat \<Rightarrow> ('k::linorder \<times> 'v) list \<Rightarrow> nat \<Rightarrow> ('k \<times> 'v) list res" where
  "heapify_down used es index =
     (if index * 2 + 1 < used then
        (case min_child es used index of
           Inl e \<Rightarrow> Inl e
         | Inr child \<Rightarrow>
             (case stays_above es index child of
                Inl e \<Rightarrow> Inl e
              | Inr stop \<Rightarrow>
                  if stop then Inr es
                  else (case swap_at es index child of
                          Inl e \<Rightarrow> Inl e
                        | Inr es \<Rightarrow> heapify_down used es child)))
      else Inr es)"
  by pat_completeness auto
termination
  by (relation "measure (\<lambda>(used, es, index). used - index)") (auto dest: min_child_range)

function heapify_up :: "('k::linorder \<times> 'v) list \<Rightarrow> nat \<Rightarrow> ('k \<times> 'v) list res" where
  "heapify_up es index =
     (if index \<noteq> 0 then
        let parent = (index - 1) div 2 in
        (case stays_above es parent index of
           Inl e \<Rightarrow> Inl e
         | Inr stop \<Rightarrow>
             if stop then Inr es
             else (case swap_at es index parent of Inl e \<Rightarrow> Inl e | Inr es \<Rightarrow> heapify_up es parent))
      else Inr es)"
  by pat_completeness auto
termination by (relation "measure (\<lambda>(es, index). index)") auto

declare heapify_down.simps [simp del] heapify_up.simps [simp del]

definition BinaryHeap_create :: "('k \<times> 'v) list \<Rightarrow> ('k, 'v) binary_heap" where
  "BinaryHeap_create storage = \<lparr>m_elements = storage, m_size = 0\<rparr>"

fun fill_loop :: "nat \<Rightarrow> ('k \<times> 'v) list \<Rightarrow> ('k \<times> 'v) list \<Rightarrow> ('k \<times> 'v) list res" where
  "fill_loop i [] es = Inr es"
| "fill_loop i (kv # kvs) es = rbind (write_at es i kv) (fill_loop (i + 1) kvs)"

fun build_loop :: "nat \<Rightarrow> nat \<Rightarrow> ('k::linorder \<times> 'v) list \<Rightarrow> ('k \<times> 'v) list res" where
  "build_loop used 0 es = heapify_down used es 0"
| "build_loop used (Suc i) es = rbind (heapify_down used es (Suc i)) (build_loop used i)"

text \<open>The constructor from two arrays of the same length, given as pairs.\<close>

definition BinaryHeap_of_arrays ::
  "('k \<times> 'v) list \<Rightarrow> ('k::linorder \<times> 'v) list \<Rightarrow> ('k, 'v) binary_heap res" where
  "BinaryHeap_of_arrays storage kvs =
     verify (length kvs \<le> length storage)
       (rbind (fill_loop 0 kvs storage) (\<lambda>es.
        rbind (build_loop (length kvs) (length kvs div 2) es) (\<lambda>es.
          Inr \<lparr>m_elements = es, m_size = length kvs\<rparr>)))"

definition BinaryHeap_is_empty :: "('k, 'v) binary_heap \<Rightarrow> bool" where
  "BinaryHeap_is_empty h \<longleftrightarrow> m_size h = 0"

definition BinaryHeap_insert :: "('k::linorder, 'v) binary_heap \<Rightarrow> 'k \<Rightarrow> 'v \<Rightarrow> ('k, 'v) binary_heap res" where
  "BinaryHeap_insert h key v =
     verify (m_size h < length (m_elements h))
       (rbind (write_at (m_elements h) (m_size h) (key, v)) (\<lambda>es.
        rbind (heapify_up es (m_size h)) (\<lambda>es. Inr \<lparr>m_elements = es, m_size = m_size h + 1\<rparr>)))"

definition BinaryHeap_pop_min :: "('k::linorder, 'v) binary_heap \<Rightarrow> ('v \<times> ('k, 'v) binary_heap) res" where
  "BinaryHeap_pop_min h =
     verify (\<not> BinaryHeap_is_empty h)
       (let index = m_size h - 1 in
        rbind (swap_at (m_elements h) 0 index) (\<lambda>es.
        rbind (heapify_down index es 0) (\<lambda>es.
        rbind (read_at es index) (\<lambda>e. Inr (snd e, \<lparr>m_elements = es, m_size = index\<rparr>)))))"

definition BinaryHeap_peek_min :: "('k, 'v) binary_heap \<Rightarrow> 'v res" where
  "BinaryHeap_peek_min h =
     verify (\<not> BinaryHeap_is_empty h) (rbind (read_at (m_elements h) 0) (\<lambda>e. Inr (snd e)))"

definition BinaryHeap_peek_min_key :: "('k, 'v) binary_heap \<Rightarrow> 'k res" where
  "BinaryHeap_peek_min_key h =
     verify (\<not> BinaryHeap_is_empty h) (rbind (read_at (m_elements h) 0) (\<lambda>e. Inr (fst e)))"

definition BinaryHeap_clear :: "('k, 'v) binary_heap \<Rightarrow> ('k, 'v) binary_heap" where
  "BinaryHeap_clear h = h\<lparr>m_size := 0\<rparr>"

section \<open>Order of the keys\<close>

definition par :: "nat \<Rightarrow> nat" where
  "par j = (j - 1) div 2"

definition key :: "('k \<times> 'v) list \<Rightarrow> nat \<Rightarrow> 'k" where
  "key es i = fst (es ! i)"

definition ordered_from :: "nat \<Rightarrow> nat \<Rightarrow> (nat \<Rightarrow> 'k::linorder) \<Rightarrow> bool" where
  "ordered_from lo n K \<longleftrightarrow> (\<forall>j. 0 < j \<and> j < n \<and> lo \<le> par j \<longrightarrow> K (par j) \<le> K j)"

text \<open>Ordered but for the children of \<open>i\<close>, which are still above the parent of \<open>i\<close>.\<close>

definition sinking :: "nat \<Rightarrow> nat \<Rightarrow> nat \<Rightarrow> (nat \<Rightarrow> 'k::linorder) \<Rightarrow> bool" where
  "sinking lo n i K \<longleftrightarrow>
     (\<forall>j. 0 < j \<and> j < n \<and> lo \<le> par j \<and> par j \<noteq> i \<longrightarrow> K (par j) \<le> K j) \<and>
     (\<forall>j. 0 < j \<and> j < n \<and> par j = i \<and> 0 < i \<and> lo \<le> par i \<longrightarrow> K (par i) \<le> K j)"

text \<open>Ordered but for \<open>i\<close> itself, whose children are above its parent.\<close>

definition rising :: "nat \<Rightarrow> nat \<Rightarrow> (nat \<Rightarrow> 'k::linorder) \<Rightarrow> bool" where
  "rising n i K \<longleftrightarrow>
     (\<forall>j. 0 < j \<and> j < n \<and> j \<noteq> i \<longrightarrow> K (par j) \<le> K j) \<and>
     (\<forall>j. 0 < j \<and> j < n \<and> par j = i \<and> 0 < i \<longrightarrow> K (par i) \<le> K j)"

lemma par_less: "0 < j \<Longrightarrow> par j < j"
  by (simp add: par_def)

lemma par_child: "0 < j \<Longrightarrow> par j = i \<longleftrightarrow> j = i * 2 + 1 \<or> j = i * 2 + 2"
  by (auto simp: par_def)

lemma sinking_step:
  assumes s: "sinking lo n i K" and c: "0 < c" "c < n" "par c = i" "lo \<le> i"
    and min: "\<And>j. 0 < j \<Longrightarrow> j < n \<Longrightarrow> par j = i \<Longrightarrow> K c \<le> K j" and less: "K c < K i"
  shows "sinking lo n c (K(i := K c, c := K i))"
proof -
  let ?K = "K(i := K c, c := K i)"
  have ic: "i < c" using par_less [OF c(1)] c(3) by simp
  have s1: "\<And>j. 0 < j \<Longrightarrow> j < n \<Longrightarrow> lo \<le> par j \<Longrightarrow> par j \<noteq> i \<Longrightarrow> K (par j) \<le> K j"
    and s2: "\<And>j. 0 < j \<Longrightarrow> j < n \<Longrightarrow> par j = i \<Longrightarrow> 0 < i \<Longrightarrow> lo \<le> par i \<Longrightarrow> K (par i) \<le> K j"
    using s by (auto simp: sinking_def)
  have "?K (par j) \<le> ?K j" if j: "0 < j" "j < n" "lo \<le> par j" "par j \<noteq> c" for j
  proof (cases "par j = i")
    case True
    then have "j \<noteq> i" using par_less [OF j(1)] by auto
    then show ?thesis using True min [OF j(1,2)] less ic by auto
  next
    case False
    then have K: "?K (par j) = K (par j)" using j(4) by simp
    show ?thesis
    proof (cases "j = i")
      case True
      then show ?thesis using K s2 [OF c(1-3)] j ic by auto
    next
      case False
      then have "?K j = K j" using \<open>par j \<noteq> i\<close> c(3) by auto
      then show ?thesis using K s1 [OF j(1-3)] \<open>par j \<noteq> i\<close> by simp
    qed
  qed
  moreover have "?K (par c) \<le> ?K j" if j: "0 < j" "j < n" "par j = c" for j
    using s1 [OF j(1,2)] j(3) c ic par_less [OF j(1)] by auto
  ultimately show ?thesis unfolding sinking_def by blast
qed

lemma sinking_stop:
  assumes "sinking lo n i K" and "\<And>j. 0 < j \<Longrightarrow> j < n \<Longrightarrow> par j = i \<Longrightarrow> K i \<le> K j"
  shows "ordered_from lo n K"
  using assms unfolding sinking_def ordered_from_def by metis

lemma rising_step:
  assumes r: "rising n i K" and i: "0 < i" "i < n" and less: "K i < K (par i)"
  shows "rising n (par i) (K(i := K (par i), par i := K i))"
proof -
  let ?p = "par i"
  let ?K = "K(i := K ?p, ?p := K i)"
  have p: "?p < i" by (rule par_less [OF i(1)])
  have r1: "\<And>j. 0 < j \<Longrightarrow> j < n \<Longrightarrow> j \<noteq> i \<Longrightarrow> K (par j) \<le> K j"
    and r2: "\<And>j. 0 < j \<Longrightarrow> j < n \<Longrightarrow> par j = i \<Longrightarrow> K ?p \<le> K j"
    using r i(1) by (auto simp: rising_def)
  have "?K (par j) \<le> ?K j" if j: "0 < j" "j < n" "j \<noteq> ?p" for j
  proof (cases "j = i")
    case True
    then show ?thesis using less p by simp
  next
    case False
    then have K: "?K j = K j" using j(3) by simp
    consider "par j = ?p" | "par j = i" | "par j \<noteq> ?p" "par j \<noteq> i" by blast
    then show ?thesis
    proof cases
      case 1
      then show ?thesis using K r1 [OF j(1,2) False] less by simp
    next
      case 2
      then show ?thesis using K r2 [OF j(1,2)] p by simp
    next
      case 3
      then show ?thesis using K r1 [OF j(1,2) False] by simp
    qed
  qed
  moreover have "?K (par ?p) \<le> ?K j" if j: "0 < j" "j < n" "par j = ?p" "0 < ?p" for j
  proof -
    have pp: "par ?p < ?p" by (rule par_less [OF j(4)])
    have up: "K (par ?p) \<le> K ?p" using r1 [OF j(4)] p i(2) by simp
    have "?K (par ?p) = K (par ?p)" using pp p by simp
    moreover have "j \<noteq> ?p" using par_less [OF j(1)] j(3) by auto
    ultimately show ?thesis using up r1 [OF j(1,2)] j(3) by (cases "j = i") auto
  qed
  ultimately show ?thesis unfolding rising_def by blast
qed

lemma rising_stop: "rising n i K \<Longrightarrow> (0 < i \<Longrightarrow> K (par i) \<le> K i) \<Longrightarrow> ordered_from 0 n K"
  unfolding rising_def ordered_from_def by metis

lemma root_least: "ordered_from 0 n K \<Longrightarrow> j < n \<Longrightarrow> K 0 \<le> K j"
proof (induction j rule: less_induct)
  case (less j)
  show ?case
  proof (cases "j = 0")
    case False
    then have "par j < j" by (simp add: par_less)
    then have "K 0 \<le> K (par j)" using less by simp
    also have "\<dots> \<le> K j" using less.prems False by (simp add: ordered_from_def)
    finally show ?thesis .
  qed simp
qed

section \<open>The loops\<close>

abbreviation swapped :: "'a list \<Rightarrow> nat \<Rightarrow> nat \<Rightarrow> 'a list" where
  "swapped es i j \<equiv> es[i := es ! j, j := es ! i]"

lemma swap_ok: "i < length es \<Longrightarrow> j < length es \<Longrightarrow> swap_at es i j = Inr (swapped es i j)"
  by (simp add: swap_at_def read_at_def write_at_def)

lemma key_swapped:
  "i < length es \<Longrightarrow> j < length es \<Longrightarrow> key (swapped es i j) = (key es)(i := key es j, j := key es i)"
  by (auto simp: key_def nth_list_update)

lemma take_swapped: "i < n \<Longrightarrow> j < n \<Longrightarrow> n \<le> length es \<Longrightarrow> take n (swapped es i j) = swapped (take n es) i j"
  by (simp add: take_update_swap)

lemma mset_take_swapped:
  "i < n \<Longrightarrow> j < n \<Longrightarrow> n \<le> length es \<Longrightarrow> mset (take n (swapped es i j)) = mset (take n es)"
  using mset_swap [of j "take n es" i] by (simp only: take_swapped) simp

lemma key_at_ok: "i < length es \<Longrightarrow> key_at es i = Inr (key es i)"
  by (simp add: key_at_def key_def read_at_def)

lemma stays_above_ok: "i < length es \<Longrightarrow> j < length es \<Longrightarrow> stays_above es i j = Inr (key es i \<le> key es j)"
  by (simp add: stays_above_def key_at_ok)

lemma min_child_ok:
  assumes "i * 2 + 1 < n" "n \<le> length es"
  shows "\<exists>c. min_child es n i = Inr c \<and> 0 < c \<and> c < n \<and> par c = i \<and>
    (\<forall>j. 0 < j \<longrightarrow> j < n \<longrightarrow> par j = i \<longrightarrow> key es c \<le> key es j)"
proof (cases "i * 2 + 2 < n")
  case True
  let ?c = "if key es (i * 2 + 2) < key es (i * 2 + 1) then i * 2 + 2 else i * 2 + 1"
  have "min_child es n i = Inr ?c" using True assms by (simp add: min_child_def key_at_ok Let_def)
  moreover have "key es ?c \<le> key es j" if "0 < j" "par j = i" for j using that by (auto simp: par_child)
  moreover have "par ?c = i" by (simp add: par_def)
  ultimately show ?thesis using True by (intro exI [of _ ?c]) auto
next
  case False
  then have "min_child es n i = Inr (i * 2 + 1)" by (simp add: min_child_def Let_def)
  moreover have "j = i * 2 + 1" if "0 < j" "j < n" "par j = i" for j using that False by (auto simp: par_child)
  ultimately show ?thesis using assms(1) by (intro exI [of _ "i * 2 + 1"]) (auto simp: par_def)
qed

lemma heapify_down_stop:
  "i * 2 + 1 < n \<Longrightarrow> min_child es n i = Inr c \<Longrightarrow> stays_above es i c = Inr True \<Longrightarrow> heapify_down n es i = Inr es"
  by (subst heapify_down.simps) simp

lemma heapify_down_swap:
  "i * 2 + 1 < n \<Longrightarrow> min_child es n i = Inr c \<Longrightarrow> stays_above es i c = Inr False \<Longrightarrow> swap_at es i c = Inr es' \<Longrightarrow>
   heapify_down n es i = heapify_down n es' c"
  by (subst heapify_down.simps) simp

lemma heapify_up_stop:
  "0 < i \<Longrightarrow> stays_above es (par i) i = Inr True \<Longrightarrow> heapify_up es i = Inr es"
  unfolding par_def by (subst heapify_up.simps) (simp add: Let_def)

lemma heapify_up_swap:
  "0 < i \<Longrightarrow> stays_above es (par i) i = Inr False \<Longrightarrow> swap_at es i (par i) = Inr es' \<Longrightarrow>
   heapify_up es i = heapify_up es' (par i)"
  unfolding par_def by (subst heapify_up.simps) (simp add: Let_def)

lemma heapify_down_spec:
  assumes "sinking lo n i (key es)" "lo \<le> i" "n \<le> length es"
  shows "\<exists>es'. heapify_down n es i = Inr es' \<and> ordered_from lo n (key es') \<and> length es' = length es \<and>
    mset (take n es') = mset (take n es) \<and> drop n es' = drop n es"
  using assms
proof (induction n es i rule: heapify_down.induct)
  case (1 n es i)
  show ?case
  proof (cases "i * 2 + 1 < n")
    case True
    obtain c where c: "min_child es n i = Inr c" "0 < c" "c < n" "par c = i"
        "\<forall>j. 0 < j \<longrightarrow> j < n \<longrightarrow> par j = i \<longrightarrow> key es c \<le> key es j"
      using min_child_ok [OF True "1.prems"(3)] by blast
    have len: "i < length es" "c < length es" using c(3) True "1.prems"(3) by simp_all
    show ?thesis
    proof (cases "key es i \<le> key es c")
      case stop: True
      have "key es i \<le> key es j" if "0 < j" "j < n" "par j = i" for j
        using order_trans [OF stop c(5) [rule_format, OF that]] .
      with "1.prems"(1) have "ordered_from lo n (key es)" by (rule sinking_stop)
      moreover have "heapify_down n es i = Inr es"
        using heapify_down_stop [OF True c(1)] stop stays_above_ok [OF len] by simp
      ultimately show ?thesis by simp
    next
      case False
      let ?es = "swapped es i c"
      have less: "key es c < key es i" using False by simp
      have "sinking lo n c (key ?es)"
        unfolding key_swapped [OF len] using sinking_step [OF "1.prems"(1) c(2-4) "1.prems"(2) _ less] c(5) by blast
      moreover have "i < c" using par_less [OF c(2)] c(4) by simp
      ultimately obtain es' where es': "heapify_down n ?es c = Inr es'" "ordered_from lo n (key es')" "length es' = length es"
          "mset (take n es') = mset (take n ?es)" "drop n es' = drop n ?es"
        using "1.IH" [OF True c(1) stays_above_ok [OF len] _ swap_ok [OF len]] False "1.prems"(2,3) by auto
      have "mset (take n ?es) = mset (take n es)" "drop n ?es = drop n es"
        using mset_take_swapped [of i n c es] \<open>i < c\<close> c(3) "1.prems"(3) by simp_all
      moreover have "heapify_down n es i = heapify_down n ?es c"
        using heapify_down_swap [OF True c(1) _ swap_ok [OF len]] False stays_above_ok [OF len] by simp
      ultimately show ?thesis using es' by simp
    qed
  next
    case False
    then have "ordered_from lo n (key es)" using "1.prems"(1) by (intro sinking_stop) (auto simp: par_child)
    then show ?thesis using False by (simp add: heapify_down.simps [of n es i])
  qed
qed

lemma heapify_up_spec:
  assumes "rising n i (key es)" "i < n" "n \<le> length es"
  shows "\<exists>es'. heapify_up es i = Inr es' \<and> ordered_from 0 n (key es') \<and> length es' = length es \<and>
    mset (take n es') = mset (take n es)"
  using assms
proof (induction es i rule: heapify_up.induct)
  case (1 es i)
  let ?p = "par i"
  show ?case
  proof (cases "0 < i \<and> \<not> key es ?p \<le> key es i")
    case True
    have p: "?p < i" using True par_less by blast
    then have len: "i < length es" "?p < length es" using "1.prems" by simp_all
    let ?es = "swapped es i ?p"
    have "rising n ?p (key ?es)"
      unfolding key_swapped [OF len] using rising_step [OF "1.prems"(1)] True "1.prems"(2) by (simp add: not_le)
    then obtain es' where es': "heapify_up ?es ?p = Inr es'" "ordered_from 0 n (key es')" "length es' = length es"
        "mset (take n es') = mset (take n ?es)"
      using "1.IH" [of ?p "key es ?p \<le> key es i" ?es] True p len "1.prems"(2,3)
      by (auto simp: par_def stays_above_ok swap_ok)
    have "mset (take n ?es) = mset (take n es)"
      using mset_take_swapped [of i n ?p es] p "1.prems"(2,3) by simp
    moreover have "heapify_up es i = heapify_up ?es ?p"
      using heapify_up_swap [OF _ _ swap_ok [OF len]] True stays_above_ok [OF len(2,1)] by simp
    ultimately show ?thesis using es' by simp
  next
    case False
    then have "ordered_from 0 n (key es)" using "1.prems"(1) by (intro rising_stop) auto
    moreover have "heapify_up es i = Inr es"
    proof (cases "i = 0")
      case False
      then have "i < length es" "?p < length es" using "1.prems"(2,3) par_less [of i] by simp_all
      then show ?thesis using heapify_up_stop [of i es] stays_above_ok [of ?p es i] False \<open>\<not> (0 < i \<and> \<not> key es ?p \<le> key es i)\<close> by simp
    qed (simp add: heapify_up.simps [of es 0])
    ultimately show ?thesis by simp
  qed
qed

lemma rising_fresh:
  assumes "ordered_from 0 n K" "\<And>j. j < n \<Longrightarrow> K' j = K j"
  shows "rising (Suc n) n K'"
  unfolding rising_def
proof (intro conjI allI impI)
  fix j assume j: "0 < j \<and> j < Suc n \<and> j \<noteq> n"
  then have "par j < n" using par_less [of j] by simp
  then show "K' (par j) \<le> K' j" using assms j by (simp add: ordered_from_def)
next
  fix j assume "0 < j \<and> j < Suc n \<and> par j = n \<and> 0 < n"
  then show "K' (par n) \<le> K' j" using par_less [of j] by simp
qed

lemma sinking_fresh:
  assumes "ordered_from 0 m K" "n \<le> m" "\<And>j. 0 < j \<Longrightarrow> j < n \<Longrightarrow> K' j = K j"
  shows "sinking 0 n 0 K'"
  unfolding sinking_def
proof (intro conjI allI impI)
  fix j assume j: "0 < j \<and> j < n \<and> 0 \<le> par j \<and> par j \<noteq> 0"
  then have "par j < n" using par_less [of j] by simp
  then show "K' (par j) \<le> K' j" using assms j by (simp add: ordered_from_def)
qed simp

lemma fill_loop_ok:
  "i + length kvs \<le> length es \<Longrightarrow> fill_loop i kvs es = Inr (take i es @ kvs @ drop (i + length kvs) es)"
proof (induction i kvs es rule: fill_loop.induct)
  case (2 i kv kvs es)
  then have i: "i < length es" by simp
  then have "es[i := kv] = take i es @ kv # drop (Suc i) es" by (simp add: upd_conv_take_nth_drop)
  then show ?case using 2 i by (simp add: write_at_def min_def add.commute)
qed simp

lemma build_loop_ok:
  assumes "ordered_from (Suc i) n (key es)" "n \<le> length es"
  shows "\<exists>es'. build_loop n i es = Inr es' \<and> ordered_from 0 n (key es') \<and> length es' = length es \<and>
    mset (take n es') = mset (take n es)"
  using assms
proof (induction n i es rule: build_loop.induct)
  case (1 n es)
  have "sinking 0 n 0 (key es)" using "1.prems"(1) by (auto simp: sinking_def ordered_from_def Suc_le_eq)
  from heapify_down_spec [OF this] show ?case using "1.prems"(2) by auto
next
  case (2 n i es)
  have "par (Suc i) < Suc i" by (rule par_less) simp
  then have "sinking (Suc i) n (Suc i) (key es)"
    using "2.prems"(1) by (auto simp: sinking_def ordered_from_def Suc_le_eq order_le_less)
  from heapify_down_spec [OF this _ "2.prems"(2)] obtain es' where
    es': "heapify_down n es (Suc i) = Inr es'" "ordered_from (Suc i) n (key es')" "length es' = length es"
      "mset (take n es') = mset (take n es)" by auto
  then show ?case using "2.IH" [OF es'(1,2)] "2.prems"(2) by simp
qed

section \<open>The contract\<close>

definition bheap_ok :: "('k::linorder, 'v) binary_heap \<Rightarrow> bool" where
  "bheap_ok h \<longleftrightarrow> m_size h \<le> length (m_elements h) \<and> ordered_from 0 (m_size h) (key (m_elements h))"

definition bheap_contents :: "('k, 'v) binary_heap \<Rightarrow> ('k \<times> 'v) multiset" where
  "bheap_contents h = mset (take (m_size h) (m_elements h))"

definition bheap_capacity :: "('k, 'v) binary_heap \<Rightarrow> nat" where
  "bheap_capacity h = length (m_elements h)"

lemma size_contents: "bheap_ok h \<Longrightarrow> size (bheap_contents h) = m_size h"
  by (simp add: bheap_ok_def bheap_contents_def)

lemma of_arrays_spec:
  assumes "length kvs \<le> length storage"
  shows "\<exists>h. BinaryHeap_of_arrays storage kvs = Inr h \<and> bheap_ok h \<and> bheap_contents h = mset kvs \<and>
    bheap_capacity h = length storage"
proof -
  let ?n = "length kvs" and ?es = "kvs @ drop (length kvs) storage"
  have fill: "fill_loop 0 kvs storage = Inr ?es" using fill_loop_ok [of 0 kvs storage] assms by simp
  have "\<not> Suc (?n div 2) \<le> par j" if "j < ?n" for j using that by (simp add: par_def)
  then have "ordered_from (Suc (?n div 2)) ?n (key ?es)" by (auto simp: ordered_from_def)
  then obtain es' where "build_loop ?n (?n div 2) ?es = Inr es'" "ordered_from 0 ?n (key es')" "length es' = length ?es"
      "mset (take ?n es') = mset (take ?n ?es)"
    using build_loop_ok [of "?n div 2" ?n ?es] by auto
  then show ?thesis using assms fill
    by (simp add: BinaryHeap_of_arrays_def bheap_ok_def bheap_contents_def bheap_capacity_def)
qed

lemma insert_spec:
  assumes "bheap_ok h" "m_size h < bheap_capacity h"
  shows "\<exists>h'. BinaryHeap_insert h k v = Inr h' \<and> bheap_ok h' \<and> bheap_capacity h' = bheap_capacity h \<and>
    bheap_contents h' = add_mset (k, v) (bheap_contents h)"
proof -
  let ?n = "m_size h" and ?es = "(m_elements h)[m_size h := (k, v)]"
  have n: "?n < length (m_elements h)" using assms(2) by (simp add: bheap_capacity_def)
  have o: "ordered_from 0 ?n (key (m_elements h))" using assms(1) by (simp add: bheap_ok_def)
  have "key ?es j = key (m_elements h) j" if "j < ?n" for j using that by (simp add: key_def)
  then have "rising (Suc ?n) ?n (key ?es)"
    using o by (intro rising_fresh)
  then obtain es' where es': "heapify_up ?es ?n = Inr es'" "ordered_from 0 (Suc ?n) (key es')" "length es' = length ?es"
      "mset (take (Suc ?n) es') = mset (take (Suc ?n) ?es)"
    using heapify_up_spec [of "Suc ?n" ?n ?es] n by auto
  have "take (Suc ?n) ?es = take ?n (m_elements h) @ [(k, v)]" using n by (simp add: take_Suc_conv_app_nth)
  then show ?thesis using es' n
    by (simp add: BinaryHeap_insert_def write_at_def bheap_ok_def bheap_capacity_def bheap_contents_def)
qed

lemma pop_min_spec:
  assumes "bheap_ok h" "bheap_contents h \<noteq> {#}"
  shows "\<exists>k v h'. BinaryHeap_pop_min h = Inr (v, h') \<and> bheap_ok h' \<and> bheap_capacity h' = bheap_capacity h \<and>
    bheap_contents h = add_mset (k, v) (bheap_contents h') \<and> (\<forall>e. e \<in># bheap_contents h \<longrightarrow> k \<le> fst e)"
proof -
  let ?es = "m_elements h" and ?n = "m_size h - 1"
  have s: "0 < m_size h" using assms by (metis size_contents size_empty size_eq_0_iff_empty gr0I)
  have len: "m_size h \<le> length ?es" and o: "ordered_from 0 (m_size h) (key ?es)" using assms(1) by (simp_all add: bheap_ok_def)
  have b: "0 < length ?es" "?n < length ?es" using s len by linarith+
  let ?sw = "swapped ?es 0 ?n"
  have swap: "swap_at ?es 0 ?n = Inr ?sw" by (rule swap_ok [OF b])
  have "key ?sw j = key ?es j" if "0 < j" "j < ?n" for j using that by (simp add: key_def)
  then have "sinking 0 ?n 0 (key ?sw)"
    using o by (intro sinking_fresh [of "m_size h" "key ?es"]) simp_all
  then obtain es' where es': "heapify_down ?n ?sw 0 = Inr es'" "ordered_from 0 ?n (key es')" "length es' = length ?es"
      "mset (take ?n es') = mset (take ?n ?sw)" "drop ?n es' = drop ?n ?sw"
    using heapify_down_spec [of 0 ?n 0 ?sw] b by auto
  have "?sw ! ?n = ?es ! 0" using b by (cases "?n = 0") simp_all
  then have last: "es' ! ?n = ?es ! 0"
    using arg_cong [OF es'(5), of hd] b es'(3) by (simp add: hd_drop_conv_nth)
  have "take (m_size h) ?sw = take ?n ?sw @ [?es ! 0]"
    using s b \<open>?sw ! ?n = ?es ! 0\<close> take_Suc_conv_app_nth [of ?n ?sw] by simp
  then have split: "bheap_contents h = add_mset (?es ! 0) (mset (take ?n es'))"
    using mset_take_swapped [of 0 "m_size h" ?n ?es] s len es'(4) by (simp add: bheap_contents_def)
  have least: "key ?es 0 \<le> fst e" if "e \<in># bheap_contents h" for e
  proof -
    obtain j where "j < m_size h" "e = ?es ! j"
      using \<open>e \<in># bheap_contents h\<close> len by (auto simp: bheap_contents_def in_set_conv_nth)
    then show ?thesis using root_least [OF o] by (simp add: key_def)
  qed
  have "BinaryHeap_pop_min h = Inr (snd (?es ! 0), \<lparr>m_elements = es', m_size = ?n\<rparr>)"
    using s swap es'(1,3) last b by (simp add: BinaryHeap_pop_min_def BinaryHeap_is_empty_def read_at_def Let_def)
  then show ?thesis using es'(2,3) b split least
    by (intro exI [of _ "fst (?es ! 0)"] exI [of _ "snd (?es ! 0)"] exI)
      (auto simp: bheap_ok_def bheap_contents_def bheap_capacity_def key_def)
qed

text \<open>
  A priority queue, by what is in it: an insertion adds an element while there is room, taking the
  least removes an element of least key and gives its value. Emptying it then gives the values in
  the order of their keys.
\<close>

locale priority_queue =
  fixes ok :: "'h \<Rightarrow> bool" and abs :: "'h \<Rightarrow> ('k::linorder \<times> 'v) multiset" and cap :: "'h \<Rightarrow> nat"
    and ins :: "'h \<Rightarrow> 'k \<Rightarrow> 'v \<Rightarrow> 'h res" and pop :: "'h \<Rightarrow> ('v \<times> 'h) res"
  assumes ins_law: "ok h \<Longrightarrow> size (abs h) < cap h \<Longrightarrow>
      \<exists>h'. ins h k v = Inr h' \<and> ok h' \<and> cap h' = cap h \<and> abs h' = add_mset (k, v) (abs h)"
    and ins_full: "ok h \<Longrightarrow> size (abs h) = cap h \<Longrightarrow> ins h k v = Inl Verify_Failed"
    and pop_law: "ok h \<Longrightarrow> abs h \<noteq> {#} \<Longrightarrow>
      \<exists>k v h'. pop h = Inr (v, h') \<and> ok h' \<and> cap h' = cap h \<and> abs h = add_mset (k, v) (abs h') \<and>
        (\<forall>e. e \<in># abs h \<longrightarrow> k \<le> fst e)"
    and pop_empty: "ok h \<Longrightarrow> abs h = {#} \<Longrightarrow> pop h = Inl Verify_Failed"

fun insert_all :: "('h \<Rightarrow> 'k \<Rightarrow> 'v \<Rightarrow> 'h res) \<Rightarrow> ('k \<times> 'v) list \<Rightarrow> 'h \<Rightarrow> 'h res" where
  "insert_all ins [] h = Inr h"
| "insert_all ins ((k, v) # kvs) h = rbind (ins h k v) (insert_all ins kvs)"

fun pop_all :: "('h \<Rightarrow> ('v \<times> 'h) res) \<Rightarrow> nat \<Rightarrow> 'h \<Rightarrow> ('v list \<times> 'h) res" where
  "pop_all pop 0 h = Inr ([], h)"
| "pop_all pop (Suc n) h = rbind (pop h) (\<lambda>(v, h). rbind (pop_all pop n h) (\<lambda>(vs, h). Inr (v # vs, h)))"

context priority_queue
begin

lemma insert_all_law:
  "ok h \<Longrightarrow> size (abs h) + length kvs \<le> cap h \<Longrightarrow>
   \<exists>h'. insert_all ins kvs h = Inr h' \<and> ok h' \<and> cap h' = cap h \<and> abs h' = abs h + mset kvs"
proof (induction kvs arbitrary: h)
  case (Cons kv kvs)
  obtain k v where kv: "kv = (k, v)" by fastforce
  obtain h' where h': "ins h k v = Inr h'" "ok h'" "cap h' = cap h" "abs h' = add_mset (k, v) (abs h)"
    using ins_law [OF Cons.prems(1)] Cons.prems(2) by fastforce
  show ?case using Cons.IH [OF h'(2)] Cons.prems(2) h' kv by auto
qed simp

lemma pop_all_law:
  "ok h \<Longrightarrow> size (abs h) = n \<Longrightarrow>
   \<exists>kvs h'. pop_all pop n h = Inr (map snd kvs, h') \<and> ok h' \<and> abs h' = {#} \<and> mset kvs = abs h \<and> sorted (map fst kvs)"
proof (induction n arbitrary: h)
  case 0
  then show ?case by (intro exI [of _ "[]"]) simp
next
  case (Suc n)
  then have "abs h \<noteq> {#}" by auto
  then obtain k v h1 where h1: "pop h = Inr (v, h1)" "ok h1" "abs h = add_mset (k, v) (abs h1)"
      "\<forall>e. e \<in># abs h \<longrightarrow> k \<le> fst e" using pop_law [OF Suc.prems(1)] by blast
  have "size (abs h1) = n" using h1(3) Suc.prems(2) by simp
  then obtain kvs h2 where h2: "pop_all pop n h1 = Inr (map snd kvs, h2)" "ok h2" "abs h2 = {#}" "mset kvs = abs h1"
      "sorted (map fst kvs)" using Suc.IH [OF h1(2)] by blast
  have "k \<le> fst e" if "e \<in> set kvs" for e
    using h1(3,4) h2(4) that by (metis in_multiset_in_set insert_iff set_mset_add_mset_insert set_mset_mset)
  then have "sorted (map fst ((k, v) # kvs))" using h2(5) by simp
  moreover have "mset ((k, v) # kvs) = abs h" using h1(3) h2(4) by simp
  moreover have "pop_all pop (Suc n) h = Inr (map snd ((k, v) # kvs), h2)" using h1(1) h2(1) by simp
  ultimately show ?case using h2(2,3) by blast
qed

lemma sorts:
  assumes "ok h" "abs h = {#}" "length kvs \<le> cap h"
  shows "\<exists>h1 out h2. insert_all ins kvs h = Inr h1 \<and> pop_all pop (length kvs) h1 = Inr (map snd out, h2) \<and>
    ok h2 \<and> abs h2 = {#} \<and> mset out = mset kvs \<and> sorted (map fst out)"
proof -
  obtain h1 where h1: "insert_all ins kvs h = Inr h1" "ok h1" "abs h1 = mset kvs"
    using insert_all_law [OF assms(1)] assms(2,3) by auto
  have "size (abs h1) = length kvs" using h1(3) by simp
  then show ?thesis using pop_all_law [OF h1(2)] h1 by metis
qed

end

interpretation binary_heap_queue: priority_queue bheap_ok bheap_contents bheap_capacity BinaryHeap_insert BinaryHeap_pop_min
proof
  fix h :: "('k::linorder, 'v) binary_heap" and k v
  assume ok: "bheap_ok h"
  show "\<exists>h'. BinaryHeap_insert h k v = Inr h' \<and> bheap_ok h' \<and> bheap_capacity h' = bheap_capacity h \<and>
      bheap_contents h' = add_mset (k, v) (bheap_contents h)" if "size (bheap_contents h) < bheap_capacity h"
    using insert_spec [OF ok] that by (simp add: size_contents ok)
  show "BinaryHeap_insert h k v = Inl Verify_Failed" if "size (bheap_contents h) = bheap_capacity h"
    using that by (simp add: size_contents ok BinaryHeap_insert_def bheap_capacity_def)
  show "\<exists>k v h'. BinaryHeap_pop_min h = Inr (v, h') \<and> bheap_ok h' \<and> bheap_capacity h' = bheap_capacity h \<and>
      bheap_contents h = add_mset (k, v) (bheap_contents h') \<and> (\<forall>e. e \<in># bheap_contents h \<longrightarrow> k \<le> fst e)"
    if "bheap_contents h \<noteq> {#}" using pop_min_spec [OF ok that] .
  show "BinaryHeap_pop_min h = Inl Verify_Failed" if "bheap_contents h = {#}"
    using that size_contents [OF ok] by (simp add: BinaryHeap_pop_min_def BinaryHeap_is_empty_def)
qed

lemma create_bheap: "bheap_ok (BinaryHeap_create storage)" "bheap_contents (BinaryHeap_create storage) = {#}"
  "bheap_capacity (BinaryHeap_create storage) = length storage"
  by (simp_all add: BinaryHeap_create_def bheap_ok_def bheap_contents_def bheap_capacity_def ordered_from_def)

end
