(* ===== verification/Sorting.thy ===== *)
theory Sorting
  imports Prelude "HOL-Library.Multiset"
begin

text \<open>
  \<open>base/QuickSort.h\<close> and \<open>base/BinarySearch.h\<close>. The collection is a list and the \<open>int\<close>
  positions of the code are integers; the element access of the collection checks the position, a
  negative one being converted to a large \<open>size_t\<close>. The pivots are references to the ends of the
  range and are read there. The recursion of the sorts is a partial function: that it returns is
  part of the theorems.

  The comparison is a strict weak order, the locale \<open>strict_weak_order\<close>; what a caller relies on is
  the locale \<open>sorting_routine\<close>, of which both sorts are instances.
\<close>

section \<open>The sort of a collection\<close>

definition col_at :: "'a list \<Rightarrow> int \<Rightarrow> 'a res" where
  "col_at col i = vec_at col (nat (i mod 2 ^ 32))"

definition col_swap :: "'a list \<Rightarrow> int \<Rightarrow> int \<Rightarrow> 'a list res" where
  "col_swap col i j =
     rbind (col_at col i) (\<lambda>a. rbind (col_at col j) (\<lambda>b.
     rbind (vec_set col (nat (i mod 2 ^ 32)) b) (\<lambda>col. vec_set col (nat (j mod 2 ^ 32)) a)))"

definition col_less :: "('a \<Rightarrow> 'a \<Rightarrow> bool) \<Rightarrow> 'a list \<Rightarrow> int \<Rightarrow> int \<Rightarrow> bool res" where
  "col_less lt col i j =
     rbind (col_at col i) (\<lambda>a. rbind (col_at col j) (\<lambda>b. Inr (lt a b)))"

definition choose_pivots :: "('a \<Rightarrow> 'a \<Rightarrow> bool) \<Rightarrow> 'a list \<Rightarrow> int \<Rightarrow> int \<Rightarrow> 'a list res" where
  "choose_pivots lt col start fin =
     (let len = fin - start + 1 in
      if len > 3 then
        let third = len div 3 in
        rbind (col_less lt col (start + third) (fin - third)) (\<lambda>below.
        if below then
          rbind (col_swap col (start + third) start) (\<lambda>col. col_swap col (fin - third) fin)
        else
          rbind (col_swap col (start + third) fin) (\<lambda>col. col_swap col (fin - third) start))
      else
        rbind (col_less lt col start fin) (\<lambda>below.
        if \<not> below then col_swap col start fin else Inr col))"

function skip_large :: "('a \<Rightarrow> 'a \<Rightarrow> bool) \<Rightarrow> 'a list \<Rightarrow> int \<Rightarrow> int \<Rightarrow> int \<Rightarrow> int res" where
  "skip_large lt col fin k g =
     (case col_less lt col g fin of
        Inl e \<Rightarrow> Inl e
      | Inr below \<Rightarrow> if \<not> below \<and> k < g then skip_large lt col fin k (g - 1) else Inr g)"
  by pat_completeness auto
termination
  by (relation "measure (\<lambda>(lt, col, fin, k, g). nat (g - k))") auto

definition move_small :: "('a \<Rightarrow> 'a \<Rightarrow> bool) \<Rightarrow> int \<Rightarrow> 'a list \<Rightarrow> int \<Rightarrow> int \<Rightarrow> ('a list \<times> int \<times> bool) res" where
  "move_small lt start col j k =
     rbind (col_less lt col k start) (\<lambda>below.
     if below then rbind (col_swap col k j) (\<lambda>col. Inr (col, j + 1, True)) else Inr (col, j, False))"

definition partition_step ::
  "('a \<Rightarrow> 'a \<Rightarrow> bool) \<Rightarrow> int \<Rightarrow> int \<Rightarrow> 'a list \<Rightarrow> int \<Rightarrow> int \<Rightarrow> int \<Rightarrow> ('a list \<times> int \<times> int) res" where
  "partition_step lt start fin col j k g =
     rbind (move_small lt start col j k) (\<lambda>(col, j, moved).
     if moved then Inr (col, j, g)
     else rbind (col_less lt col k fin) (\<lambda>below.
       if \<not> below then
         rbind (skip_large lt col fin k g) (\<lambda>g.
         rbind (col_swap col k g) (\<lambda>col.
         rbind (move_small lt start col j k) (\<lambda>(col, j, moved). Inr (col, j, g - 1))))
       else Inr (col, j, g)))"

declare skip_large.simps [simp del]

lemma skip_large_le: "skip_large lt col fin k g = Inr g' \<Longrightarrow> g' \<le> g"
  by (induction lt col fin k g rule: skip_large.induct)
    (subst (asm) (2) skip_large.simps, force split: sum.splits if_splits)

lemma partition_step_le: "partition_step lt start fin col j k g = Inr (col', j', g') \<Longrightarrow> g' \<le> g"
  by (auto simp: partition_step_def rbind_Inr_iff split: prod.splits if_splits dest: skip_large_le)

function partition_loop ::
  "('a \<Rightarrow> 'a \<Rightarrow> bool) \<Rightarrow> int \<Rightarrow> int \<Rightarrow> 'a list \<Rightarrow> int \<Rightarrow> int \<Rightarrow> int \<Rightarrow> ('a list \<times> int \<times> int) res" where
  "partition_loop lt start fin col j k g =
     (if k \<le> g then
        (case partition_step lt start fin col j k g of
           Inl e \<Rightarrow> Inl e
         | Inr (col, j, g) \<Rightarrow> partition_loop lt start fin col j (k + 1) g)
      else Inr (col, j, g))"
  by pat_completeness auto
termination
  by (relation "measure (\<lambda>(lt, start, fin, col, j, k, g). nat (g + 1 - k))")
    (auto dest: partition_step_le)

declare partition_loop.simps [simp del]

partial_function (option) dual_pivot_quick_sort ::
  "('a \<Rightarrow> 'a \<Rightarrow> bool) \<Rightarrow> 'a list \<Rightarrow> int \<Rightarrow> int \<Rightarrow> 'a list res option" where
  "dual_pivot_quick_sort lt col start fin =
     (if start < fin then
        lift_res (choose_pivots lt col start fin) (\<lambda>col.
        lift_res (partition_loop lt start fin col (start + 1) (start + 1) (fin - 1)) (\<lambda>(col, j, g).
        let left_pointer = j - 1; right_pointer = g + 1 in
        lift_res (col_swap col start left_pointer) (\<lambda>col.
        lift_res (col_swap col fin right_pointer) (\<lambda>col.
        let left_size = left_pointer - start;
            middle_size = right_pointer - (left_pointer + 1);
            right_size = (fin + 1) - (right_pointer + 1) in
        if left_size \<ge> middle_size \<and> left_size \<ge> right_size then
          xbind (dual_pivot_quick_sort lt col (left_pointer + 1) (right_pointer - 1)) (\<lambda>col.
          xbind (dual_pivot_quick_sort lt col (right_pointer + 1) fin) (\<lambda>col.
          dual_pivot_quick_sort lt col start (left_pointer - 1)))
        else if middle_size \<ge> right_size then
          xbind (dual_pivot_quick_sort lt col start (left_pointer - 1)) (\<lambda>col.
          xbind (dual_pivot_quick_sort lt col (right_pointer + 1) fin) (\<lambda>col.
          dual_pivot_quick_sort lt col (left_pointer + 1) (right_pointer - 1)))
        else
          xbind (dual_pivot_quick_sort lt col start (left_pointer - 1)) (\<lambda>col.
          xbind (dual_pivot_quick_sort lt col (left_pointer + 1) (right_pointer - 1)) (\<lambda>col.
          dual_pivot_quick_sort lt col (right_pointer + 1) fin))))))
      else Some (Inr col))"

text \<open>\<open>quick_sort\<close> of a collection, with the comparison and with the default one.\<close>

definition quick_sort_collection_with :: "('a \<Rightarrow> 'a \<Rightarrow> bool) \<Rightarrow> 'a list \<Rightarrow> 'a list res option" where
  "quick_sort_collection_with lt collection =
     dual_pivot_quick_sort lt collection 0 (int (length collection) - 1)"

definition quick_sort_collection :: "'a::linorder list \<Rightarrow> 'a list res option" where
  "quick_sort_collection collection =
     dual_pivot_quick_sort (\<lambda>a b. a < b) collection 0 (int (length collection) - 1)"

section \<open>The sort of a range of iterators\<close>

function single_pivot_loop ::
  "('a \<Rightarrow> 'a \<Rightarrow> bool) \<Rightarrow> int \<Rightarrow> int \<Rightarrow> 'a list \<Rightarrow> int \<Rightarrow> int \<Rightarrow> ('a list \<times> int) res" where
  "single_pivot_loop lt start len col i j =
     (if j < len then
        (case col_less lt col (start + j) start of
           Inl e \<Rightarrow> Inl e
         | Inr below \<Rightarrow>
             if below then
               (case col_swap col (start + j) (start + i) of
                  Inl e \<Rightarrow> Inl e
                | Inr col \<Rightarrow> single_pivot_loop lt start len col (i + 1) (j + 1))
             else single_pivot_loop lt start len col i (j + 1))
      else Inr (col, i))"
  by pat_completeness auto
termination
  by (relation "measure (\<lambda>(lt, start, len, col, i, j). nat (len - j))") auto

declare single_pivot_loop.simps [simp del]

partial_function (option) single_pivot_quick_sort ::
  "('a \<Rightarrow> 'a \<Rightarrow> bool) \<Rightarrow> 'a list \<Rightarrow> int \<Rightarrow> int \<Rightarrow> 'a list res option" where
  "single_pivot_quick_sort lt col start stop =
     (let len = stop - start in
      if len \<le> 1 then Some (Inr col)
      else
        let pivot_point = len div 2 in
        lift_res (if pivot_point \<noteq> 0 then col_swap col (start + pivot_point) start else Inr col) (\<lambda>col.
        lift_res (single_pivot_loop lt start len col 1 1) (\<lambda>(col, i).
        lift_res (col_swap col start (start + i - 1)) (\<lambda>col.
        if i > len div 2 then
          xbind (single_pivot_quick_sort lt col (start + i) stop) (\<lambda>col.
          single_pivot_quick_sort lt col start (start + i - 1))
        else
          xbind (single_pivot_quick_sort lt col start (start + i - 1)) (\<lambda>col.
          single_pivot_quick_sort lt col (start + i) stop)))))"

definition quick_sort_range_with :: "('a \<Rightarrow> 'a \<Rightarrow> bool) \<Rightarrow> 'a list \<Rightarrow> int \<Rightarrow> int \<Rightarrow> 'a list res option" where
  "quick_sort_range_with lt col start stop = single_pivot_quick_sort lt col start stop"

definition quick_sort_range :: "'a::linorder list \<Rightarrow> int \<Rightarrow> int \<Rightarrow> 'a list res option" where
  "quick_sort_range col start stop = single_pivot_quick_sort (\<lambda>a b. a < b) col start stop"

text \<open>A call with the iterators of the whole collection.\<close>

abbreviation whole_range :: "('a list \<Rightarrow> int \<Rightarrow> int \<Rightarrow> 'a list res option) \<Rightarrow> 'a list \<Rightarrow> 'a list res option" where
  "whole_range qs col \<equiv> qs col 0 (int (length col))"

section \<open>Binary search\<close>

definition DefaultComparator :: "'a::linorder \<Rightarrow> 'a \<Rightarrow> int" where
  "DefaultComparator lhs rhs = (if lhs > rhs then 1 else if lhs < rhs then - 1 else 0)"

function binary_search_loop ::
  "('n \<Rightarrow> 'a \<Rightarrow> int) \<Rightarrow> 'a list \<Rightarrow> 'n \<Rightarrow> nat \<Rightarrow> nat \<Rightarrow> (nat option \<times> nat) res" where
  "binary_search_loop comparator haystack needle low high =
     (if low \<le> high then
        let middle = low + (high - low) div 2 in
        (case vec_at haystack middle of
           Inl e \<Rightarrow> Inl e
         | Inr element \<Rightarrow>
             let comparison = comparator needle element in
             if comparison < 0 then
               if middle \<noteq> 0 then binary_search_loop comparator haystack needle low (middle - 1)
               else Inr (None, min low high)
             else if comparison > 0 then binary_search_loop comparator haystack needle (middle + 1) high
             else Inr (Some middle, middle))
      else Inr (None, min low high))"
  by pat_completeness auto
termination
  by (relation "measure (\<lambda>(comparator, haystack, needle, low, high). high + 1 - low)") auto

declare binary_search_loop.simps [simp del]

text \<open>The index of the element found, and what is stored through \<open>nearby_index\<close>.\<close>

definition binary_search :: "('n \<Rightarrow> 'a \<Rightarrow> int) \<Rightarrow> 'a list \<Rightarrow> 'n \<Rightarrow> (nat option \<times> nat) res" where
  "binary_search comparator haystack needle =
     (if length haystack = 0 then Inr (None, 0)
      else binary_search_loop comparator haystack needle 0 (length haystack - 1))"

section \<open>Ranges\<close>

text \<open>The element at a position, and rearrangements of the elements between two positions.\<close>

abbreviation elt :: "'a list \<Rightarrow> int \<Rightarrow> 'a" where
  "elt xs i \<equiv> xs ! nat i"

definition inside :: "'a list \<Rightarrow> int \<Rightarrow> bool" where
  "inside xs i \<longleftrightarrow> 0 \<le> i \<and> i < int (length xs) \<and> length xs < 2 ^ 31"

definition swapped_at :: "'a list \<Rightarrow> int \<Rightarrow> int \<Rightarrow> 'a list" where
  "swapped_at xs i j = xs[nat i := elt xs j, nat j := elt xs i]"

definition shuffled :: "int \<Rightarrow> int \<Rightarrow> 'a list \<Rightarrow> 'a list \<Rightarrow> bool" where
  "shuffled s e xs ys \<longleftrightarrow> length ys = length xs \<and> mset ys = mset xs \<and>
     (\<forall>i. 0 \<le> i \<longrightarrow> (i < s \<or> e < i) \<longrightarrow> elt ys i = elt xs i) \<and>
     (\<forall>i. s \<le> i \<longrightarrow> i \<le> e \<longrightarrow> (\<exists>k. s \<le> k \<and> k \<le> e \<and> elt ys i = elt xs k))"

lemma inside_mod: "inside xs i \<Longrightarrow> i mod 2 ^ 32 = i \<and> nat i < length xs"
  by (auto simp: inside_def)

lemma inside_between: "inside xs a \<Longrightarrow> inside xs b \<Longrightarrow> a \<le> i \<Longrightarrow> i \<le> b \<Longrightarrow> inside xs i"
  by (auto simp: inside_def)

lemma col_at_inside [simp]: "inside xs i \<Longrightarrow> col_at xs i = Inr (elt xs i)"
  by (drule inside_mod) (simp add: col_at_def vec_at_def verify_def)

lemma col_less_inside [simp]: "inside xs i \<Longrightarrow> inside xs j \<Longrightarrow> col_less lt xs i j = Inr (lt (elt xs i) (elt xs j))"
  by (simp add: col_less_def)

lemma col_swap_inside [simp]: "inside xs i \<Longrightarrow> inside xs j \<Longrightarrow> col_swap xs i j = Inr (swapped_at xs i j)"
  using inside_mod [of xs i] inside_mod [of xs j]
  by (simp add: col_swap_def vec_set_def verify_def swapped_at_def)

lemma length_swapped [simp]: "length (swapped_at xs i j) = length xs"
  by (simp add: swapped_at_def)

lemma inside_swapped [simp]: "inside (swapped_at xs i j) k = inside xs k"
  by (simp add: inside_def)

lemma elt_swapped:
  assumes "inside xs i" "inside xs j" "0 \<le> k"
  shows "elt (swapped_at xs i j) k = (if k = i then elt xs j else if k = j then elt xs i else elt xs k)"
  using assms by (auto simp: swapped_at_def inside_def nth_list_update eq_nat_nat_iff)

lemma shuffled_refl [simp]: "shuffled s e xs xs"
  by (auto simp: shuffled_def)

lemma shuffled_length: "shuffled s e xs ys \<Longrightarrow> length ys = length xs"
  by (simp add: shuffled_def)

lemma shuffled_inside: "shuffled s e xs ys \<Longrightarrow> inside ys i = inside xs i"
  by (simp add: shuffled_def inside_def)

lemma shuffled_outside: "shuffled s e xs ys \<Longrightarrow> 0 \<le> i \<Longrightarrow> i < s \<or> e < i \<Longrightarrow> elt ys i = elt xs i"
  by (auto simp: shuffled_def)

lemma shuffled_source:
  assumes "shuffled s e xs ys" "s \<le> i" "i \<le> e"
  obtains k where "s \<le> k" "k \<le> e" "elt ys i = elt xs k"
  using assms unfolding shuffled_def by blast

lemma shuffled_within:
  assumes "shuffled s e xs ys" "\<And>k. s \<le> k \<Longrightarrow> k \<le> e \<Longrightarrow> P (elt xs k)" "s \<le> i" "i \<le> e"
  shows "P (elt ys i)"
proof -
  obtain k where "s \<le> k" "k \<le> e" "elt ys i = elt xs k" using shuffled_source [OF assms(1,3,4)] .
  then show ?thesis using assms(2) [of k] by simp
qed

lemma shuffled_trans:
  assumes "shuffled s e xs ys" "shuffled s e ys zs"
  shows "shuffled s e xs zs"
proof -
  have "\<exists>k. s \<le> k \<and> k \<le> e \<and> elt zs i = elt xs k" if i: "s \<le> i" "i \<le> e" for i
  proof -
    obtain k where k: "s \<le> k" "k \<le> e" "elt zs i = elt ys k" using shuffled_source [OF assms(2) i] .
    obtain l where "s \<le> l" "l \<le> e" "elt ys k = elt xs l" using shuffled_source [OF assms(1) k(1,2)] .
    then show ?thesis using k(3) by auto
  qed
  then show ?thesis using assms by (simp add: shuffled_def)
qed

lemma shuffled_widen:
  assumes "shuffled a b xs ys" "s \<le> a" "b \<le> e" "0 \<le> s"
  shows "shuffled s e xs ys"
proof -
  have "\<exists>k. s \<le> k \<and> k \<le> e \<and> elt ys i = elt xs k" if "s \<le> i" "i \<le> e" for i
  proof (cases "a \<le> i \<and> i \<le> b")
    case True
    then obtain k where k: "a \<le> k" "k \<le> b" "elt ys i = elt xs k" using shuffled_source [OF assms(1)] by blast
    show ?thesis using k assms(2,3) by (intro exI [of _ k]) simp
  next
    case False
    then have "elt ys i = elt xs i" using shuffled_outside [OF assms(1), of i] assms(4) that by linarith
    then show ?thesis using that by (intro exI [of _ i]) simp
  qed
  then show ?thesis using assms by (simp add: shuffled_def)
qed

lemma shuffled_swap:
  assumes "inside xs i" "inside xs j" "s \<le> i" "i \<le> e" "s \<le> j" "j \<le> e" "0 \<le> s"
  shows "shuffled s e xs (swapped_at xs i j)"
proof -
  have "mset (swapped_at xs i j) = mset xs"
    using assms inside_mod [OF assms(1)] inside_mod [OF assms(2)] by (simp add: swapped_at_def mset_swap)
  moreover have "\<exists>k. s \<le> k \<and> k \<le> e \<and> elt (swapped_at xs i j) l = elt xs k" if "s \<le> l" "l \<le> e" for l
    using assms that by (auto simp: elt_swapped)
  ultimately show ?thesis using assms by (auto simp: shuffled_def elt_swapped)
qed

section \<open>Ordered ranges\<close>

locale strict_weak_order =
  fixes lt :: "'a \<Rightarrow> 'a \<Rightarrow> bool"
  assumes irreflexive: "\<not> lt a a"
    and transitive: "lt a b \<Longrightarrow> lt b c \<Longrightarrow> lt a c"
    and not_below_transitive: "\<not> lt a b \<Longrightarrow> \<not> lt b c \<Longrightarrow> \<not> lt a c"

definition ordered_range :: "('a \<Rightarrow> 'a \<Rightarrow> bool) \<Rightarrow> 'a list \<Rightarrow> int \<Rightarrow> int \<Rightarrow> bool" where
  "ordered_range lt xs s e \<longleftrightarrow> (\<forall>i j. s \<le> i \<longrightarrow> i < j \<longrightarrow> j \<le> e \<longrightarrow> \<not> lt (elt xs j) (elt xs i))"

lemma ordered_range_short: "e \<le> s \<Longrightarrow> ordered_range lt xs s e"
  by (auto simp: ordered_range_def)

lemma ordered_range_outside:
  assumes "ordered_range lt xs a b" "shuffled s e xs ys" "b < s \<or> e < a" "0 \<le> a"
  shows "ordered_range lt ys a b"
proof -
  have "elt ys i = elt xs i" if "a \<le> i" "i \<le> b" for i
    using shuffled_outside [OF assms(2), of i] assms(3,4) that by auto
  then show ?thesis using assms(1) by (auto simp: ordered_range_def)
qed

text \<open>A pivot in its place: nothing before it is above it, nothing after it below it.\<close>

definition in_place :: "('a \<Rightarrow> 'a \<Rightarrow> bool) \<Rightarrow> 'a list \<Rightarrow> int \<Rightarrow> int \<Rightarrow> int \<Rightarrow> bool" where
  "in_place lt xs s m e \<longleftrightarrow>
     (\<forall>i. s \<le> i \<longrightarrow> i < m \<longrightarrow> \<not> lt (elt xs m) (elt xs i)) \<and> (\<forall>i. m < i \<longrightarrow> i \<le> e \<longrightarrow> \<not> lt (elt xs i) (elt xs m))"

lemma in_place_shuffled:
  assumes "in_place lt xs s m e" "shuffled a b xs ys" "s \<le> a \<and> b < m \<or> m < a \<and> b \<le> e" "s \<le> m" "m \<le> e" "0 \<le> s"
  shows "in_place lt ys s m e"
proof -
  have m: "elt ys m = elt xs m" using shuffled_outside [OF assms(2), of m] assms by auto
  have "\<not> lt (elt ys m) (elt ys i)" if i: "s \<le> i" "i < m" for i
  proof (cases "a \<le> i \<and> i \<le> b")
    case True
    have "\<not> lt (elt xs m) (elt ys i)"
      by (rule shuffled_within [OF assms(2)]) (use assms i True in \<open>auto simp: in_place_def\<close>)
    then show ?thesis by (simp add: m)
  next
    case False
    then show ?thesis using shuffled_outside [OF assms(2), of i] assms i m by (auto simp: in_place_def)
  qed
  moreover have "\<not> lt (elt ys i) (elt ys m)" if i: "m < i" "i \<le> e" for i
  proof (cases "a \<le> i \<and> i \<le> b")
    case True
    have "\<not> lt (elt ys i) (elt xs m)"
      by (rule shuffled_within [OF assms(2)]) (use assms i True in \<open>auto simp: in_place_def\<close>)
    then show ?thesis by (simp add: m)
  next
    case False
    then show ?thesis using shuffled_outside [OF assms(2), of i] assms i m by (auto simp: in_place_def)
  qed
  ultimately show ?thesis by (auto simp: in_place_def)
qed

text \<open>What the partition around two pivots keeps, and what the one around one pivot does.\<close>

definition split_at :: "('a \<Rightarrow> 'a \<Rightarrow> bool) \<Rightarrow> 'a list \<Rightarrow> int \<Rightarrow> int \<Rightarrow> int \<Rightarrow> int \<Rightarrow> int \<Rightarrow> bool" where
  "split_at lt xs s e j k g \<longleftrightarrow>
     s < j \<and> j \<le> k \<and> j \<le> g + 1 \<and> k \<le> g + 2 \<and> g < e \<and>
     (\<forall>i. s < i \<longrightarrow> i < j \<longrightarrow> lt (elt xs i) (elt xs s)) \<and>
     (\<forall>i. j \<le> i \<longrightarrow> i < k \<longrightarrow> i \<le> g \<longrightarrow> \<not> lt (elt xs i) (elt xs s) \<and> lt (elt xs i) (elt xs e)) \<and>
     (\<forall>i. g < i \<longrightarrow> i < e \<longrightarrow> \<not> lt (elt xs i) (elt xs e))"

lemma skip_large_spec:
  assumes "inside xs k" "inside xs e" "inside xs g" "k \<le> g"
  shows "\<exists>g'. skip_large lt xs e k g = Inr g' \<and> k \<le> g' \<and> g' \<le> g \<and>
    (\<forall>i. g' < i \<longrightarrow> i \<le> g \<longrightarrow> \<not> lt (elt xs i) (elt xs e)) \<and> (lt (elt xs g') (elt xs e) \<or> g' = k)"
  using assms
proof (induction "nat (g - k)" arbitrary: g)
  case 0
  then show ?case by (subst skip_large.simps) auto
next
  case (Suc n)
  show ?case
  proof (cases "lt (elt xs g) (elt xs e) \<or> g = k")
    case True
    then show ?thesis using Suc.prems by (subst skip_large.simps) auto
  next
    case False
    have "inside xs (g - 1)" using inside_between [OF Suc.prems(1,3)] Suc.prems(4) False by simp
    then obtain g' where g': "skip_large lt xs e k (g - 1) = Inr g'" "k \<le> g'" "g' \<le> g - 1"
        "\<forall>i. g' < i \<longrightarrow> i \<le> g - 1 \<longrightarrow> \<not> lt (elt xs i) (elt xs e)" "lt (elt xs g') (elt xs e) \<or> g' = k"
      using Suc.hyps(1) [of "g - 1"] Suc.hyps(2) Suc.prems False by fastforce
    have "\<not> lt (elt xs i) (elt xs e)" if "g' < i" "i \<le> g" for i
      using g'(4) False that by (cases "i = g") auto
    then show ?thesis using g' False Suc.prems by (subst skip_large.simps) auto
  qed
qed

lemma split_small:
  assumes "split_at lt xs s e j k g" "inside xs s" "inside xs e" "k \<le> g" "lt (elt xs k) (elt xs s)"
  shows "split_at lt (swapped_at xs k j) s e (j + 1) (k + 1) g"
proof -
  have b: "s < j" "j \<le> k" "k < e" "0 \<le> s" using assms by (auto simp: split_at_def inside_def)
  have ins: "inside xs j" "inside xs k" using inside_between [OF assms(2,3)] b by simp_all
  show ?thesis using assms(1,4,5) b unfolding split_at_def
    by (auto simp: elt_swapped ins)
qed

lemma split_middle:
  assumes "split_at lt xs s e j k g" "k \<le> g" "\<not> lt (elt xs k) (elt xs s)" "lt (elt xs k) (elt xs e)"
  shows "split_at lt xs s e j (k + 1) g"
proof -
  have "\<not> lt (elt xs i) (elt xs s) \<and> lt (elt xs i) (elt xs e)" if "j \<le> i" "i < k + 1" "i \<le> g" for i
    using assms that unfolding split_at_def by (cases "i = k") auto
  then show ?thesis using assms unfolding split_at_def by auto
qed

lemma split_large:
  assumes "split_at lt xs s e j k g" "inside xs s" "inside xs e" "k < h" "h \<le> g" "\<not> lt (elt xs k) (elt xs e)"
    and "\<forall>i. h < i \<longrightarrow> i \<le> g \<longrightarrow> \<not> lt (elt xs i) (elt xs e)"
  shows "split_at lt (swapped_at xs k h) s e j k (h - 1)"
proof -
  have b: "s < j" "j \<le> k" "h < e" "0 \<le> s" using assms by (auto simp: split_at_def inside_def)
  have ins: "inside xs h" "inside xs k" using inside_between [OF assms(2,3)] b assms(4) by simp_all
  have "\<not> lt (elt (swapped_at xs k h) i) (elt (swapped_at xs k h) e)" if i: "h - 1 < i" "i < e" for i
  proof -
    consider "i = h" | "h < i" "i \<le> g" | "g < i" using i by linarith
    then show ?thesis using assms b i unfolding split_at_def by cases (simp_all add: elt_swapped ins)
  qed
  moreover have "lt (elt (swapped_at xs k h) i) (elt (swapped_at xs k h) s)" if "s < i" "i < j" for i
    using assms(1,4) b that unfolding split_at_def by (simp add: elt_swapped ins)
  moreover have "\<not> lt (elt (swapped_at xs k h) i) (elt (swapped_at xs k h) s) \<and> lt (elt (swapped_at xs k h) i) (elt (swapped_at xs k h) e)"
    if "j \<le> i" "i < k" for i
    using assms(1,4,5) b that unfolding split_at_def by (simp add: elt_swapped ins)
  ultimately show ?thesis using b assms(4) unfolding split_at_def by simp
qed

lemma split_last:
  assumes "split_at lt xs s e j k g" "k \<le> g" "\<not> lt (elt xs k) (elt xs e)"
    and "\<forall>i. k < i \<longrightarrow> i \<le> g \<longrightarrow> \<not> lt (elt xs i) (elt xs e)"
  shows "split_at lt xs s e j (k + 1) (k - 1)"
proof -
  have "\<not> lt (elt xs i) (elt xs e)" if i: "k - 1 < i" "i < e" for i
  proof -
    consider "i = k" | "k < i" "i \<le> g" | "g < i" using i by linarith
    then show ?thesis using assms i unfolding split_at_def by cases simp_all
  qed
  then show ?thesis using assms unfolding split_at_def by simp
qed

lemma swapped_self [simp]: "inside xs i \<Longrightarrow> swapped_at xs i i = xs"
  by (simp add: swapped_at_def)

definition split_below :: "('a \<Rightarrow> 'a \<Rightarrow> bool) \<Rightarrow> 'a list \<Rightarrow> int \<Rightarrow> int \<Rightarrow> int \<Rightarrow> bool" where
  "split_below lt xs s i j \<longleftrightarrow> s < i \<and> i \<le> j \<and>
     (\<forall>l. s < l \<longrightarrow> l < i \<longrightarrow> lt (elt xs l) (elt xs s)) \<and> (\<forall>l. i \<le> l \<longrightarrow> l < j \<longrightarrow> \<not> lt (elt xs l) (elt xs s))"

lemma split_below_small:
  assumes "split_below lt xs s i j" "inside xs s" "inside xs j" "lt (elt xs j) (elt xs s)"
  shows "split_below lt (swapped_at xs j i) s (i + 1) (j + 1)"
proof -
  have b: "s < i" "i \<le> j" "0 \<le> s" using assms by (auto simp: split_below_def inside_def)
  have "inside xs i" using inside_between [OF assms(2,3)] b by simp
  then show ?thesis using assms b unfolding split_below_def by (auto simp: elt_swapped)
qed

lemma split_below_large:
  assumes "split_below lt xs s i j" "\<not> lt (elt xs j) (elt xs s)"
  shows "split_below lt xs s i (j + 1)"
proof -
  have "\<not> lt (elt xs l) (elt xs s)" if "i \<le> l" "l < j + 1" for l
    using assms that unfolding split_below_def by (cases "l = j") auto
  then show ?thesis using assms unfolding split_below_def by auto
qed

lemma single_pivot_loop_spec:
  assumes "split_below lt xs s (s + i) (s + j)" "j \<le> len" "inside xs s" "inside xs (s + len - 1)"
  shows "\<exists>ys i'. single_pivot_loop lt s len xs i j = Inr (ys, i') \<and> split_below lt ys s (s + i') (s + len) \<and>
    shuffled (s + 1) (s + len - 1) xs ys"
  using assms
proof (induction "nat (len - j)" arbitrary: xs i j)
  case 0
  then show ?case by (subst single_pivot_loop.simps) auto
next
  case (Suc n)
  have b: "0 < i" "i \<le> j" "j < len" "0 \<le> s" using Suc.prems Suc.hyps(2) by (auto simp: split_below_def inside_def)
  have ins: "inside xs (s + i)" "inside xs (s + j)" using inside_between [OF Suc.prems(3,4)] b by simp_all
  define ys i' where "ys = (if lt (elt xs (s + j)) (elt xs s) then swapped_at xs (s + j) (s + i) else xs)"
    and "i' = (if lt (elt xs (s + j)) (elt xs s) then i + 1 else i)"
  have step: "single_pivot_loop lt s len xs i j = single_pivot_loop lt s len ys i' (j + 1)"
    by (subst single_pivot_loop.simps) (simp add: b ins Suc.prems ys_def i'_def)
  have "split_below lt ys s (s + i') (s + (j + 1))"
    using split_below_small [OF Suc.prems(1,3) ins(2)] split_below_large [OF Suc.prems(1)]
    by (auto simp: ys_def i'_def algebra_simps)
  moreover have sh: "shuffled (s + 1) (s + len - 1) xs ys"
    using ins b by (auto simp: ys_def intro!: shuffled_swap)
  moreover have "n = nat (len - (j + 1))" using Suc.hyps(2) by linarith
  ultimately obtain zs i2 where "single_pivot_loop lt s len ys i' (j + 1) = Inr (zs, i2)"
      "split_below lt zs s (s + i2) (s + len)" "shuffled (s + 1) (s + len - 1) ys zs"
    using Suc.hyps(1) [of "j + 1" ys i'] Suc.prems(3,4) b(3) shuffled_inside [OF sh] by auto
  then show ?case using step shuffled_trans [OF sh] by auto
qed

context strict_weak_order
begin

lemma asymmetric: "lt a b \<Longrightarrow> \<not> lt b a"
  using transitive irreflexive by blast

lemma ordered_join:
  assumes "in_place lt xs s m e" "ordered_range lt xs s (m - 1)" "ordered_range lt xs (m + 1) e"
  shows "ordered_range lt xs s e"
  unfolding ordered_range_def
proof (intro allI impI)
  fix i j
  assume ij: "s \<le> i" "i < j" "j \<le> e"
  consider "j < m" | "j = m" | "i = m" | "m < i" | "i < m" "m < j" by linarith
  then show "\<not> lt (elt xs j) (elt xs i)"
  proof cases
    case 5
    then have "\<not> lt (elt xs j) (elt xs m)" "\<not> lt (elt xs m) (elt xs i)" using assms(1) ij by (auto simp: in_place_def)
    then show ?thesis by (rule not_below_transitive)
  qed (use assms ij in \<open>auto simp: in_place_def ordered_range_def\<close>)
qed

lemma choose_pivots_spec:
  assumes "inside xs s" "inside xs e" "s < e"
  shows "\<exists>ys. choose_pivots lt xs s e = Inr ys \<and> shuffled s e xs ys \<and> \<not> lt (elt ys e) (elt ys s)"
proof (cases "e - s + 1 > 3")
  case False
  then show ?thesis using assms irreflexive asymmetric
    by (auto simp: choose_pivots_def Let_def elt_swapped inside_def intro!: shuffled_swap)
next
  case True
  define a where "a = s + (e - s + 1) div 3"
  define b where "b = e - (e - s + 1) div 3"
  have ab: "s < a" "a < b" "b < e" using True unfolding a_def b_def by linarith+
  have ins: "inside xs a" "inside xs b" using inside_between [OF assms(1,2)] ab by simp_all
  have s: "0 \<le> s" using assms(1) by (simp add: inside_def)
  have sw: "shuffled s e xs (swapped_at (swapped_at xs a c) b d)" if "c = s \<and> d = e \<or> c = e \<and> d = s" for c d
    using that ab ins s assms by (intro shuffled_trans [OF shuffled_swap shuffled_swap]) auto
  show ?thesis
  proof (cases "lt (elt xs a) (elt xs b)")
    case less: True
    have "choose_pivots lt xs s e = Inr (swapped_at (swapped_at xs a s) b e)"
      using True less ins assms by (simp add: choose_pivots_def Let_def flip: a_def b_def)
    moreover have "\<not> lt (elt (swapped_at (swapped_at xs a s) b e) e) (elt (swapped_at (swapped_at xs a s) b e) s)"
      using less ab ins s assms asymmetric by (simp add: elt_swapped)
    ultimately show ?thesis using sw by blast
  next
    case less: False
    have "choose_pivots lt xs s e = Inr (swapped_at (swapped_at xs a e) b s)"
      using True less ins assms by (simp add: choose_pivots_def Let_def flip: a_def b_def)
    moreover have "\<not> lt (elt (swapped_at (swapped_at xs a e) b s) e) (elt (swapped_at (swapped_at xs a e) b s) s)"
      using less ab ins s assms by (simp add: elt_swapped)
    ultimately show ?thesis using sw by blast
  qed
qed

lemma partition_step_large:
  assumes sp: "split_at lt xs s e j k g" and ins: "inside xs s" "inside xs e" and kg: "k \<le> g"
    and low: "\<not> lt (elt xs k) (elt xs s)" and high: "\<not> lt (elt xs k) (elt xs e)"
  shows "\<exists>ys j' g'. partition_step lt s e xs j k g = Inr (ys, j', g') \<and> split_at lt ys s e j' (k + 1) g' \<and>
    shuffled (s + 1) (e - 1) xs ys"
proof -
  have b: "s < j" "j \<le> k" "g < e" "0 \<le> s" using sp ins by (auto simp: split_at_def inside_def)
  have jkg: "inside xs j" "inside xs k" "inside xs g" using inside_between [OF ins] b kg by simp_all
  obtain h where h: "skip_large lt xs e k g = Inr h" "k \<le> h" "h \<le> g"
      "\<forall>i. h < i \<longrightarrow> i \<le> g \<longrightarrow> \<not> lt (elt xs i) (elt xs e)" "lt (elt xs h) (elt xs e) \<or> h = k"
    using skip_large_spec [OF jkg(2) ins(2) jkg(3) kg] by blast
  have inh: "inside xs h" using inside_between [OF jkg(2,3)] h by simp
  let ?ys = "swapped_at xs k h"
  have ends: "elt ?ys k = elt xs h" "elt ?ys s = elt xs s" "elt ?ys e = elt xs e"
    using inh jkg ins b h by (simp_all add: elt_swapped inside_def)
  have step: "partition_step lt s e xs j k g =
      Inr (if lt (elt xs h) (elt xs s) then (swapped_at ?ys k j, j + 1, h - 1) else (?ys, j, h - 1))"
    using low high h ins jkg inh ends by (simp add: partition_step_def move_small_def)
  have sh: "shuffled (s + 1) (e - 1) xs ?ys" using inh jkg b h by (intro shuffled_swap) auto
  show ?thesis
  proof (cases "h = k")
    case True
    then show ?thesis using split_last [OF sp kg high] h(4) step low jkg(2) by simp
  next
    case False
    have large: "split_at lt ?ys s e j k (h - 1)" by (rule split_large [OF sp ins]) (use False h high in auto)
    show ?thesis
    proof (cases "lt (elt xs h) (elt xs s)")
      case True
      have "split_at lt (swapped_at ?ys k j) s e (j + 1) (k + 1) (h - 1)"
        by (rule split_small [OF large]) (use ins False h True ends in auto)
      moreover have "shuffled (s + 1) (e - 1) xs (swapped_at ?ys k j)"
        using jkg b kg by (intro shuffled_trans [OF sh shuffled_swap]) auto
      ultimately show ?thesis using True step by simp
    next
      case low': False
      have "split_at lt ?ys s e j (k + 1) (h - 1)" by (rule split_middle [OF large]) (use False h low' ends in auto)
      then show ?thesis using sh low' step by simp
    qed
  qed
qed

lemma partition_step_spec:
  assumes "split_at lt xs s e j k g" "inside xs s" "inside xs e" "k \<le> g" "\<not> lt (elt xs e) (elt xs s)"
  shows "\<exists>ys j' g'. partition_step lt s e xs j k g = Inr (ys, j', g') \<and> split_at lt ys s e j' (k + 1) g' \<and>
    shuffled (s + 1) (e - 1) xs ys"
proof -
  have b: "s < j" "j \<le> k" "g < e" "0 \<le> s" using assms by (auto simp: split_at_def inside_def)
  have ins: "inside xs j" "inside xs k" using inside_between [OF assms(2,3)] b assms(4) by simp_all
  consider "lt (elt xs k) (elt xs s)" | "\<not> lt (elt xs k) (elt xs s)" "lt (elt xs k) (elt xs e)"
    | "\<not> lt (elt xs k) (elt xs s)" "\<not> lt (elt xs k) (elt xs e)" by blast
  then show ?thesis
  proof cases
    case 1
    then show ?thesis using split_small [OF assms(1-4)] assms ins b
      by (auto simp: partition_step_def move_small_def intro!: shuffled_swap)
  next
    case 2
    then show ?thesis using split_middle [OF assms(1,4)] assms ins by (simp add: partition_step_def move_small_def)
  next
    case 3
    then show ?thesis by (rule partition_step_large [OF assms(1-4)])
  qed
qed

lemma partition_loop_spec:
  assumes "split_at lt xs s e j k g" "inside xs s" "inside xs e" "\<not> lt (elt xs e) (elt xs s)"
  shows "\<exists>ys j' k' g'. partition_loop lt s e xs j k g = Inr (ys, j', g') \<and> split_at lt ys s e j' k' g' \<and> g' < k' \<and>
    shuffled (s + 1) (e - 1) xs ys"
  using assms
proof (induction "nat (g + 1 - k)" arbitrary: xs j k g rule: less_induct)
  case less
  show ?case
  proof (cases "k \<le> g")
    case False
    then show ?thesis using less.prems by (subst partition_loop.simps) (intro exI [of _ xs], auto)
  next
    case True
    obtain ys j' g' where st: "partition_step lt s e xs j k g = Inr (ys, j', g')"
      and sp: "split_at lt ys s e j' (k + 1) g'" and sh: "shuffled (s + 1) (e - 1) xs ys"
      using partition_step_spec [OF less.prems(1-3) True less.prems(4)] by blast
    have "elt ys s = elt xs s" "elt ys e = elt xs e"
      using shuffled_outside [OF sh, of s] shuffled_outside [OF sh, of e] less.prems(2,3) by (auto simp: inside_def)
    then obtain zs j2 k2 g2 where "partition_loop lt s e ys j' (k + 1) g' = Inr (zs, j2, g2)"
        "split_at lt zs s e j2 k2 g2" "g2 < k2" "shuffled (s + 1) (e - 1) ys zs"
      using less.hyps [of g' "k + 1" ys j'] sp less.prems shuffled_inside [OF sh] partition_step_le [OF st] True by auto
    moreover have "partition_loop lt s e xs j k g = partition_loop lt s e ys j' (k + 1) g'"
      by (subst partition_loop.simps) (simp add: True st)
    ultimately show ?thesis using shuffled_trans [OF sh] by auto
  qed
qed

lemma split_start: "s < e \<Longrightarrow> split_at lt xs s e (s + 1) (s + 1) (e - 1)"
  by (auto simp: split_at_def)

text \<open>The pivots are swapped from the ends of the range to their places.\<close>

lemma pivots_in_place:
  assumes sp: "split_at lt ys s e j k g" and k: "g < k" and ins: "inside ys s" "inside ys e" and piv: "\<not> lt (elt ys e) (elt ys s)"
  defines "zs \<equiv> swapped_at (swapped_at ys s (j - 1)) e (g + 1)"
  shows "in_place lt zs s (j - 1) e" "in_place lt zs s (g + 1) e" "shuffled s e ys zs"
proof -
  have b: "s < j" "j \<le> g + 1" "g < e" "0 \<le> s" using sp ins by (auto simp: split_at_def inside_def)
  have jg: "inside ys (j - 1)" "inside ys (g + 1)" using inside_between [OF ins] b by simp_all
  show "shuffled s e ys zs" unfolding zs_def
    using b jg ins by (intro shuffled_trans [OF shuffled_swap shuffled_swap]) auto
  have J: "elt zs (j - 1) = elt ys s" and G: "elt zs (g + 1) = elt ys e"
    using b jg ins by (auto simp: zs_def elt_swapped)
  have L: "lt (elt zs i) (elt ys s)" if "s \<le> i" "i < j - 1" for i
    using that sp b jg ins by (auto simp: zs_def elt_swapped split_at_def)
  have M: "\<not> lt (elt zs i) (elt ys s)" "lt (elt zs i) (elt ys e)" if "j - 1 < i" "i < g + 1" for i
    using that sp k b jg ins by (auto simp: zs_def elt_swapped split_at_def)
  have R: "\<not> lt (elt zs i) (elt ys e)" if "g + 1 < i" "i \<le> e" for i
    using that sp b jg ins by (auto simp: zs_def elt_swapped split_at_def)
  show "in_place lt zs s (j - 1) e" unfolding in_place_def J
  proof (intro conjI allI impI)
    fix i assume "j - 1 < i" "i \<le> e"
    then consider "i < g + 1" | "i = g + 1" | "g + 1 < i" by linarith
    then show "\<not> lt (elt zs i) (elt ys s)"
    proof cases
      case 3
      then show ?thesis using not_below_transitive [OF R piv] \<open>i \<le> e\<close> by blast
    qed (use M(1) G piv \<open>j - 1 < i\<close> in auto)
  qed (use L asymmetric in blast)
  show "in_place lt zs s (g + 1) e" unfolding in_place_def G
  proof (intro conjI allI impI)
    fix i assume "s \<le> i" "i < g + 1"
    then consider "i < j - 1" | "i = j - 1" | "j - 1 < i" by linarith
    then show "\<not> lt (elt ys e) (elt zs i)"
    proof cases
      case 1
      then have "lt (elt zs i) (elt ys s)" using L \<open>s \<le> i\<close> by blast
      then show ?thesis using piv transitive by blast
    next
      case 3
      then show ?thesis using M(2) [of i] asymmetric \<open>i < g + 1\<close> by blast
    qed (use J piv in simp)
  qed (use R in blast)
qed

text \<open>
  Sorting a part of the range that avoids the pivots \<open>ms\<close>: \<open>kept\<close> is what holds of the collection
  between the recursive calls, \<open>sorts\<close> what a call does.
\<close>

definition kept :: "int set \<Rightarrow> int \<Rightarrow> int \<Rightarrow> 'a list \<Rightarrow> 'a list \<Rightarrow> bool" where
  "kept ms s e zs col \<longleftrightarrow> shuffled s e zs col \<and> (\<forall>m\<in>ms. in_place lt col s m e)"

definition sorts :: "int \<Rightarrow> int \<Rightarrow> 'a list \<Rightarrow> 'a list res option \<Rightarrow> bool" where
  "sorts s e col r \<longleftrightarrow> (\<exists>ys. r = Some (Inr ys) \<and> shuffled s e col ys \<and> ordered_range lt ys s e)"

lemma sort_part:
  assumes "kept ms s e zs col" "sorts x y col r" "s \<le> x" "y \<le> e" "0 \<le> s"
    and "\<forall>m\<in>ms. s \<le> m \<and> m \<le> e \<and> (y < m \<or> m < x)"
  shows "\<exists>col'. r = Some (Inr col') \<and> kept ms s e zs col' \<and> ordered_range lt col' x y \<and>
    (\<forall>a b. ordered_range lt col a b \<longrightarrow> b < x \<or> y < a \<longrightarrow> 0 \<le> a \<longrightarrow> ordered_range lt col' a b)"
proof -
  obtain ys where ys: "r = Some (Inr ys)" "shuffled x y col ys" "ordered_range lt ys x y"
    using assms(2) by (auto simp: sorts_def)
  have "in_place lt ys s m e" if "m \<in> ms" for m
    using in_place_shuffled [OF _ ys(2)] assms that unfolding kept_def by blast
  moreover have "shuffled s e zs ys"
    using shuffled_trans [OF _ shuffled_widen [OF ys(2) assms(3-5)]] assms(1) by (simp add: kept_def)
  ultimately show ?thesis using ys(1,3) ordered_range_outside [OF _ ys(2)] by (simp add: kept_def)
qed

lemma kept_length: "kept ms s e zs col \<Longrightarrow> length col = length zs"
  by (auto simp: kept_def dest: shuffled_length)

lemma two_parts:
  assumes keep: "kept ms s e zs zs" and s: "0 \<le> s" "s \<le> x1" "y1 \<le> e" "s \<le> x2" "y2 \<le> e"
    and apart: "\<forall>m\<in>ms. s \<le> m \<and> m \<le> e \<and> (y1 < m \<or> m < x1) \<and> (y2 < m \<or> m < x2)" "y1 < x2 \<or> y2 < x1"
    and parts: "\<And>col. length col = length zs \<Longrightarrow> sorts x1 y1 col (f col x1 y1)"
      "\<And>col. length col = length zs \<Longrightarrow> sorts x2 y2 col (f col x2 y2)"
    and whole: "\<And>col. kept ms s e zs col \<Longrightarrow> ordered_range lt col x1 y1 \<Longrightarrow> ordered_range lt col x2 y2 \<Longrightarrow> ordered_range lt col s e"
  shows "sorts s e zs (xbind (f zs x1 y1) (\<lambda>col. f col x2 y2))"
proof -
  obtain c1 where c1: "f zs x1 y1 = Some (Inr c1)" "kept ms s e zs c1" "ordered_range lt c1 x1 y1"
    using sort_part [OF keep parts(1) [OF refl] s(2,3,1)] apart(1) by blast
  obtain c2 where c2: "f c1 x2 y2 = Some (Inr c2)" "kept ms s e zs c2" "ordered_range lt c2 x2 y2"
      "\<forall>a b. ordered_range lt c1 a b \<longrightarrow> b < x2 \<or> y2 < a \<longrightarrow> 0 \<le> a \<longrightarrow> ordered_range lt c2 a b"
    using sort_part [OF c1(2) parts(2) [OF kept_length [OF c1(2)]] s(4,5,1)] apart(1) by blast
  have "ordered_range lt c2 x1 y1" using c2(4) c1(3) apart(2) s(1,2) by auto
  then have "ordered_range lt c2 s e" using whole [OF c2(2) _ c2(3)] by blast
  then show ?thesis using c1(1) c2(1,2) by (simp add: sorts_def kept_def)
qed

lemma three_parts:
  assumes keep: "kept ms s e zs zs" and s: "0 \<le> s" "s \<le> x1" "y1 \<le> e" "s \<le> x2" "y2 \<le> e" "s \<le> x3" "y3 \<le> e"
    and apart: "\<forall>m\<in>ms. s \<le> m \<and> m \<le> e \<and> (y1 < m \<or> m < x1) \<and> (y2 < m \<or> m < x2) \<and> (y3 < m \<or> m < x3)"
      "y1 < x2 \<or> y2 < x1" "y1 < x3 \<or> y3 < x1" "y2 < x3 \<or> y3 < x2"
    and parts: "\<And>col. length col = length zs \<Longrightarrow> sorts x1 y1 col (f col x1 y1)"
      "\<And>col. length col = length zs \<Longrightarrow> sorts x2 y2 col (f col x2 y2)"
      "\<And>col. length col = length zs \<Longrightarrow> sorts x3 y3 col (f col x3 y3)"
    and whole: "\<And>col. kept ms s e zs col \<Longrightarrow> ordered_range lt col x1 y1 \<Longrightarrow> ordered_range lt col x2 y2 \<Longrightarrow>
      ordered_range lt col x3 y3 \<Longrightarrow> ordered_range lt col s e"
  shows "sorts s e zs (xbind (f zs x1 y1) (\<lambda>col. xbind (f col x2 y2) (\<lambda>col. f col x3 y3)))"
proof -
  obtain c1 where c1: "f zs x1 y1 = Some (Inr c1)" "kept ms s e zs c1" "ordered_range lt c1 x1 y1"
    using sort_part [OF keep parts(1) [OF refl] s(2,3,1)] apart(1) by blast
  obtain c2 where c2: "f c1 x2 y2 = Some (Inr c2)" "kept ms s e zs c2" "ordered_range lt c2 x2 y2"
      "\<forall>a b. ordered_range lt c1 a b \<longrightarrow> b < x2 \<or> y2 < a \<longrightarrow> 0 \<le> a \<longrightarrow> ordered_range lt c2 a b"
    using sort_part [OF c1(2) parts(2) [OF kept_length [OF c1(2)]] s(4,5,1)] apart(1) by blast
  obtain c3 where c3: "f c2 x3 y3 = Some (Inr c3)" "kept ms s e zs c3" "ordered_range lt c3 x3 y3"
      "\<forall>a b. ordered_range lt c2 a b \<longrightarrow> b < x3 \<or> y3 < a \<longrightarrow> 0 \<le> a \<longrightarrow> ordered_range lt c3 a b"
    using sort_part [OF c2(2) parts(3) [OF kept_length [OF c2(2)]] s(6,7,1)] apart(1) by blast
  have "ordered_range lt c2 x1 y1" using c2(4) c1(3) apart(2) s(1,2) by auto
  then have "ordered_range lt c3 x1 y1" using c3(4) apart(3) s(1,2) by auto
  moreover have "ordered_range lt c3 x2 y2" using c3(4) c2(3) apart(4) s(1,4) by auto
  ultimately have "ordered_range lt c3 s e" using whole [OF c3(2) _ _ c3(3)] by blast
  then show ?thesis using c1(1) c2(1) c3(1,2) by (simp add: sorts_def kept_def)
qed

lemma in_place_narrow: "in_place lt xs s m e \<Longrightarrow> s \<le> s' \<Longrightarrow> in_place lt xs s' m e"
  by (auto simp: in_place_def)

lemma ordered_join3:
  assumes "kept {p, q} s e zs col" "s \<le> p" "p < q" "q \<le> e"
    and "ordered_range lt col s (p - 1)" "ordered_range lt col (p + 1) (q - 1)" "ordered_range lt col (q + 1) e"
  shows "ordered_range lt col s e"
proof -
  have "in_place lt col s p e" "in_place lt col (p + 1) q e"
    using assms(1-3) in_place_narrow [of col s q e "p + 1"] by (auto simp: kept_def)
  then show ?thesis using ordered_join assms(5-7) by blast
qed

lemma dual_partition:
  assumes ins: "inside xs s" "inside xs e" and se: "s < e"
  obtains ws ys j g zs where "choose_pivots lt xs s e = Inr ws"
    "partition_loop lt s e ws (s + 1) (s + 1) (e - 1) = Inr (ys, j, g)"
    "col_swap ys s (j - 1) = Inr (swapped_at ys s (j - 1))" "col_swap (swapped_at ys s (j - 1)) e (g + 1) = Inr zs"
    "s \<le> j - 1" "j - 1 < g + 1" "g + 1 \<le> e" "kept {j - 1, g + 1} s e zs zs" "shuffled s e xs zs"
proof -
  obtain ws where ws: "choose_pivots lt xs s e = Inr ws" "shuffled s e xs ws" "\<not> lt (elt ws e) (elt ws s)"
    using choose_pivots_spec [OF ins se] by blast
  have wins: "inside ws s" "inside ws e" using ins shuffled_inside [OF ws(2)] by simp_all
  obtain ys j k g where ys: "partition_loop lt s e ws (s + 1) (s + 1) (e - 1) = Inr (ys, j, g)"
      "split_at lt ys s e j k g" "g < k" "shuffled (s + 1) (e - 1) ws ys"
    using partition_loop_spec [OF split_start [OF se] wins ws(3)] by blast
  have yins: "inside ys s" "inside ys e" using wins shuffled_inside [OF ys(4)] by simp_all
  have s0: "0 \<le> s" using ins(1) by (simp add: inside_def)
  have same: "elt ys s = elt ws s" "elt ys e = elt ws e"
    using shuffled_outside [OF ys(4), of s] shuffled_outside [OF ys(4), of e] s0 se by auto
  have b: "s \<le> j - 1" "j - 1 < g + 1" "g + 1 \<le> e" using ys(2) by (auto simp: split_at_def)
  have pins: "inside ys (j - 1)" "inside ys (g + 1)" using inside_between [OF yins] b by simp_all
  let ?zs = "swapped_at (swapped_at ys s (j - 1)) e (g + 1)"
  have zs: "in_place lt ?zs s (j - 1) e" "in_place lt ?zs s (g + 1) e" "shuffled s e ys ?zs"
    using pivots_in_place [OF ys(2,3) yins] ws(3) same by simp_all
  have "shuffled s e xs ?zs"
    using shuffled_trans [OF ws(2) shuffled_trans [OF shuffled_widen [OF ys(4)] zs(3)]] s0 by simp
  then show ?thesis using that [OF ws(1) ys(1) _ _ b] pins yins zs(1,2) by (simp add: kept_def)
qed

lemma dual_parts:
  assumes keep: "kept {p, q} s e zs zs" and b: "0 \<le> s" "s \<le> p" "p < q" "q \<le> e"
    and rec: "\<And>col x y. length col = length zs \<Longrightarrow> s \<le> x \<Longrightarrow> y \<le> e \<Longrightarrow> y - x < e - s \<Longrightarrow> sorts x y col (f col x y)"
  shows "sorts s e zs (xbind (f zs (p + 1) (q - 1)) (\<lambda>col. xbind (f col (q + 1) e) (\<lambda>col. f col s (p - 1))))"
    "sorts s e zs (xbind (f zs s (p - 1)) (\<lambda>col. xbind (f col (q + 1) e) (\<lambda>col. f col (p + 1) (q - 1))))"
    "sorts s e zs (xbind (f zs s (p - 1)) (\<lambda>col. xbind (f col (p + 1) (q - 1)) (\<lambda>col. f col (q + 1) e)))"
proof -
  note join = ordered_join3 [OF _ b(2-4)]
  show "sorts s e zs (xbind (f zs (p + 1) (q - 1)) (\<lambda>col. xbind (f col (q + 1) e) (\<lambda>col. f col s (p - 1))))"
    by (rule three_parts [OF keep]) (use b in \<open>simp_all add: rec join\<close>)
  show "sorts s e zs (xbind (f zs s (p - 1)) (\<lambda>col. xbind (f col (q + 1) e) (\<lambda>col. f col (p + 1) (q - 1))))"
    by (rule three_parts [OF keep]) (use b in \<open>simp_all add: rec join\<close>)
  show "sorts s e zs (xbind (f zs s (p - 1)) (\<lambda>col. xbind (f col (p + 1) (q - 1)) (\<lambda>col. f col (q + 1) e)))"
    by (rule three_parts [OF keep]) (use b in \<open>simp_all add: rec join\<close>)
qed

lemma sorts_after: "shuffled s e xs zs \<Longrightarrow> sorts s e zs r \<Longrightarrow> sorts s e xs r"
  by (auto simp: sorts_def intro: shuffled_trans)

lemma dual_pivot_sorts:
  assumes "0 \<le> s" "e < int (length xs)" "length xs < 2 ^ 31"
  shows "sorts s e xs (dual_pivot_quick_sort lt xs s e)"
  using assms
proof (induction "nat (e - s + 1)" arbitrary: xs s e rule: less_induct)
  case less
  show ?case
  proof (cases "s < e")
    case False
    then show ?thesis
      by (subst dual_pivot_quick_sort.simps) (simp add: sorts_def ordered_range_short)
  next
    case True
    have "inside xs s" "inside xs e" using less.prems True by (simp_all add: inside_def)
    then obtain ws ys j g zs where run: "choose_pivots lt xs s e = Inr ws"
      "partition_loop lt s e ws (s + 1) (s + 1) (e - 1) = Inr (ys, j, g)"
      "col_swap ys s (j - 1) = Inr (swapped_at ys s (j - 1))" "col_swap (swapped_at ys s (j - 1)) e (g + 1) = Inr zs"
      and b: "s \<le> j - 1" "j - 1 < g + 1" "g + 1 \<le> e" "kept {j - 1, g + 1} s e zs zs" "shuffled s e xs zs"
      using dual_partition [OF _ _ True] by metis
    have "sorts x y col (dual_pivot_quick_sort lt col x y)"
      if "length col = length zs" "s \<le> x" "y \<le> e" "y - x < e - s" for col x y
      by (rule less.hyps) (use that less.prems True shuffled_length [OF b(5)] in auto)
    note parts = dual_parts [OF b(4) less.prems(1) b(1-3), where f = "dual_pivot_quick_sort lt", OF this]
    show ?thesis
      by (rule sorts_after [OF b(5)], subst dual_pivot_quick_sort.simps)
        (simp only: True if_True run lift_res_simps prod.case Let_def parts split: if_split, simp)
  qed
qed

lemma pivot_in_place:
  assumes "split_below lt ys s (s + i) (s + len)" "inside ys s" "inside ys (s + len - 1)"
  shows "in_place lt (swapped_at ys s (s + i - 1)) s (s + i - 1) (s + len - 1)"
proof -
  have b: "0 < i" "i \<le> len" "0 \<le> s" using assms by (auto simp: split_below_def inside_def)
  have ins: "inside ys (s + i - 1)" using inside_between [OF assms(2,3)] b by simp
  let ?zs = "swapped_at ys s (s + i - 1)"
  have piv: "elt ?zs (s + i - 1) = elt ys s" using ins assms b by (simp add: elt_swapped)
  have "lt (elt ?zs l) (elt ys s)" if "s \<le> l" "l < s + i - 1" for l
    using that assms ins b by (auto simp: elt_swapped split_below_def)
  moreover have "\<not> lt (elt ?zs l) (elt ys s)" if "s + i - 1 < l" "l \<le> s + len - 1" for l
    using that assms ins b by (auto simp: elt_swapped split_below_def)
  ultimately show ?thesis unfolding in_place_def piv using asymmetric by blast
qed

lemma single_partition:
  assumes ins: "inside xs s" "inside xs (s + len - 1)" and len: "1 < len"
  obtains ws ys i zs where "col_swap xs (s + len div 2) s = Inr ws" "single_pivot_loop lt s len ws 1 1 = Inr (ys, i)"
    "col_swap ys s (s + i - 1) = Inr zs" "0 < i" "i \<le> len" "kept {s + i - 1} s (s + len - 1) zs zs"
    "shuffled s (s + len - 1) xs zs"
proof -
  have s0: "0 \<le> s" using ins(1) by (simp add: inside_def)
  have half: "0 < len div 2" "len div 2 < len" using len by auto
  have mid: "inside xs (s + len div 2)" using inside_between [OF ins] half by simp
  let ?ws = "swapped_at xs (s + len div 2) s"
  have wins: "inside ?ws s" "inside ?ws (s + len - 1)" using ins by simp_all
  have "split_below lt ?ws s (s + 1) (s + 1)" by (simp add: split_below_def)
  then obtain ys i where ys: "single_pivot_loop lt s len ?ws 1 1 = Inr (ys, i)"
      "split_below lt ys s (s + i) (s + len)" "shuffled (s + 1) (s + len - 1) ?ws ys"
    using single_pivot_loop_spec [of lt ?ws s 1 1 len] len wins by auto
  have yins: "inside ys s" "inside ys (s + len - 1)" using wins shuffled_inside [OF ys(3)] by simp_all
  have b: "0 < i" "i \<le> len" using ys(2) by (auto simp: split_below_def)
  have pin: "inside ys (s + i - 1)" using inside_between [OF yins] b by simp
  have sw: "shuffled s (s + len - 1) xs ?ws" using ins mid half s0 by (intro shuffled_swap) auto
  have sw2: "shuffled s (s + len - 1) ys (swapped_at ys s (s + i - 1))" using yins pin b s0 by (intro shuffled_swap) auto
  have "shuffled s (s + len - 1) xs (swapped_at ys s (s + i - 1))"
    using shuffled_trans [OF sw shuffled_trans [OF shuffled_widen [OF ys(3)] sw2]] s0 by simp
  then show ?thesis using that [OF _ ys(1) _ b] pin yins mid ins pivot_in_place [OF ys(2) yins] by (simp add: kept_def)
qed

lemma single_parts:
  assumes keep: "kept {p} s e zs zs" and b: "0 \<le> s" "s \<le> p" "p \<le> e"
    and rec: "\<And>col x y. length col = length zs \<Longrightarrow> s \<le> x \<Longrightarrow> y \<le> e \<Longrightarrow> y - x < e - s \<Longrightarrow> sorts x y col (f col x y)"
  shows "sorts s e zs (xbind (f zs (p + 1) e) (\<lambda>col. f col s (p - 1)))"
    "sorts s e zs (xbind (f zs s (p - 1)) (\<lambda>col. f col (p + 1) e))"
proof -
  have join: "kept {p} s e zs col \<Longrightarrow> ordered_range lt col s (p - 1) \<Longrightarrow> ordered_range lt col (p + 1) e \<Longrightarrow>
      ordered_range lt col s e" for col
    using ordered_join unfolding kept_def by blast
  show "sorts s e zs (xbind (f zs (p + 1) e) (\<lambda>col. f col s (p - 1)))"
    by (rule two_parts [OF keep]) (use b in \<open>simp_all add: rec join\<close>)
  show "sorts s e zs (xbind (f zs s (p - 1)) (\<lambda>col. f col (p + 1) e))"
    by (rule two_parts [OF keep]) (use b in \<open>simp_all add: rec join\<close>)
qed

lemma single_pivot_sorts:
  assumes "0 \<le> s" "e < int (length xs)" "length xs < 2 ^ 31"
  shows "sorts s e xs (single_pivot_quick_sort lt xs s (e + 1))"
  using assms
proof (induction "nat (e - s + 1)" arbitrary: xs s e rule: less_induct)
  case less
  show ?case
  proof (cases "s < e")
    case False
    then show ?thesis
      by (subst single_pivot_quick_sort.simps) (simp add: sorts_def ordered_range_short Let_def)
  next
    case True
    define len where "len = e + 1 - s"
    have e: "e = s + len - 1" "e + 1 = s + len" and len: "1 < len" using True by (simp_all add: len_def)
    have "inside xs s" "inside xs (s + len - 1)" using less.prems True e by (simp_all add: inside_def)
    then obtain ws ys i zs where run: "col_swap xs (s + len div 2) s = Inr ws" "single_pivot_loop lt s len ws 1 1 = Inr (ys, i)"
      "col_swap ys s (s + i - 1) = Inr zs"
      and b: "0 < i" "i \<le> len" "kept {s + i - 1} s e zs zs" "shuffled s e xs zs"
      using single_partition [OF _ _ len] unfolding e(1) by metis
    have "sorts x y col (single_pivot_quick_sort lt col x (y + 1))"
      if "length col = length zs" "s \<le> x" "y \<le> e" "y - x < e - s" for col x y
      by (rule less.hyps) (use that less.prems True shuffled_length [OF b(4)] in auto)
    note parts = single_parts [OF b(3) less.prems(1), where f = "\<lambda>col x y. single_pivot_quick_sort lt col x (y + 1)", OF _ _ this]
    have "sorts s e zs (xbind (single_pivot_quick_sort lt zs (s + i) (s + len)) (\<lambda>col. single_pivot_quick_sort lt col s (s + i - 1)))"
      "sorts s e zs (xbind (single_pivot_quick_sort lt zs s (s + i - 1)) (\<lambda>col. single_pivot_quick_sort lt col (s + i) (s + len)))"
      using parts b(1,2) by (simp_all add: e)
    moreover have "len div 2 \<noteq> 0" "\<not> len \<le> 1" using len by auto
    ultimately show ?thesis
      by (intro sorts_after [OF b(4)], subst single_pivot_quick_sort.simps) (simp add: Let_def run e(2))
  qed
qed

lemma below_first: "lt x y \<Longrightarrow> \<not> lt z y \<Longrightarrow> lt x z"
  using not_below_transitive by blast

lemma above_last: "lt y x \<Longrightarrow> \<not> lt y z \<Longrightarrow> lt z x"
  using not_below_transitive by blast

text \<open>
  A binary search with a comparator that agrees with the order: the index of an element found, and
  for none the place \<open>nearby\<close>, the last element below the needle or the first of all.
\<close>

definition search_result :: "'a list \<Rightarrow> 'a \<Rightarrow> nat option \<Rightarrow> nat \<Rightarrow> bool" where
  "search_result ys x r nearby \<longleftrightarrow>
     (case r of
        Some i \<Rightarrow> i < length ys \<and> \<not> lt x (ys ! i) \<and> \<not> lt (ys ! i) x \<and> nearby = i
      | None \<Rightarrow> (\<forall>y\<in>set ys. lt x y \<or> lt y x) \<and> nearby = length (takeWhile (\<lambda>y. lt y x) ys) - 1)"

lemma not_found:
  assumes "low \<le> length ys" "\<And>i. i < low \<Longrightarrow> lt (ys ! i) x" "\<And>i. low \<le> i \<Longrightarrow> i < length ys \<Longrightarrow> lt x (ys ! i)"
  shows "search_result ys x None (low - 1)"
proof -
  have "takeWhile (\<lambda>y. lt y x) ys = take low ys"
    using assms asymmetric by (intro takeWhile_eq_take_P_nth) blast+
  moreover have "lt x y \<or> lt y x" if "y \<in> set ys" for y
    using that assms(2,3) unfolding in_set_conv_nth by (metis not_less)
  ultimately show ?thesis using assms(1) by (simp add: search_result_def min_def)
qed

lemma binary_search_loop_finds:
  assumes ord: "sorted_wrt (\<lambda>a b. \<not> lt b a) ys" and cmp: "\<And>a b. cmp a b < 0 \<longleftrightarrow> lt a b" "\<And>a b. cmp a b > 0 \<longleftrightarrow> lt b a"
    and b: "low \<le> high + 1" "high < length ys" "\<And>i. i < low \<Longrightarrow> lt (ys ! i) x"
      "\<And>i. high < i \<Longrightarrow> i < length ys \<Longrightarrow> lt x (ys ! i)"
  shows "\<exists>r nearby. binary_search_loop cmp ys x low high = Inr (r, nearby) \<and> search_result ys x r nearby"
  using b
proof (induction "high + 1 - low" arbitrary: low high rule: less_induct)
  case less
  define m where "m = low + (high - low) div 2"
  have nth: "\<not> lt (ys ! j) (ys ! i)" if "i \<le> j" "j < length ys" for i j
    using ord that irreflexive by (cases "i = j") (auto simp: sorted_wrt_iff_nth_less)
  consider "high < low" | "low \<le> high" "lt x (ys ! m)" | "low \<le> high" "lt (ys ! m) x"
    | "low \<le> high" "\<not> lt x (ys ! m)" "\<not> lt (ys ! m) x" by fastforce
  then show ?case
  proof cases
    case 1
    then have "low = high + 1" using less.prems(1) by simp
    then show ?thesis using not_found [of low ys x] less.prems by (subst binary_search_loop.simps) simp
  next
    case 2
    have m: "low \<le> m" "m \<le> high" using 2 by (auto simp: m_def)
    have above: "lt x (ys ! i)" if "m \<le> i" "i < length ys" for i
      using below_first [OF 2(2)] nth that by blast
    show ?thesis
    proof (cases "m = 0")
      case True
      then have "low = 0" "high div 2 = 0" by (auto simp: m_def)
      moreover have "vec_at ys 0 = Inr (ys ! 0)" using less.prems(2) by (intro vec_at_ok) linarith
      ultimately have "binary_search_loop cmp ys x low high = Inr (None, 0)"
        using 2 True cmp(1) by (subst binary_search_loop.simps) (simp add: Let_def)
      then show ?thesis using not_found [of 0 ys x] above True by simp
    next
      case False
      have "binary_search_loop cmp ys x low high = binary_search_loop cmp ys x low (m - 1)"
        using 2 m False less.prems(2) cmp(1) by (subst binary_search_loop.simps) (simp add: Let_def vec_at_ok flip: m_def)
      then show ?thesis using less.hyps [of "m - 1" low] less.prems m False above by simp
    qed
  next
    case 3
    have m: "low \<le> m" "m \<le> high" using 3 by (auto simp: m_def)
    have "lt (ys ! i) x" if "i < m + 1" for i
      using above_last [OF 3(2)] nth [of i m] that less.prems(2) m by simp
    moreover have "binary_search_loop cmp ys x low high = binary_search_loop cmp ys x (m + 1) high"
      using 3 m less.prems(2) cmp asymmetric by (subst binary_search_loop.simps) (simp add: Let_def vec_at_ok flip: m_def)
    ultimately show ?thesis using less.hyps [of high "m + 1"] less.prems m by simp
  next
    case 4
    have m: "m < length ys" using 4(1) less.prems(2) by (simp add: m_def)
    have "binary_search_loop cmp ys x low high = Inr (Some m, m)"
      using 4 m cmp by (subst binary_search_loop.simps) (simp add: Let_def vec_at_ok flip: m_def)
    then show ?thesis using 4 m by (simp add: search_result_def)
  qed
qed

lemma binary_search_finds:
  assumes "sorted_wrt (\<lambda>a b. \<not> lt b a) ys" "\<And>a b. cmp a b < 0 \<longleftrightarrow> lt a b" "\<And>a b. cmp a b > 0 \<longleftrightarrow> lt b a"
  shows "\<exists>r nearby. binary_search cmp ys x = Inr (r, nearby) \<and> search_result ys x r nearby"
proof (cases "ys = []")
  case False
  then show ?thesis using binary_search_loop_finds [OF assms, of 0 "length ys - 1" x] by (simp add: binary_search_def)
qed (simp add: binary_search_def search_result_def)

lemma ordered_sorted_wrt:
  "ordered_range lt ys 0 (int (length ys) - 1) \<Longrightarrow> sorted_wrt (\<lambda>a b. \<not> lt b a) ys"
  unfolding ordered_range_def sorted_wrt_iff_nth_less by (metis diff_add_cancel nat_int of_nat_0_le_iff of_nat_less_iff zle_diff1_eq)

lemma sorts_whole:
  assumes "sorts 0 (int (length xs) - 1) xs r"
  shows "\<exists>ys. r = Some (Inr ys) \<and> mset ys = mset xs \<and> sorted_wrt (\<lambda>a b. \<not> lt b a) ys"
  using assms ordered_sorted_wrt by (auto simp: sorts_def shuffled_def)

end

section \<open>The contract of a sort\<close>

locale sorting_routine = strict_weak_order +
  fixes sort_list :: "'a list \<Rightarrow> 'a list res option"
  assumes sorts_list: "length xs < 2 ^ 31 \<Longrightarrow>
    \<exists>ys. sort_list xs = Some (Inr ys) \<and> mset ys = mset xs \<and> sorted_wrt (\<lambda>a b. \<not> lt b a) ys"
begin

text \<open>What is sorted can be searched.\<close>

lemma search_after_sort:
  assumes "length xs < 2 ^ 31" "\<And>a b. cmp a b < 0 \<longleftrightarrow> lt a b" "\<And>a b. cmp a b > 0 \<longleftrightarrow> lt b a"
  shows "\<exists>ys r nearby. sort_list xs = Some (Inr ys) \<and> mset ys = mset xs \<and> sorted_wrt (\<lambda>a b. \<not> lt b a) ys \<and>
    binary_search cmp ys x = Inr (r, nearby) \<and> search_result ys x r nearby"
  using sorts_list [OF assms(1)] binary_search_finds [OF _ assms(2,3)] by blast

end

sublocale strict_weak_order \<subseteq> collection: sorting_routine lt "quick_sort_collection_with lt"
  by unfold_locales (unfold quick_sort_collection_with_def, rule sorts_whole, rule dual_pivot_sorts, simp_all)

sublocale strict_weak_order \<subseteq> range: sorting_routine lt "whole_range (quick_sort_range_with lt)"
proof
  fix xs :: "'a list"
  assume "length xs < 2 ^ 31"
  then show "\<exists>ys. whole_range (quick_sort_range_with lt) xs = Some (Inr ys) \<and> mset ys = mset xs \<and> sorted_wrt (\<lambda>a b. \<not> lt b a) ys"
    using sorts_whole [OF single_pivot_sorts [of 0 "int (length xs) - 1" xs]] by (simp add: quick_sort_range_with_def)
qed

context strict_weak_order
begin

lemmas collection_search = collection.search_after_sort [unfolded search_result_def]
lemmas range_search = range.search_after_sort [unfolded search_result_def]

end

interpretation default_order: strict_weak_order "\<lambda>a b. a < (b :: 'a :: linorder)"
  by unfold_locales auto

lemma default_sorts: "quick_sort_collection = quick_sort_collection_with (\<lambda>a b. a < b)"
  "quick_sort_range = quick_sort_range_with (\<lambda>a b. a < b)"
  by (simp_all add: fun_eq_iff quick_sort_collection_def quick_sort_collection_with_def quick_sort_range_def quick_sort_range_with_def)

interpretation default_collection: sorting_routine "\<lambda>a b. a < (b :: 'a :: linorder)" quick_sort_collection
  unfolding default_sorts by (rule default_order.collection.sorting_routine_axioms)

interpretation default_range: sorting_routine "\<lambda>a b. a < (b :: 'a :: linorder)" "whole_range quick_sort_range"
  unfolding default_sorts by (rule default_order.range.sorting_routine_axioms)

lemma DefaultComparator_agrees: "DefaultComparator a b < 0 \<longleftrightarrow> a < b" "DefaultComparator a b > 0 \<longleftrightarrow> b < a"
  by (auto simp: DefaultComparator_def)

end
