(* ===== verification/Duplex_Stream.thy ===== *)
theory Duplex_Stream
  imports Mem_Search Simulation
begin

text \<open>
  \<open>DuplexMemoryStream\<close> of \<open>base/MemoryStream.h\<close>: a queue of bytes in chunks of 4096. The offsets
  count all bytes ever written, read and released; they are \<open>size_t\<close> and wrap around, and what the
  stream does is right all the same, since the chunk size divides the modulus. A buffer to read into is
  its size, and what is read into it the result. The bytes of a new chunk are not initialized: they
  are a parameter, which may depend on the place of the chunk.

  The contract is \<open>list_stream\<close>, a list of bytes to whose end is written and from whose front is
  read; the stream is an instance of the locale \<open>simulation\<close> with it.
\<close>

section \<open>The stream\<close>

definition chunk_size :: nat where
  "chunk_size = 4 * 1024"

record duplex_stream =
  ds_chunks :: "u8 list list"
  ds_write_offset :: nat
  ds_read_offset :: nat
  ds_base_offset :: nat
  ds_recoverable_error :: bool
  ds_fatal_error :: bool

definition DuplexMemoryStream_create :: duplex_stream where
  "DuplexMemoryStream_create =
     \<lparr>ds_chunks = [], ds_write_offset = 0, ds_read_offset = 0, ds_base_offset = 0,
      ds_recoverable_error = False, ds_fatal_error = False\<rparr>"

definition DuplexMemoryStream_eof :: "duplex_stream \<Rightarrow> bool" where
  "DuplexMemoryStream_eof d \<longleftrightarrow> ds_write_offset d = ds_read_offset d"

definition DuplexMemoryStream_size :: "duplex_stream \<Rightarrow> nat" where
  "DuplexMemoryStream_size d = usub (ds_write_offset d) (ds_read_offset d)"

definition duplex_has_any_error :: "duplex_stream \<Rightarrow> bool" where
  "duplex_has_any_error d \<longleftrightarrow> ds_recoverable_error d \<or> ds_fatal_error d"

definition duplex_set_recoverable_error :: "duplex_stream \<Rightarrow> duplex_stream" where
  "duplex_set_recoverable_error d = d\<lparr>ds_recoverable_error := True\<rparr>"

definition duplex_handle_any_error :: "duplex_stream \<Rightarrow> bool \<times> duplex_stream" where
  "duplex_handle_any_error d =
     (if duplex_has_any_error d then (True, d\<lparr>ds_recoverable_error := False, ds_fatal_error := False\<rparr>) else (False, d))"

text \<open>\<open>ByteBuffer::create_uninitialized\<close>, with the bytes found in the new memory.\<close>

definition ByteBuffer_create_uninitialized :: "(nat \<Rightarrow> u8) \<Rightarrow> nat \<Rightarrow> u8 list" where
  "ByteBuffer_create_uninitialized junk len = map junk [0..<len]"

lemma length_ByteBuffer_create_uninitialized [simp]: "length (ByteBuffer_create_uninitialized junk len) = len"
  by (simp add: ByteBuffer_create_uninitialized_def)

text \<open>\<open>Span::slice\<close>, \<open>Vector::last\<close> and \<open>Vector::take_first\<close>, which check.\<close>

definition span_slice :: "'a list \<Rightarrow> nat \<Rightarrow> 'a list res" where
  "span_slice span start = verify (start \<le> length span) (Inr (drop start span))"

definition span_slice_length :: "'a list \<Rightarrow> nat \<Rightarrow> nat \<Rightarrow> 'a list res" where
  "span_slice_length span start len = verify (usz (start + len) \<le> length span) (Inr (take len (drop start span)))"

definition vector_last :: "'a list \<Rightarrow> 'a res" where
  "vector_last v = verify (v \<noteq> []) (Inr (last v))"

definition vector_take_first :: "'a list \<Rightarrow> 'a list res" where
  "vector_take_first v = verify (v \<noteq> []) (Inr (tl v))"

partial_function (option) try_discard_chunks :: "duplex_stream \<Rightarrow> duplex_stream res option" where
  "try_discard_chunks d =
     (if usub (ds_read_offset d) (ds_base_offset d) \<ge> chunk_size then
        lift_res (vector_take_first (ds_chunks d)) (\<lambda>chunks.
        try_discard_chunks (d\<lparr>ds_chunks := chunks, ds_base_offset := usz (ds_base_offset d + chunk_size)\<rparr>))
      else Some (Inr d))"

definition DuplexMemoryStream_discard_or_error :: "duplex_stream \<Rightarrow> nat \<Rightarrow> (bool \<times> duplex_stream) res option" where
  "DuplexMemoryStream_discard_or_error d count =
     (if usub (ds_write_offset d) (ds_read_offset d) < count then Some (Inr (False, duplex_set_recoverable_error d))
      else xbind (try_discard_chunks (d\<lparr>ds_read_offset := usz (ds_read_offset d + count)\<rparr>)) (\<lambda>d. Some (Inr (True, d))))"

partial_function (option) read_loop :: "duplex_stream \<Rightarrow> nat \<Rightarrow> u8 list \<Rightarrow> u8 list res option" where
  "read_loop d bytes_size out =
     (let nread = length out; left = usub (usub (ds_write_offset d) (ds_read_offset d)) nread in
      if usub bytes_size nread > 0 \<and> left > 0 then
        let chunk_index = usz (usub (ds_read_offset d) (ds_base_offset d) + nread) div chunk_size in
        lift_res (vec_at (ds_chunks d) chunk_index) (\<lambda>chunk.
        lift_res (span_slice chunk (usz (ds_read_offset d + nread) mod chunk_size)) (\<lambda>chunk_bytes.
        lift_res (verify (nread \<le> bytes_size) (Inr (bytes_size - nread))) (\<lambda>space.
        read_loop d bytes_size (out @ take space (take left chunk_bytes)))))
      else Some (Inr out))"

definition DuplexMemoryStream_read_without_consuming :: "duplex_stream \<Rightarrow> nat \<Rightarrow> u8 list res option" where
  "DuplexMemoryStream_read_without_consuming d bytes_size = read_loop d bytes_size []"

definition DuplexMemoryStream_read :: "duplex_stream \<Rightarrow> nat \<Rightarrow> (u8 list \<times> duplex_stream) res option" where
  "DuplexMemoryStream_read d bytes_size =
     (if duplex_has_any_error d then Some (Inr ([], d))
      else xbind (DuplexMemoryStream_read_without_consuming d bytes_size) (\<lambda>out.
           xbind (try_discard_chunks (d\<lparr>ds_read_offset := usz (ds_read_offset d + length out)\<rparr>)) (\<lambda>d.
           Some (Inr (out, d)))))"

text \<open>The result of \<open>read_or_error\<close> with what is in the front of the buffer then.\<close>

definition DuplexMemoryStream_read_or_error :: "duplex_stream \<Rightarrow> nat \<Rightarrow> (bool \<times> u8 list \<times> duplex_stream) res option" where
  "DuplexMemoryStream_read_or_error d bytes_size =
     (if usub (ds_write_offset d) (ds_read_offset d) < bytes_size
      then Some (Inr (False, [], duplex_set_recoverable_error d))
      else xbind (DuplexMemoryStream_read d bytes_size) (\<lambda>(out, d). Some (Inr (length out = bytes_size, out, d))))"

partial_function (option) write_loop ::
  "(nat \<Rightarrow> nat \<Rightarrow> u8) \<Rightarrow> nat \<Rightarrow> u8 list \<Rightarrow> u8 list list \<Rightarrow> nat \<Rightarrow> (u8 list list \<times> nat) res option" where
  "write_loop junk write_offset bytes chunks nwritten =
     (if usub (length bytes) nwritten > 0 then
        let offset = usz (write_offset + nwritten) mod chunk_size;
            chunks = (if offset = 0 then chunks @ [ByteBuffer_create_uninitialized (junk (usz (write_offset + nwritten))) chunk_size] else chunks) in
        lift_res (span_slice bytes nwritten) (\<lambda>source.
        lift_res (vector_last chunks) (\<lambda>chunk.
        lift_res (span_slice chunk offset) (\<lambda>space.
        let count = min (length source) (length space) in
        write_loop junk write_offset bytes
          (butlast chunks @ [take offset chunk @ take count source @ drop count space]) (nwritten + count))))
      else Some (Inr (chunks, nwritten)))"

definition DuplexMemoryStream_write ::
  "(nat \<Rightarrow> nat \<Rightarrow> u8) \<Rightarrow> duplex_stream \<Rightarrow> u8 list \<Rightarrow> (nat \<times> duplex_stream) res option" where
  "DuplexMemoryStream_write junk d bytes =
     xbind (write_loop junk (ds_write_offset d) bytes (ds_chunks d) 0) (\<lambda>(chunks, nwritten).
     Some (Inr (nwritten, d\<lparr>ds_chunks := chunks, ds_write_offset := usz (ds_write_offset d + nwritten)\<rparr>)))"

definition DuplexMemoryStream_write_or_error ::
  "(nat \<Rightarrow> nat \<Rightarrow> u8) \<Rightarrow> duplex_stream \<Rightarrow> u8 list \<Rightarrow> (bool \<times> duplex_stream) res option" where
  "DuplexMemoryStream_write_or_error junk d bytes =
     xbind (DuplexMemoryStream_write junk d bytes) (\<lambda>(nwritten, d). Some (Inr (True, d)))"

definition DuplexMemoryStream_copy_into_contiguous_buffer :: "duplex_stream \<Rightarrow> u8 list res option" where
  "DuplexMemoryStream_copy_into_contiguous_buffer d =
     xbind (DuplexMemoryStream_read_without_consuming d (DuplexMemoryStream_size d)) (\<lambda>out.
     Some (verify (length out = DuplexMemoryStream_size d) (Inr out)))"

partial_function (option) spans_loop :: "u8 list list \<Rightarrow> nat \<Rightarrow> nat \<Rightarrow> nat \<Rightarrow> u8 list list \<Rightarrow> u8 list list res option" where
  "spans_loop chunks chunk_index chunk_read_offset bytes_to_search spans =
     (if bytes_to_search > 0 then
        lift_res (vec_at chunks chunk_index) (\<lambda>chunk.
        lift_res (if chunk_read_offset \<noteq> 0 then span_slice chunk chunk_read_offset else Inr chunk) (\<lambda>span.
        if bytes_to_search < length span then
          lift_res (span_slice_length span 0 bytes_to_search) (\<lambda>span. Some (Inr (spans @ [span])))
        else spans_loop chunks (usz (chunk_index + 1)) 0 (bytes_to_search - length span) (spans @ [span])))
      else Some (Inr spans))"

definition DuplexMemoryStream_offset_of :: "duplex_stream \<Rightarrow> u8 list \<Rightarrow> nat option res option" where
  "DuplexMemoryStream_offset_of d value =
     (let start = usub (ds_read_offset d) (ds_base_offset d) in
      xbind (spans_loop (ds_chunks d) (start div chunk_size) (start mod chunk_size)
               (usub (ds_write_offset d) (ds_read_offset d)) []) (\<lambda>spans.
      memmem_chunks spans value))"

section \<open>Offsets\<close>

lemma usub_cases: "a < 2 ^ 32 \<Longrightarrow> b < 2 ^ 32 \<Longrightarrow> usub a b = (if b \<le> a then a - b else a + 2 ^ 32 - b)"
  by (cases "b \<le> a") (simp, simp add: usub_def)

lemma usz_add_usub: "a < 2 ^ 32 \<Longrightarrow> b < 2 ^ 32 \<Longrightarrow> usz (b + usub a b) = a"
  by (auto simp: usub_cases usz_def)

lemma usz_add_usz: "usz (usz a + b) = usz (a + b)"
  by (simp add: usz_def mod_add_left_eq)

lemma usub_usz_add: "b < 2 ^ 32 \<Longrightarrow> x < 2 ^ 32 \<Longrightarrow> usub (usz (b + x)) b = x"
proof -
  assume b: "b < 2 ^ 32" and x: "x < 2 ^ 32"
  show "usub (usz (b + x)) b = x"
  proof (cases "b + x < 2 ^ 32")
    case False
    then have "usz (b + x) = b + x - 2 ^ 32" using b x by (simp add: usz_def mod_if)
    then show ?thesis using False b x by (simp add: usub_cases)
  qed (use b in simp)
qed

lemma usub_usz_usz: "x < 2 ^ 32 \<Longrightarrow> usub (usz (b + x)) (usz b) = x"
  using usub_usz_add [OF usz_less, of x b] by (simp add: usz_add_usz)

lemma usz_mod_chunk: "usz a mod chunk_size = a mod chunk_size"
  by (simp add: usz_def chunk_size_def mod_mod_cancel)

lemma chunk_size_pos: "0 < chunk_size"
  by (simp add: chunk_size_def)

section \<open>Chunks\<close>

definition whole_chunks :: "u8 list list \<Rightarrow> bool" where
  "whole_chunks cs \<longleftrightarrow> (\<forall>c\<in>set cs. length c = chunk_size)"

lemma whole_simps [simp]:
  "whole_chunks []"
  "whole_chunks (c # cs) \<longleftrightarrow> length c = chunk_size \<and> whole_chunks cs"
  "whole_chunks (cs @ ds) \<longleftrightarrow> whole_chunks cs \<and> whole_chunks ds"
  by (auto simp: whole_chunks_def)

lemma length_concat_whole: "whole_chunks cs \<Longrightarrow> length (concat cs) = length cs * chunk_size"
  by (induction cs) simp_all

lemma drop_concat_whole:
  "whole_chunks cs \<Longrightarrow> q < length cs \<Longrightarrow> k \<le> chunk_size \<Longrightarrow>
    drop (q * chunk_size + k) (concat cs) = drop k (cs ! q) @ concat (drop (Suc q) cs)"
proof (induction q arbitrary: cs)
  case 0
  then show ?case by (cases cs) simp_all
next
  case (Suc q)
  then obtain c ds where "cs = c # ds" by (cases cs) auto
  then show ?case using Suc by (simp add: add.assoc)
qed

lemma nth_whole: "whole_chunks cs \<Longrightarrow> q < length cs \<Longrightarrow> length (cs ! q) = chunk_size"
  by (simp add: whole_chunks_def)

lemma ceil_chunks: "0 < c \<Longrightarrow> a \<le> ceil_div a c * c \<and> ceil_div a c * c < a + c"
  using less_ceil_div_iff [of c "ceil_div a c" a] less_ceil_div_iff [of c "ceil_div a c - 1" a]
  by (cases "ceil_div a c") auto

lemma ceil_div_unique: "0 < c \<Longrightarrow> a \<le> k * c \<Longrightarrow> k * c < a + c \<Longrightarrow> ceil_div a c = k"
proof -
  assume c: "0 < c" and k: "a \<le> k * c" "k * c < a + c"
  have "\<not> k < ceil_div a c" using less_ceil_div_iff [OF c, of k a] k by simp
  moreover have "j < ceil_div a c" if "j < k" for j
  proof -
    have "(j + 1) * c \<le> k * c" using that by (intro mult_right_mono) auto
    then show ?thesis using k c by (simp add: less_ceil_div_iff)
  qed
  ultimately show ?thesis by (metis linorder_neqE_nat nat_less_le)
qed

section \<open>The invariant\<close>

abbreviation ds_start :: "duplex_stream \<Rightarrow> nat" where
  "ds_start d \<equiv> usub (ds_read_offset d) (ds_base_offset d)"

definition duplex_wf :: "duplex_stream \<Rightarrow> bool" where
  "duplex_wf d \<longleftrightarrow> ds_base_offset d < 2 ^ 32 \<and> ds_read_offset d < 2 ^ 32 \<and> ds_write_offset d < 2 ^ 32 \<and>
     ds_base_offset d mod chunk_size = 0 \<and> whole_chunks (ds_chunks d) \<and>
     ds_start d + DuplexMemoryStream_size d < 2 ^ 32 \<and>
     length (ds_chunks d) = ceil_div (ds_start d + DuplexMemoryStream_size d) chunk_size"

definition duplex_ok :: "duplex_stream \<Rightarrow> bool" where
  "duplex_ok d \<longleftrightarrow> duplex_wf d \<and> ds_start d < chunk_size"

definition unread_bytes :: "duplex_stream \<Rightarrow> u8 list" where
  "unread_bytes d = take (DuplexMemoryStream_size d) (drop (ds_start d) (concat (ds_chunks d)))"

lemma duplex_offsets:
  assumes "duplex_wf d"
  shows "ds_read_offset d = usz (ds_base_offset d + ds_start d)"
    "ds_write_offset d = usz (ds_base_offset d + ds_start d + DuplexMemoryStream_size d)"
proof -
  have wf: "ds_base_offset d < 2 ^ 32" "ds_read_offset d < 2 ^ 32" "ds_write_offset d < 2 ^ 32"
    using assms by (simp_all add: duplex_wf_def)
  show r: "ds_read_offset d = usz (ds_base_offset d + ds_start d)"
    using usz_add_usub [OF wf(2,1)] by (rule sym)
  have "ds_write_offset d = usz (ds_read_offset d + DuplexMemoryStream_size d)"
    unfolding DuplexMemoryStream_size_def using usz_add_usub [OF wf(3,2)] by (rule sym)
  also have "\<dots> = usz (usz (ds_base_offset d + ds_start d) + DuplexMemoryStream_size d)" using r by (rule arg_cong)
  finally show "ds_write_offset d = usz (ds_base_offset d + ds_start d + DuplexMemoryStream_size d)"
    by (simp only: usz_add_usz)
qed

lemma base_mod: "duplex_wf d \<Longrightarrow> (ds_base_offset d + k) mod chunk_size = k mod chunk_size"
  by (simp add: duplex_wf_def mod_add_left_eq [symmetric])

lemma offset_mod:
  assumes "duplex_wf d"
  shows "usz (ds_read_offset d + k) mod chunk_size = (ds_start d + k) mod chunk_size"
    "usz (ds_write_offset d + k) mod chunk_size = (ds_start d + DuplexMemoryStream_size d + k) mod chunk_size"
proof -
  have "usz (ds_read_offset d + k) = usz (ds_base_offset d + (ds_start d + k))"
    "usz (ds_write_offset d + k) = usz (ds_base_offset d + (ds_start d + DuplexMemoryStream_size d + k))"
    by (subst duplex_offsets [OF assms], simp only: usz_add_usz add.assoc)+
  then show "usz (ds_read_offset d + k) mod chunk_size = (ds_start d + k) mod chunk_size"
    "usz (ds_write_offset d + k) mod chunk_size = (ds_start d + DuplexMemoryStream_size d + k) mod chunk_size"
    by (simp_all only: usz_mod_chunk base_mod [OF assms])
qed

lemma unread_length: "duplex_wf d \<Longrightarrow> length (unread_bytes d) = DuplexMemoryStream_size d"
  using ceil_chunks [OF chunk_size_pos, of "ds_start d + DuplexMemoryStream_size d"]
  by (auto simp: unread_bytes_def duplex_wf_def length_concat_whole min_def)

section \<open>Reading\<close>

lemma advance_read:
  assumes wf: "duplex_wf d" and k: "k \<le> DuplexMemoryStream_size d"
  defines "d' \<equiv> d\<lparr>ds_read_offset := usz (ds_read_offset d + k)\<rparr>"
  shows "duplex_wf d'" "unread_bytes d' = drop k (unread_bytes d)" "DuplexMemoryStream_size d' = DuplexMemoryStream_size d - k"
proof -
  let ?b = "ds_base_offset d" and ?r = "ds_start d" and ?n = "DuplexMemoryStream_size d"
  have small: "?b < 2 ^ 32" "?r + ?n < 2 ^ 32" using wf by (simp_all add: duplex_wf_def)
  have R: "ds_read_offset d' = usz (?b + (?r + k))"
    unfolding d'_def by (subst duplex_offsets(1) [OF wf]) (simp add: usz_add_usz add.assoc)
  have W: "ds_write_offset d' = usz (usz (?b + (?r + k)) + (?n - k))"
    using duplex_offsets(2) [OF wf] k unfolding usz_add_usz by (simp add: d'_def add.assoc)
  have "usub (usz (usz (?b + (?r + k)) + (?n - k))) (usz (?b + (?r + k))) = ?n - k"
    using small by (intro usub_usz_add usz_less) simp
  then have n: "DuplexMemoryStream_size d' = ?n - k" by (simp only: DuplexMemoryStream_size_def [of d'] W R)
  have "usub (usz (?b + (?r + k))) ?b = ?r + k" using small k by (intro usub_usz_add) simp_all
  then have r: "ds_start d' = ?r + k" unfolding R by (simp add: d'_def)
  show "duplex_wf d'" unfolding duplex_wf_def r n
    using wf k usz_less [of "ds_read_offset d + k"] by (simp add: duplex_wf_def d'_def)
  show "unread_bytes d' = drop k (unread_bytes d)" unfolding unread_bytes_def r n
    by (simp add: d'_def drop_take add.commute)
  show "DuplexMemoryStream_size d' = ?n - k" by (rule n)
qed

definition same_errors :: "duplex_stream \<Rightarrow> duplex_stream \<Rightarrow> bool" where
  "same_errors d d' \<longleftrightarrow> ds_recoverable_error d' = ds_recoverable_error d \<and> ds_fatal_error d' = ds_fatal_error d"

lemma discard_step:
  assumes wf: "duplex_wf d" and r: "chunk_size \<le> ds_start d"
  defines "d' \<equiv> d\<lparr>ds_chunks := tl (ds_chunks d), ds_base_offset := usz (ds_base_offset d + chunk_size)\<rparr>"
  shows "ds_chunks d \<noteq> []" "duplex_wf d'" "ds_start d' = ds_start d - chunk_size" "unread_bytes d' = unread_bytes d"
proof -
  let ?b = "ds_base_offset d" and ?r = "ds_start d" and ?n = "DuplexMemoryStream_size d"
  have small: "?b < 2 ^ 32" "?r + ?n < 2 ^ 32" using wf by (simp_all add: duplex_wf_def)
  have "0 < length (ds_chunks d)"
    using wf r chunk_size_pos by (auto simp: duplex_wf_def less_ceil_div_iff simp del: length_greater_0_conv)
  then obtain c cs where cs: "ds_chunks d = c # cs" by (cases "ds_chunks d") auto
  then show "ds_chunks d \<noteq> []" by simp
  have "usz (?b + chunk_size + (?r - chunk_size)) = usz (?b + ?r)" using r by (intro arg_cong [of _ _ usz]) simp
  then have R: "usz (?b + chunk_size + (?r - chunk_size)) = ds_read_offset d"
    by (rule trans [OF _ duplex_offsets(1) [OF wf, symmetric]])
  have d': "ds_read_offset d' = ds_read_offset d" "ds_base_offset d' = usz (?b + chunk_size)" by (simp_all add: d'_def)
  have "?r - chunk_size < 2 ^ 32" using small by simp
  then show start: "ds_start d' = ?r - chunk_size"
    using usub_usz_usz [of "?r - chunk_size" "?b + chunk_size"] unfolding d' R by simp
  have n: "DuplexMemoryStream_size d' = ?n" by (simp add: d'_def DuplexMemoryStream_size_def)
  have len: "length c = chunk_size" "whole_chunks cs" "Suc (length cs) = ceil_div (?r + ?n) chunk_size"
    using wf cs by (simp_all add: duplex_wf_def)
  have "?r + ?n \<le> chunk_size + length cs * chunk_size" "length cs * chunk_size < ?r + ?n"
    using ceil_chunks [OF chunk_size_pos, of "?r + ?n"] unfolding len(3) [symmetric] mult_Suc by linarith+
  then have "ceil_div (?r - chunk_size + ?n) chunk_size = length cs"
    using r by (intro ceil_div_unique [OF chunk_size_pos]) linarith+
  moreover have "usz (?b + chunk_size) mod chunk_size = 0" using wf by (simp add: usz_mod_chunk duplex_wf_def)
  moreover have "?r - chunk_size + ?n < 2 ^ 32" using small(2) by simp
  ultimately show "duplex_wf d'" unfolding duplex_wf_def start n
    using wf len(2) usz_less [of "?b + chunk_size"] by (simp add: d'_def duplex_wf_def cs)
  have "drop (?r - chunk_size) (concat cs) = drop ?r (concat (c # cs))" using r len(1) by simp
  then show "unread_bytes d' = unread_bytes d" unfolding unread_bytes_def start n by (simp add: d'_def cs)
qed

lemma try_discard_spec:
  assumes "duplex_wf d"
  shows "\<exists>d'. try_discard_chunks d = Some (Inr d') \<and> duplex_ok d' \<and> unread_bytes d' = unread_bytes d \<and> same_errors d d'"
  using assms
proof (induction "ds_start d" arbitrary: d rule: less_induct)
  case less
  show ?case
  proof (cases "chunk_size \<le> ds_start d")
    case False
    then show ?thesis using less.prems by (subst try_discard_chunks.simps) (simp add: duplex_ok_def same_errors_def)
  next
    case True
    let ?d = "d\<lparr>ds_chunks := tl (ds_chunks d), ds_base_offset := usz (ds_base_offset d + chunk_size)\<rparr>"
    note step = discard_step [OF less.prems True]
    have "try_discard_chunks d = try_discard_chunks ?d"
      using True step(1) by (subst try_discard_chunks.simps) (simp add: vector_take_first_def verify_def)
    moreover obtain d' where "try_discard_chunks ?d = Some (Inr d')" "duplex_ok d'" "unread_bytes d' = unread_bytes ?d"
        "same_errors ?d d'"
      using less.hyps [OF _ step(2)] step(3) True chunk_size_pos by auto
    ultimately show ?thesis using step(4) by (simp add: same_errors_def)
  qed
qed

text \<open>The chunk with the byte at a place of the unread part.\<close>

lemma chunk_at:
  assumes wf: "duplex_wf d" and k: "k < DuplexMemoryStream_size d"
  defines "q \<equiv> (ds_start d + k) div chunk_size" and "i \<equiv> (ds_start d + k) mod chunk_size"
  shows "q < length (ds_chunks d)" "length (ds_chunks d ! q) = chunk_size" "i < chunk_size"
    "\<exists>rest. drop k (unread_bytes d) = take (DuplexMemoryStream_size d - k) (drop i (ds_chunks d ! q) @ rest)"
proof -
  have "q * chunk_size \<le> ds_start d + k" by (simp add: q_def)
  then show q: "q < length (ds_chunks d)" using wf k chunk_size_pos by (simp add: duplex_wf_def less_ceil_div_iff)
  have whole: "whole_chunks (ds_chunks d)" using wf by (simp add: duplex_wf_def)
  show "length (ds_chunks d ! q) = chunk_size" using nth_whole [OF whole q] .
  show i: "i < chunk_size" using chunk_size_pos by (simp add: i_def)
  have "ds_start d + k = q * chunk_size + i" by (simp add: q_def i_def)
  then have "drop (ds_start d + k) (concat (ds_chunks d)) = drop i (ds_chunks d ! q) @ concat (drop (Suc q) (ds_chunks d))"
    using drop_concat_whole [OF whole q, of i] i by simp
  then show "\<exists>rest. drop k (unread_bytes d) = take (DuplexMemoryStream_size d - k) (drop i (ds_chunks d ! q) @ rest)"
    by (auto simp: unread_bytes_def drop_take add.commute)
qed

lemma read_loop_spec:
  assumes "duplex_wf d" "bs < 2 ^ 32" "length out \<le> bs" "length out \<le> DuplexMemoryStream_size d"
    "out = take (length out) (unread_bytes d)"
  shows "read_loop d bs out = Some (Inr (take bs (unread_bytes d)))"
  using assms(3-5)
proof (induction "min bs (DuplexMemoryStream_size d) - length out" arbitrary: out rule: less_induct)
  case less
  let ?n = "DuplexMemoryStream_size d" and ?k = "length out"
  have small: "?n < 2 ^ 32" "ds_start d + ?n < 2 ^ 32" using assms(1) by (simp_all add: duplex_wf_def)
  have len: "length (unread_bytes d) = ?n" by (rule unread_length [OF assms(1)])
  show ?case
  proof (cases "?k < bs \<and> ?k < ?n")
    case False
    then have "out = take bs (unread_bytes d)" using less.prems len by (cases "?k = bs") auto
    then show ?thesis using False less.prems assms(2) small
      by (subst read_loop.simps) (auto simp: Let_def simp flip: DuplexMemoryStream_size_def)
  next
    case True
    define q i where "q = (ds_start d + ?k) div chunk_size" and "i = (ds_start d + ?k) mod chunk_size"
    note at = chunk_at [OF assms(1) conjunct2 [OF True], folded q_def i_def]
    define piece where "piece = take (bs - ?k) (take (?n - ?k) (drop i (ds_chunks d ! q)))"
    have piece: "0 < length piece" "length piece \<le> bs - ?k" "length piece \<le> ?n - ?k"
      using True at(2,3) by (simp_all add: piece_def)
    obtain rest where "drop ?k (unread_bytes d) = take (?n - ?k) (drop i (ds_chunks d ! q) @ rest)" using at(4) by blast
    then have "piece = take (length piece) (drop ?k (unread_bytes d))" by (simp add: piece_def min_def)
    then have out: "out @ piece = take (length (out @ piece)) (unread_bytes d)" using less.prems(3) by (simp add: take_add)
    have bounds: "?k + length piece \<le> bs" "?k + length piece \<le> ?n" using piece True by linarith+
    then have decr: "min bs ?n - (?k + length piece) < min bs ?n - ?k" using piece(1) True by linarith
    have "usz (ds_start d + ?k) = ds_start d + ?k" using True small by simp
    then have "read_loop d bs out = read_loop d bs (out @ piece)"
      using True assms(2) small less.prems at offset_mod(1) [OF assms(1), of ?k]
      by (subst read_loop.simps) (simp add: Let_def vec_at_ok span_slice_def verify_def piece_def
          flip: DuplexMemoryStream_size_def q_def i_def)
    also have "\<dots> = Some (Inr (take bs (unread_bytes d)))"
      by (intro less.hyps out) (simp_all only: length_append bounds decr)
    finally show ?thesis .
  qed
qed

lemma read_without_consuming_spec:
  "duplex_wf d \<Longrightarrow> bs < 2 ^ 32 \<Longrightarrow> DuplexMemoryStream_read_without_consuming d bs = Some (Inr (take bs (unread_bytes d)))"
  unfolding DuplexMemoryStream_read_without_consuming_def by (rule read_loop_spec) simp_all

lemma release:
  assumes "duplex_ok d" "k \<le> DuplexMemoryStream_size d"
  shows "\<exists>d'. try_discard_chunks (d\<lparr>ds_read_offset := usz (ds_read_offset d + k)\<rparr>) = Some (Inr d') \<and> duplex_ok d' \<and>
    unread_bytes d' = drop k (unread_bytes d) \<and> same_errors d d'"
proof -
  have wf: "duplex_wf d" using assms(1) by (simp add: duplex_ok_def)
  show ?thesis using try_discard_spec [OF advance_read(1) [OF wf assms(2)]] advance_read(2) [OF wf assms(2)]
    by (simp add: same_errors_def)
qed

section \<open>Writing\<close>

lemma last_chunk:
  assumes "whole_chunks cs" "length cs = ceil_div f chunk_size" "length u = chunk_size"
  obtains pre l where "(if f mod chunk_size = 0 then cs @ [u] else cs) = pre @ [l]" "whole_chunks pre" "length l = chunk_size"
    "length pre * chunk_size + f mod chunk_size = f" "take f (concat cs) = concat pre @ take (f mod chunk_size) l"
proof (cases "f mod chunk_size = 0")
  case True
  then have "length cs * chunk_size = f" using assms(2) div_mult_mod_eq [of f chunk_size] by (simp add: ceil_div_def)
  then show ?thesis using that [of cs u] True assms length_concat_whole [OF assms(1)] by simp
next
  case False
  then have len: "length cs = Suc (f div chunk_size)" using assms(2) by (simp add: ceil_div_def)
  then obtain pre l where cs: "cs = pre @ [l]" by (cases cs rule: rev_cases) auto
  have pre: "length pre * chunk_size + f mod chunk_size = f" using len cs by simp
  have "length (concat pre) = length pre * chunk_size" using assms(1) cs by (simp add: length_concat_whole)
  then have "take f (concat cs) = concat pre @ take (f - length pre * chunk_size) l" using cs pre by simp
  moreover have "f - length pre * chunk_size = f mod chunk_size" using pre by linarith
  ultimately show ?thesis using that [of pre l] False cs pre assms(1) by simp
qed

lemma write_chunk:
  assumes l: "length l = chunk_size" and pre: "whole_chunks pre" and i: "i < chunk_size" and src: "source \<noteq> []"
    and f: "f = length pre * chunk_size + i"
  defines "count \<equiv> min (length source) (chunk_size - i)"
  defines "l' \<equiv> take i l @ take count source @ drop count (drop i l)"
  shows "0 < count" "count \<le> length source" "length l' = chunk_size"
    "length (pre @ [l']) = ceil_div (f + count) chunk_size"
    "take (f + count) (concat (pre @ [l'])) = concat pre @ take i l @ take count source"
proof -
  show count: "0 < count" "count \<le> length source" using i src by (simp_all add: count_def)
  have le: "i + count \<le> chunk_size" using i by (simp add: count_def)
  show "length l' = chunk_size" using l le count by (simp add: l'_def)
  show "length (pre @ [l']) = ceil_div (f + count) chunk_size"
    using f le count(1) by (intro ceil_div_unique [symmetric] chunk_size_pos) simp_all
  have "take (i + count) l' = take i l @ take count source" using l le count by (simp add: l'_def)
  then show "take (f + count) (concat (pre @ [l'])) = concat pre @ take i l @ take count source"
    using f by (simp add: length_concat_whole [OF pre] add.assoc)
qed

lemma write_loop_spec:
  assumes b: "length bytes < 2 ^ 32"
    and off: "\<And>k. usz (wo + k) mod chunk_size = (f + k) mod chunk_size"
    and cs: "nw \<le> length bytes" "whole_chunks cs" "length cs = ceil_div (f + nw) chunk_size"
  shows "\<exists>cs'. write_loop junk wo bytes cs nw = Some (Inr (cs', length bytes)) \<and> whole_chunks cs' \<and>
    length cs' = ceil_div (f + length bytes) chunk_size \<and>
    take (f + length bytes) (concat cs') = take (f + nw) (concat cs) @ drop nw bytes"
  using cs
proof (induction "length bytes - nw" arbitrary: cs nw rule: less_induct)
  case less
  show ?case
  proof (cases "nw = length bytes")
    case True
    moreover have "usub (length bytes) (length bytes) = 0" using b by simp
    ultimately show ?thesis using less.prems by (subst write_loop.simps) simp
  next
    case False
    define i where "i = (f + nw) mod chunk_size"
    let ?u = "ByteBuffer_create_uninitialized (junk (usz (wo + nw))) chunk_size"
    obtain pre l where pl: "(if i = 0 then cs @ [?u] else cs) = pre @ [l]" "whole_chunks pre" "length l = chunk_size"
        "length pre * chunk_size + i = f + nw" "take (f + nw) (concat cs) = concat pre @ take i l"
      using last_chunk [OF less.prems(2,3) length_ByteBuffer_create_uninitialized] unfolding i_def by blast
    have i: "i < chunk_size" using chunk_size_pos by (simp add: i_def)
    define count where "count = min (length (drop nw bytes)) (chunk_size - i)"
    define l' where "l' = take i l @ take count (drop nw bytes) @ drop count (drop i l)"
    have src: "drop nw bytes \<noteq> []" using less.prems(1) False by simp
    note wc = write_chunk [OF pl(3,2) i src pl(4) [symmetric], folded count_def, folded l'_def]
    have left: "0 < usub (length bytes) nw" using less.prems(1) False b by simp
    have at: "usz (wo + nw) mod chunk_size = i" by (simp only: off i_def)
    have run: "span_slice bytes nw = Inr (drop nw bytes)" "vector_last (pre @ [l]) = Inr l" "span_slice l i = Inr (drop i l)"
      "min (length (drop nw bytes)) (length (drop i l)) = count"
      using less.prems(1) i pl(3) by (simp_all add: span_slice_def vector_last_def verify_def count_def)
    have "write_loop junk wo bytes cs nw = write_loop junk wo bytes (pre @ [l']) (nw + count)"
      by (subst write_loop.simps) (simp only: left if_True at Let_def pl(1) run lift_res_simps l'_def butlast_snoc)
    moreover have "\<exists>cs'. write_loop junk wo bytes (pre @ [l']) (nw + count) = Some (Inr (cs', length bytes)) \<and>
        whole_chunks cs' \<and> length cs' = ceil_div (f + length bytes) chunk_size \<and>
        take (f + length bytes) (concat cs') = take (f + (nw + count)) (concat (pre @ [l'])) @ drop (nw + count) bytes"
      using wc(1-4) less.prems(1) False pl(2) by (intro less.hyps) (simp_all add: add.assoc)
    moreover have "take (f + (nw + count)) (concat (pre @ [l'])) @ drop (nw + count) bytes = take (f + nw) (concat cs) @ drop nw bytes"
      using append_take_drop_id [of count "drop nw bytes"] unfolding add.assoc [symmetric] wc(5) pl(5) by (simp add: add.commute)
    ultimately show ?thesis by simp
  qed
qed

lemma duplex_write_spec:
  assumes ok: "duplex_ok d" and room: "ds_start d + DuplexMemoryStream_size d + length bytes < 2 ^ 32"
  shows "\<exists>d'. DuplexMemoryStream_write junk d bytes = Some (Inr (length bytes, d')) \<and> duplex_ok d' \<and>
    unread_bytes d' = unread_bytes d @ bytes \<and> same_errors d d'"
proof -
  let ?b = "ds_base_offset d" and ?r = "ds_start d" and ?n = "DuplexMemoryStream_size d" and ?m = "length bytes"
  have wf: "duplex_wf d" and r: "?r < chunk_size" using ok by (simp_all add: duplex_ok_def)
  have cs: "whole_chunks (ds_chunks d)" "length (ds_chunks d) = ceil_div (?r + ?n + 0) chunk_size"
    "?b < 2 ^ 32" "ds_read_offset d < 2 ^ 32" using wf by (simp_all add: duplex_wf_def)
  have small: "?m < 2 ^ 32" using room by simp
  obtain cs' where cs': "write_loop junk (ds_write_offset d) bytes (ds_chunks d) 0 = Some (Inr (cs', ?m))" "whole_chunks cs'"
      "length cs' = ceil_div (?r + ?n + ?m) chunk_size"
      "take (?r + ?n + ?m) (concat cs') = take (?r + ?n) (concat (ds_chunks d)) @ bytes"
    using write_loop_spec [OF small offset_mod(2) [OF wf] _ cs(1,2)] by auto
  define d' where "d' = d\<lparr>ds_chunks := cs', ds_write_offset := usz (ds_write_offset d + ?m)\<rparr>"
  have W: "ds_write_offset d' = usz (ds_read_offset d + (?n + ?m))"
    using usz_add_usub [of "ds_write_offset d" "ds_read_offset d"] wf usz_add_usz [of "ds_read_offset d + ?n" ?m]
    by (simp add: d'_def duplex_wf_def DuplexMemoryStream_size_def add.assoc)
  have R: "ds_read_offset d' = ds_read_offset d" by (simp add: d'_def)
  have n: "DuplexMemoryStream_size d' = ?n + ?m" unfolding DuplexMemoryStream_size_def [of d'] W R
    using room by (intro usub_usz_add cs(4)) simp
  have start: "ds_start d' = ?r" "ds_chunks d' = cs'" by (simp_all add: d'_def)
  have "duplex_ok d'" unfolding duplex_ok_def duplex_wf_def start n
    using wf cs' room r usz_less [of "ds_write_offset d + ?m"] by (simp add: d'_def duplex_wf_def add.assoc)
  moreover have "?r + ?n \<le> length (concat (ds_chunks d))"
    using ceil_chunks [OF chunk_size_pos, of "?r + ?n"] cs(2) by (simp add: length_concat_whole [OF cs(1)])
  then have "unread_bytes d' = unread_bytes d @ bytes"
    using arg_cong [OF cs'(4), of "drop ?r"]
    by (simp add: unread_bytes_def start n drop_take add.assoc min_absorb2)
  moreover have "DuplexMemoryStream_write junk d bytes = Some (Inr (?m, d'))"
    using cs'(1) by (simp add: DuplexMemoryStream_write_def d'_def)
  ultimately show ?thesis by (auto simp: same_errors_def d'_def)
qed

section \<open>Searching\<close>

lemma spans_loop_spec:
  assumes "whole_chunks cs" "length cs < 2 ^ 32" "start + n \<le> length cs * chunk_size"
  shows "\<exists>spans'. spans_loop cs (start div chunk_size) (start mod chunk_size) n spans = Some (Inr (spans @ spans')) \<and>
    concat spans' = take n (drop start (concat cs))"
  using assms(3)
proof (induction n arbitrary: start spans rule: less_induct)
  case (less n)
  show ?case
  proof (cases "n = 0")
    case True
    then show ?thesis by (subst spans_loop.simps) simp
  next
    case False
    define q i where "q = start div chunk_size" and "i = start mod chunk_size"
    have qi: "q * chunk_size + i = start" "i < chunk_size" using chunk_size_pos by (simp_all add: q_def i_def)
    have "q * chunk_size < length cs * chunk_size" using qi less.prems False by linarith
    then have q: "q < length cs" by simp
    let ?span = "drop i (cs ! q)"
    have len: "length (cs ! q) = chunk_size" using nth_whole [OF assms(1) q] .
    have rest: "drop start (concat cs) = ?span @ concat (drop (Suc q) cs)"
      using drop_concat_whole [OF assms(1) q, of i] qi by simp
    have span: "(if i \<noteq> 0 then span_slice (cs ! q) i else Inr (cs ! q)) = Inr ?span"
      using qi(2) len by (simp add: span_slice_def verify_def)
    show ?thesis
    proof (cases "n < length ?span")
      case True
      have "usz n = n" using True len by (simp add: chunk_size_def)
      then have "spans_loop cs q i n spans = Some (Inr (spans @ [take n ?span]))"
        using True False q span by (subst spans_loop.simps) (simp add: vec_at_ok span_slice_length_def verify_def)
      then show ?thesis using True rest by (auto simp: q_def i_def)
    next
      case le: False
      have next_chunk: "usz (q + 1) = (start + length ?span) div chunk_size" "(start + length ?span) mod chunk_size = 0"
      proof -
        have "start + length ?span = (q + 1) * chunk_size" using qi len by simp
        then show "usz (q + 1) = (start + length ?span) div chunk_size" "(start + length ?span) mod chunk_size = 0"
          using q assms(2) chunk_size_pos by simp_all
      qed
      have "spans_loop cs q i n spans =
          spans_loop cs ((start + length ?span) div chunk_size) ((start + length ?span) mod chunk_size)
            (n - length ?span) (spans @ [?span])"
        using le False q by (subst spans_loop.simps) (simp only: span next_chunk vec_at_ok [OF q] lift_res_simps, simp)
      moreover have "0 < length ?span" "length ?span \<le> n" using le qi(2) len by simp_all
      then have "n - length ?span < n" "start + length ?span + (n - length ?span) \<le> length cs * chunk_size"
        using less.prems by linarith+
      then obtain spans' where "spans_loop cs ((start + length ?span) div chunk_size) ((start + length ?span) mod chunk_size)
            (n - length ?span) (spans @ [?span]) = Some (Inr ((spans @ [?span]) @ spans'))"
          "concat spans' = take (n - length ?span) (drop (start + length ?span) (concat cs))"
        using less.IH [of "n - length ?span" "start + length ?span" "spans @ [?span]"] by blast
      moreover have "drop (start + length ?span) (concat cs) = concat (drop (Suc q) cs)"
        using arg_cong [OF rest, of "drop (length ?span)"] by (simp add: add.commute)
      ultimately show ?thesis using rest le by (intro exI [of _ "?span # spans'"]) (simp add: q_def i_def)
    qed
  qed
qed

lemma unread_spans:
  assumes "duplex_wf d"
  shows "\<exists>spans. spans_loop (ds_chunks d) (ds_start d div chunk_size) (ds_start d mod chunk_size)
      (DuplexMemoryStream_size d) [] = Some (Inr spans) \<and> concat spans = unread_bytes d"
proof -
  let ?f = "ds_start d + DuplexMemoryStream_size d"
  have cs: "whole_chunks (ds_chunks d)" "length (ds_chunks d) = ceil_div ?f chunk_size" "?f < 2 ^ 32"
    using assms by (simp_all add: duplex_wf_def)
  have "\<not> ?f < length (ds_chunks d)" unfolding cs(2) less_ceil_div_iff [OF chunk_size_pos]
    by (simp add: chunk_size_def)
  then have "length (ds_chunks d) < 2 ^ 32" using cs(3) by linarith
  moreover have "?f \<le> length (ds_chunks d) * chunk_size" using ceil_chunks [OF chunk_size_pos, of ?f] cs(2) by simp
  ultimately show ?thesis
    using spans_loop_spec [OF cs(1), of "ds_start d" "DuplexMemoryStream_size d" "[]"] by (auto simp: unread_bytes_def)
qed

lemma offset_of_spec:
  assumes "duplex_wf d" "p \<noteq> []"
  shows "DuplexMemoryStream_offset_of d p = Some (Inr (first_occurrence (unread_bytes d) p))"
  using unread_spans [OF assms(1)] memmem_chunks_first [OF assms(2)]
  by (auto simp: DuplexMemoryStream_offset_of_def Let_def simp flip: DuplexMemoryStream_size_def)

lemma offset_of_nothing:
  assumes "duplex_wf d"
  shows "DuplexMemoryStream_offset_of d [] = Some (Inl Verify_Failed)"
  using unread_spans [OF assms]
  by (auto simp: DuplexMemoryStream_offset_of_def Let_def memmem_chunks_def prepare_kmp_partial_table_def vec_set_def
      simp flip: DuplexMemoryStream_size_def)

section \<open>The contract\<close>

datatype stream_op = Put "u8 list" | Get nat | Skip nat | Find "u8 list" | Handle

datatype stream_result = Wrote nat | Got "u8 list" | Skipped bool | Found "nat option" | Handled bool

text \<open>
  The specification: a list of unread bytes and whether an error is pending. A search for no bytes
  fails the check of \<open>table[0] = -1\<close>. Outside the contract are a write that would go over the limit
  and a size that is not a \<open>size_t\<close>.
\<close>

fun list_stream :: "nat \<Rightarrow> u8 list \<times> bool \<Rightarrow> stream_op \<Rightarrow> (stream_result \<times> u8 list \<times> bool) res option" where
  "list_stream limit (xs, e) (Put bs) =
     (if length xs + length bs \<le> limit then Some (Inr (Wrote (length bs), xs @ bs, e)) else None)"
| "list_stream limit (xs, e) (Get n) =
     (if n < 2 ^ 32 then Some (Inr (if e then (Got [], xs, e) else (Got (take n xs), drop n xs, e))) else None)"
| "list_stream limit (xs, e) (Skip n) =
     Some (Inr (if n \<le> length xs then (Skipped True, drop n xs, e) else (Skipped False, xs, True)))"
| "list_stream limit (xs, e) (Find p) =
     Some (if p = [] then Inl Verify_Failed else Inr (Found (first_occurrence xs p), xs, e))"
| "list_stream limit (xs, e) Handle = Some (Inr (Handled e, xs, False))"

fun duplex_step :: "(nat \<Rightarrow> nat \<Rightarrow> u8) \<Rightarrow> duplex_stream \<Rightarrow> stream_op \<Rightarrow> (stream_result \<times> duplex_stream) res option" where
  "duplex_step junk d (Put bs) = xbind (DuplexMemoryStream_write junk d bs) (\<lambda>(n, d). Some (Inr (Wrote n, d)))"
| "duplex_step junk d (Get n) = xbind (DuplexMemoryStream_read d n) (\<lambda>(bs, d). Some (Inr (Got bs, d)))"
| "duplex_step junk d (Skip n) = xbind (DuplexMemoryStream_discard_or_error d n) (\<lambda>(b, d). Some (Inr (Skipped b, d)))"
| "duplex_step junk d (Find p) = xbind (DuplexMemoryStream_offset_of d p) (\<lambda>i. Some (Inr (Found i, d)))"
| "duplex_step junk d Handle = (let (b, d) = duplex_handle_any_error d in Some (Inr (Handled b, d)))"

definition duplex_abs :: "duplex_stream \<Rightarrow> u8 list \<times> bool" where
  "duplex_abs d = (unread_bytes d, duplex_has_any_error d)"

lemma same_errors_abs: "same_errors d d' \<Longrightarrow> duplex_has_any_error d' = duplex_has_any_error d"
  by (simp add: same_errors_def duplex_has_any_error_def)

lemma flags_ok:
  "duplex_ok (d\<lparr>ds_recoverable_error := a\<rparr>) = duplex_ok d" "duplex_ok (d\<lparr>ds_recoverable_error := a, ds_fatal_error := b\<rparr>) = duplex_ok d"
  "unread_bytes (d\<lparr>ds_recoverable_error := a\<rparr>) = unread_bytes d"
  "unread_bytes (d\<lparr>ds_recoverable_error := a, ds_fatal_error := b\<rparr>) = unread_bytes d"
  by (simp_all add: duplex_ok_def duplex_wf_def unread_bytes_def DuplexMemoryStream_size_def)

lemma duplex_read_spec:
  assumes "duplex_ok d" "n < 2 ^ 32" "\<not> duplex_has_any_error d"
  shows "\<exists>d'. DuplexMemoryStream_read d n = Some (Inr (take n (unread_bytes d), d')) \<and> duplex_ok d' \<and>
    unread_bytes d' = drop n (unread_bytes d) \<and> same_errors d d'"
proof -
  have wf: "duplex_wf d" using assms(1) by (simp add: duplex_ok_def)
  have len: "length (unread_bytes d) = DuplexMemoryStream_size d" by (rule unread_length [OF wf])
  have "drop (length (take n (unread_bytes d))) (unread_bytes d) = drop n (unread_bytes d)" by (simp add: min_def)
  then show ?thesis
    using release [OF assms(1), of "length (take n (unread_bytes d))"] read_without_consuming_spec [OF wf assms(2)] assms(3) len
    by (auto simp: DuplexMemoryStream_read_def)
qed

lemma duplex_discard_spec:
  assumes "duplex_ok d"
  shows "\<exists>d'. DuplexMemoryStream_discard_or_error d n = Some (Inr (n \<le> length (unread_bytes d), d')) \<and> duplex_ok d' \<and>
    unread_bytes d' = (if n \<le> length (unread_bytes d) then drop n (unread_bytes d) else unread_bytes d) \<and>
    duplex_has_any_error d' = (duplex_has_any_error d \<or> length (unread_bytes d) < n)"
proof -
  have len: "length (unread_bytes d) = DuplexMemoryStream_size d" using assms by (simp add: duplex_ok_def unread_length)
  show ?thesis
  proof (cases "DuplexMemoryStream_size d < n")
    case True
    then show ?thesis using assms len
      by (simp add: DuplexMemoryStream_discard_or_error_def duplex_set_recoverable_error_def flags_ok
          duplex_has_any_error_def flip: DuplexMemoryStream_size_def)
  next
    case False
    then obtain d' where "try_discard_chunks (d\<lparr>ds_read_offset := usz (ds_read_offset d + n)\<rparr>) = Some (Inr d')" "duplex_ok d'"
        "unread_bytes d' = drop n (unread_bytes d)" "same_errors d d'"
      using release [OF assms, of n] by auto
    then show ?thesis using False len same_errors_abs
      by (simp add: DuplexMemoryStream_discard_or_error_def flip: DuplexMemoryStream_size_def)
  qed
qed

lemma duplex_step_spec:
  assumes ok: "duplex_ok d" and spec: "list_stream (2 ^ 32 - chunk_size) (duplex_abs d) op = Some (Inr (r, st))"
  shows "\<exists>d'. duplex_step junk d op = Some (Inr (r, d')) \<and> duplex_ok d' \<and> duplex_abs d' = st"
proof (cases op)
  case (Put bs)
  have n: "length (unread_bytes d) = DuplexMemoryStream_size d" "ds_start d < chunk_size"
    using ok by (simp_all add: duplex_ok_def unread_length)
  have "length (unread_bytes d) + length bs \<le> 2 ^ 32 - chunk_size"
    using spec Put by (simp add: duplex_abs_def split: if_splits)
  then have "ds_start d + DuplexMemoryStream_size d + length bs < 2 ^ 32" using n by (simp add: chunk_size_def)
  then obtain d' where "DuplexMemoryStream_write junk d bs = Some (Inr (length bs, d'))" "duplex_ok d'"
      "unread_bytes d' = unread_bytes d @ bs" "same_errors d d'"
    using duplex_write_spec [OF ok] by blast
  then show ?thesis using Put spec same_errors_abs by (simp add: duplex_abs_def split: if_splits)
next
  case (Get n)
  show ?thesis
  proof (cases "duplex_has_any_error d")
    case True
    then show ?thesis using Get spec ok by (auto simp: duplex_abs_def DuplexMemoryStream_read_def split: if_splits)
  next
    case False
    moreover have "n < 2 ^ 32" using Get spec by (simp add: duplex_abs_def split: if_splits)
    ultimately show ?thesis using duplex_read_spec [OF ok] Get spec same_errors_abs
      by (fastforce simp: duplex_abs_def split: if_splits)
  qed
next
  case (Skip n)
  then show ?thesis using duplex_discard_spec [OF ok, of n] spec by (fastforce simp: duplex_abs_def split: if_splits)
next
  case (Find p)
  then show ?thesis using offset_of_spec [of d p] spec ok by (auto simp: duplex_abs_def duplex_ok_def split: if_splits)
next
  case Handle
  then show ?thesis using spec ok
    by (auto simp: duplex_abs_def duplex_handle_any_error_def duplex_has_any_error_def flags_ok)
qed

lemma duplex_step_fault:
  assumes "duplex_ok d" "list_stream (2 ^ 32 - chunk_size) (duplex_abs d) op = Some (Inl e)"
  shows "duplex_step junk d op = Some (Inl e)"
  using assms offset_of_nothing [of d] by (cases op) (auto simp: duplex_abs_def duplex_ok_def split: if_splits)

interpretation duplex: simulation duplex_ok duplex_abs "duplex_step junk" "list_stream (2 ^ 32 - chunk_size)" for junk
  by unfold_locales (rule duplex_step_spec duplex_step_fault; assumption)+

lemma create_duplex: "duplex_ok DuplexMemoryStream_create" "duplex_abs DuplexMemoryStream_create = ([], False)"
  by (simp_all add: DuplexMemoryStream_create_def duplex_ok_def duplex_wf_def duplex_abs_def unread_bytes_def
      duplex_has_any_error_def DuplexMemoryStream_size_def chunk_size_def ceil_div_def)

lemma duplex_copy_spec:
  assumes "duplex_ok d"
  shows "DuplexMemoryStream_copy_into_contiguous_buffer d = Some (Inr (unread_bytes d))"
proof -
  have wf: "duplex_wf d" using assms by (simp add: duplex_ok_def)
  have "DuplexMemoryStream_size d < 2 ^ 32" using wf by (simp add: duplex_wf_def)
  from read_without_consuming_spec [OF wf this] show ?thesis
    using unread_length [OF wf] by (simp add: DuplexMemoryStream_copy_into_contiguous_buffer_def verify_def)
qed

lemma duplex_read_or_error_spec:
  assumes "duplex_ok d" "n < 2 ^ 32" "\<not> duplex_has_any_error d" "n \<le> length (unread_bytes d)"
  shows "\<exists>d'. DuplexMemoryStream_read_or_error d n = Some (Inr (True, take n (unread_bytes d), d')) \<and> duplex_ok d' \<and>
    unread_bytes d' = drop n (unread_bytes d)"
proof -
  have "length (unread_bytes d) = DuplexMemoryStream_size d" using assms(1) by (simp add: duplex_ok_def unread_length)
  then show ?thesis using duplex_read_spec [OF assms(1-3)] assms(4)
    by (auto simp: DuplexMemoryStream_read_or_error_def simp flip: DuplexMemoryStream_size_def)
qed

end
