(* ===== verification/Spec2Isabelle.thy ===== *)
theory Spec2Isabelle
  imports Heap_Client Cache_Transparency Codecs Unicode_Roundtrip Lexical_Path Generic_Lexer Calendar Circular_Queue Binary_Heap Sorting Duplex_Stream
begin

text \<open>
  A verification of parts of pranaOS: the allocators, the disk cache and the library \<open>base/\<close> that
  kernel and user programs share. Paths are relative to \<open>src/\<close>; the target is i686, where
  \<open>size_t\<close> and pointers have 32 bits.

  \<^bold>\<open>Conventions.\<close> An operation that may fail returns \<open>'a res\<close>, a fault or a value: \<open>Verify_Failed\<close>
  for a failed \<open>VERIFY\<close>, \<open>Out_Of_Bounds\<close> for an access outside a block, \<open>Undefined_Behaviour\<close> for the
  undefined operations of C++. A loop that may not end is a partial function into \<open>'a res option\<close>, and
  \<open>None\<close> means that it does not return; theorems about it state the value, and so that it returns. No
  definition uses fuel. A struct is a record, \<open>size_t\<close> arithmetic is on naturals modulo \<open>2 ^ 32\<close>
  (\<open>usz\<close>, \<open>usub\<close>) where it can wrap around, other integers are words or integers with their range.
  Mutable objects are passed and returned. Theory \<open>Prelude\<close> has these combinators, memory blocks and
  the facts on lists, words and sizes that the components share; \<open>Word_Facts\<close> has more on words.

  \<^bold>\<open>Bitmaps.\<close> \<open>Bitmap_View\<close> models \<open>base/BitmapView.h\<close>, a view of bytes at an address; the word loops
  and the unaligned bytes before and after them are separate definitions. \<open>Bitmap_Count\<close> proves
  \<open>count_in_range\<close> exact, \<open>Bitmap_Range\<close> that the searches for ranges of unset bits find the first fit,
  and that the best-fit search ends and finds a fit, if there is one, for requests of 32 bits or more. \<open>Bitmap\<close> models
  \<open>base/Bitmap.h\<close>, with ownership, growth and the setting of ranges.

  \<^bold>\<open>Kernel heap.\<close> \<open>Kernel_Heap\<close> models \<open>kernel/heap/Heap.h\<close>: \<open>Heap\<close> is a record of its memory, its bitmap
  and its counts, \<open>ExpandableHeap\<close> a chain of them, and the expander, a parameter. The abstract
  allocator is a map from the first chunk of each live block to its length; the relation \<open>heap_rel\<close>
  ties it to memory, headers and bitmap. \<open>Heap_Client\<close> has the locale \<open>block_allocator\<close>, what a client may
  rely on, its interpretation by the heap, and sequences of requests.

  \<^bold>\<open>Disk cache.\<close> \<open>Disk_Cache\<close> models \<open>kernel/filesystem/BlockBasedFileSystem.cpp\<close>: the entries with their
  clean and dirty lists and hash map, the block operations and the flushes. The file is a parameter,
  a reader and a writer with the hypothesis \<open>device_ok\<close>: a block read is the block written last. Reads
  and copies that fail half way leave the bytes they have moved in the entry.
  \<open>Cache_Transparency\<close> proves that any sequence of cached operations on blocks other than 0 acts as
  on an array of blocks, and that a flush brings the device up to date; and it shows what becomes of
  block 0 and of uncached accesses.

  \<^bold>\<open>Characters and strings.\<close> \<open>Characters\<close> is \<open>base/CharacterTypes.h\<close>. \<open>Mem_Search\<close> is \<open>base/MemMem.h\<close>, with
  the correctness of both search algorithms against the first occurrence. \<open>String_View\<close> and
  \<open>String_Utils\<close> are \<open>base/StringView.*\<close> and \<open>base/StringUtils.*\<close>: definitions, and the properties of
  splitting, trimming and number conversion. \<open>Strings\<close> is \<open>base/String.cpp\<close>, \<open>base/StringImpl.cpp\<close>
  and what they use of \<open>base/StringBuilder.cpp\<close>. \<open>Lexical_Path\<close> is \<open>base/LexicalPath.*\<close> and
  \<open>Generic_Lexer\<close> is \<open>base/GenericLexer.*\<close>, with the locale \<open>cursor\<close> of operations that keep
  the cursor in the input.

  \<^bold>\<open>Encodings and streams.\<close> \<open>Codecs\<close> is \<open>base/Hex.*\<close>, \<open>base/Base64.cpp\<close>, \<open>InputMemoryStream\<close> and
  \<open>base/LEB128.h\<close>. \<open>Unicode\<close> is \<open>base/Utf8View.cpp\<close> and \<open>base/Utf16View.cpp\<close>, and \<open>Unicode_Roundtrip\<close>
  their round trips. \<open>Duplex_Stream\<close> is \<open>DuplexMemoryStream\<close> of \<open>base/MemoryStream.h\<close>, which acts as a
  list of bytes; its search uses \<open>Mem_Search\<close>. In LEB128, shifts of types narrower than \<open>int\<close> are those
  of the promoted value.

  \<^bold>\<open>Sequences of operations.\<close> \<open>Simulation\<close> has the locale \<open>simulation\<close>: a component whose single
  operations have the results, or the faults, of a specification has those of any sequence. The stream
  and the ring are instances, with lists as the specification; there \<open>None\<close> stands for operations
  outside the contract.

  \<^bold>\<open>Numbers and time.\<close> \<open>Checked_Int\<close> is \<open>base/Checked.h\<close> for any signed or unsigned type given by its
  width. \<open>Time\<close> and \<open>Calendar\<close> are \<open>base/Time.*\<close>, on checked integers.

  \<^bold>\<open>Containers and algorithms.\<close> \<open>Circular_Queue\<close> is \<open>base/CircularQueue.h\<close> and \<open>base/CircularDeque.h\<close>, an
  instance of the locales \<open>bounded_queue\<close>, \<open>bounded_deque\<close> and \<open>simulation\<close>. \<open>Binary_Heap\<close> is \<open>base/BinaryHeap.h\<close>, an
  instance of \<open>priority_queue\<close>. \<open>Sorting\<close> is \<open>base/QuickSort.h\<close> and \<open>base/BinarySearch.h\<close>: in the locale
  \<open>strict_weak_order\<close> of comparisons both sorts are instances of \<open>sorting_routine\<close>.

  \<^bold>\<open>This theory\<close> states the properties of the components. Some are about what the code does against
  its intent: the searches that do not end (C9), accesses behind a block (C12, C13), sizes that wrap
  around (C5, C6), the blocks the cache loses (C16, C17), the lexer (C30) and the iterator (C37).

  \<^bold>\<open>Bounds.\<close> A ring has fewer than \<open>2 ^ 31\<close> slots and a list to sort fewer than \<open>2 ^ 31\<close> elements, the
  largest \<open>int\<close>; a stream holds at most \<open>2 ^ 32 - 4096\<close> unread bytes, so that offsets into its chunks do not
  wrap; the table of the Knuth-Morris-Pratt search is indexed by integers without a width, as a needle
  that does not fit an \<open>int\<close> has no table in the address space; views and strings have fewer than \<open>2 ^ 30\<close> to \<open>2 ^ 32\<close> bytes, as the statements say; the dates
  of C35 are in the years in which the day count is an \<open>int\<close>.

  \<^bold>\<open>Not modelled.\<close> \<open>StringUtils::matches\<close>, whose recursion on the pointers reads the mask up to a NUL
  that a view need not have; \<open>encode_hex\<close> and everything that goes through the format library; the
  growth of the buffers of builders, strings and vectors, which are lists; reference counts and the
  destructors of smart pointers; \<open>OutputMemoryStream\<close>; the cached lengths of the Unicode views. Hash
  tables, red-black trees and intrusive lists are not modelled as pointer structures: where modelled
  code uses them they are maps and lists. Of the kernel, processor support, buses, devices, the
  other file systems and the start-up code are hardware input and output, assembly, or depend on
  parts that are not in the repository; the user programs only call the system.
\<close>

section \<open>Kernel heap\<close>

text \<open>
  C1. \<open>Heap::allocate\<close> refines the abstract allocator: on a heap related to a map
  of live blocks, a request whose size computation does not overflow ends, and either no run of
  free chunks holds it and null is returned with the heap unchanged, or the pointer returned is
  that of a block of free chunks that becomes live, with every byte outside the block kept.
\<close>

theorem heap_allocate_correct:
  assumes "heap_rel C h live" "bytes + 4 + C \<le> 2 ^ 32"
  shows "(\<forall>s. \<not> free_window (h_bitmap h) (ceil_div (bytes + 4) C) s) \<and>
      Heap_allocate C sa h bytes = Some (Inr (None, h)) \<or>
    (\<exists>s h'. free_window (h_bitmap h) (ceil_div (bytes + 4) C) s \<and> live s = None \<and>
      Heap_allocate C sa h bytes = Some (Inr (Some (h_chunks h + s * C + 4), h')) \<and>
      heap_rel C h' (live(s \<mapsto> ceil_div (bytes + 4) C)) \<and>
      h_chunks h' = h_chunks h \<and> h_total_chunks h' = h_total_chunks h \<and>
      (\<forall>j<length (h_memory h). j < s * C \<or> (s + ceil_div (bytes + 4) C) * C \<le> j \<longrightarrow>
         h_memory h' ! j = h_memory h ! j))"
  using assms by (rule allocate_spec)

theorem heap_allocate_correct_witness:
  "\<exists>h. Heap_create 32 4096 (replicate 330 0) = Inr h \<and>
     (\<exists>p h'. Heap_allocate 32 0xbb h 100 = Some (Inr (p, h')))"
proof -
  have "\<exists>h. Heap_create 32 4096 (replicate 330 0) = Inr h \<and> heap_rel 32 h Map.empty \<and> h_chunks h = 4096 \<and>
      h_total_chunks h = Heap_calculate_chunks 32 (length (replicate 330 (0 :: u8)))"
    by (rule create_empty_heap) simp_all
  then obtain h where h: "Heap_create 32 4096 (replicate 330 0) = Inr h" "heap_rel 32 h Map.empty" by blast
  have "(100::nat) + 4 + 32 \<le> 2 ^ 32" by simp
  from heap_allocate_correct [OF h(2) this, of "0xbb"] h(1) show ?thesis by blast
qed

text \<open>
  C2. \<open>Heap::deallocate\<close> of the pointer of a live block passes every check, removes
  exactly that block from the live ones, and keeps every byte outside it.
\<close>

theorem heap_deallocate_correct:
  assumes "heap_rel C h live" "live s = Some n"
  shows "\<exists>h'. Heap_deallocate C sf h (Some (h_chunks h + s * C + 4)) = Inr h' \<and>
    heap_rel C h' (live(s := None)) \<and> h_chunks h' = h_chunks h \<and> h_total_chunks h' = h_total_chunks h \<and>
    (\<forall>j<length (h_memory h). j < s * C \<or> (s + n) * C \<le> j \<longrightarrow> h_memory h' ! j = h_memory h ! j)"
  using assms by (rule deallocate_spec)

theorem heap_deallocate_correct_witness:
  "\<exists>h live s h'. heap_rel 32 h live \<and> live s = Some 1 \<and>
     Heap_deallocate 32 0xaa h (Some (h_chunks h + s * 32 + 4)) = Inr h'"
proof -
  have "\<exists>h. Heap_create 32 4096 (replicate 330 0) = Inr h \<and> heap_rel 32 h Map.empty \<and> h_chunks h = 4096 \<and>
      h_total_chunks h = Heap_calculate_chunks 32 (length (replicate 330 (0 :: u8)))"
    by (rule create_empty_heap) simp_all
  then obtain h where h: "heap_rel 32 h Map.empty" "h_total_chunks h = 10"
    by (auto simp: Heap_calculate_chunks_def)
  have "free_window (h_bitmap h) 1 0"
    using h by (auto simp: heap_rel_def heap_inv_def live_blocks_def free_window_def unset_range_def)
  from take_chunks_spec [OF h(1) _ this, of 0] obtain h1 where h1: "heap_rel 32 h1 (Map.empty(0 \<mapsto> 1))" by auto
  from heap_deallocate_correct [OF h1, of 0 1 "0xaa"] h1 show ?thesis
    by (metis fun_upd_same)
qed

text \<open>
  C3. No sequence of requests whose sizes do not overflow makes the heap fail: starting from an
  empty heap, any interleaving of allocations, each of a number of bytes that with the header
  and a chunk is at most 2^32, and of frees of pointers still held runs to its end, without a
  failed check, an access outside the heap or a search that does not end, and the held pointers
  are those of the live blocks.
\<close>

theorem heap_requests_safe:
  assumes "heap_rel C h Map.empty" "list_all (fits (\<lambda>bytes. bytes + 4 + C \<le> 2 ^ 32)) rs"
  shows "\<exists>h' live held. serve (Heap_allocate C sa) (Heap_deallocate C sf) h [] rs = Some (Inr (h', held)) \<and>
    heap_rel C h' live \<and> distinct held \<and> set held = block_ptr C h' ` dom live"
proof -
  have "kheap.holds C h Map.empty []" using assms(1) by (simp add: kheap.holds_def)
  from kheap.serve_safe [OF this assms(2), of sa sf] show ?thesis by (auto simp: kheap.holds_def)
qed

theorem heap_requests_safe_witness:
  "\<exists>h r. Heap_create 32 4096 (replicate 330 0) = Inr h \<and>
     serve (Heap_allocate 32 0) (Heap_deallocate 32 0) h [] [Alloc 10, Alloc 100, Free 1, Alloc 3] = Some (Inr r)"
proof -
  have "\<exists>h. Heap_create 32 4096 (replicate 330 0) = Inr h \<and> heap_rel 32 h Map.empty \<and> h_chunks h = 4096 \<and>
      h_total_chunks h = Heap_calculate_chunks 32 (length (replicate 330 (0 :: u8)))"
    by (rule create_empty_heap) simp_all
  then obtain h where h: "Heap_create 32 4096 (replicate 330 0) = Inr h" "heap_rel 32 h Map.empty" by blast
  have "list_all (fits (\<lambda>bytes. bytes + 4 + 32 \<le> 2 ^ 32)) [Alloc 10, Alloc 100, Free 1, Alloc 3]" by simp
  from heap_requests_safe [OF h(2) this, of 0 0] h(1) show ?thesis by blast
qed

text \<open>
  C4. A pointer to a chunk of no live block, such as one freed before, fails a check of
  \<open>Heap::deallocate\<close>.
\<close>

theorem heap_free_chunk_rejected:
  assumes "heap_rel C h live" "s < h_total_chunks h" "\<And>t n. live t = Some n \<Longrightarrow> \<not> (t \<le> s \<and> s < t + n)"
  shows "Heap_deallocate C sf h (Some (h_chunks h + s * C + 4)) = Inl Verify_Failed"
  using assms by (rule deallocate_free_chunk)

theorem heap_free_chunk_rejected_witness:
  "\<exists>h. Heap_create 32 4096 (replicate 330 0) = Inr h \<and>
     Heap_deallocate 32 0 h (Some (h_chunks h + 3 * 32 + 4)) = Inl Verify_Failed"
proof -
  have "\<exists>h. Heap_create 32 4096 (replicate 330 0) = Inr h \<and> heap_rel 32 h Map.empty \<and> h_chunks h = 4096 \<and>
      h_total_chunks h = Heap_calculate_chunks 32 (length (replicate 330 (0 :: u8)))"
    by (rule create_empty_heap) simp_all
  then obtain h where h: "Heap_create 32 4096 (replicate 330 0) = Inr h" "heap_rel 32 h Map.empty"
    "h_total_chunks h = 10" by (auto simp: Heap_calculate_chunks_def)
  from heap_free_chunk_rejected [OF h(2), of 3 0] h show ?thesis by auto
qed

text \<open>
  C5. A heap made of \<open>calculate_memory_for_bytes(bytes)\<close> bytes has fewer chunks
  than an allocation of \<open>bytes\<close> needs, as soon as that is two chunks and for sizes
  well below 2^31: the bitmap is sized by the bit there and by the byte in
  \<open>calculate_chunks\<close>.
\<close>

theorem heap_memory_for_bytes_short:
  assumes "4 < C" "2 * bytes + 2 * C + 16 \<le> 2 ^ 32" "C < bytes + 4"
  shows "Heap_calculate_chunks C (Heap_calculate_memory_for_bytes C bytes) < chunks_for C bytes"
  using assms by (rule memory_for_bytes_short)

theorem heap_memory_for_bytes_short_witness:
  "Heap_calculate_chunks 32 (Heap_calculate_memory_for_bytes 32 100) < chunks_for 32 100"
  by (rule heap_memory_for_bytes_short) simp_all

text \<open>
  C6. The size computation of \<open>Heap::allocate\<close> wraps: a request of \<open>2 ^ 32 -
  3\<close> to \<open>2 ^ 32 - 1\<close> bytes is counted as one chunk, and one of \<open>2 ^ 32
  - 4\<close> bytes as none.
\<close>

theorem heap_allocate_wraps:
  assumes "4 < C" "C < 2 ^ 31" "2 ^ 32 - 4 \<le> bytes" "bytes < 2 ^ 32"
  shows "chunks_for C bytes = (if bytes = 2 ^ 32 - 4 then 0 else 1)"
  using chunks_for_zero [OF assms(1,2)] chunks_for_wraps [OF assms(1,2) _ assms(4)] assms(3)
  by (cases "bytes = 2 ^ 32 - 4") simp_all

theorem heap_allocate_wraps_witness: "chunks_for 32 (2 ^ 32 - 1) = 1"
  using heap_allocate_wraps [of 32 "2 ^ 32 - 1"] by simp

section \<open>Bitmaps\<close>

text \<open>
  C7. \<open>find_first_fit\<close>, which scans 32 bits at a time, returns, for
  \<open>n\<close> of at least one, the least start of a run of \<open>n\<close> unset bits, and
  nothing exactly when there is no such run.
\<close>

theorem first_fit_least:
  assumes "wf_view b" "0 < n"
  shows "Bitmap_find_first_fit b n =
    Inr (if \<exists>s. free_window b n s then Some (LEAST s. free_window b n s) else None)"
proof -
  have "free_window (Bitmap_view b) = free_window b"
    by (simp add: fun_eq_iff free_window_def unset_range_def)
  then show ?thesis using find_first_fit_spec [of "Bitmap_view b" n] assms by (simp add: Bitmap_find_first_fit_def)
qed

theorem first_fit_least_witness:
  "Bitmap_find_first_fit (Bitmap_of_data 0 [0xff, 0x0f, 0, 0, 0] 40 False) 5 =
    Inr (if \<exists>s. free_window (Bitmap_of_data 0 [0xff, 0x0f, 0, 0, 0] 40 False) 5 s
         then Some (LEAST s. free_window (Bitmap_of_data 0 [0xff, 0x0f, 0, 0, 0] 40 False) 5 s) else None)"
  by (rule first_fit_least) (simp_all add: wf_view_def Bitmap_of_data_def BitmapView_size_in_bytes_def ceil_div_def)

text \<open>
  C8. \<open>find_best_fit\<close> for at least 32 bits ends, returns only the start of a run of
  that many unset bits, and nothing exactly when there is none.
\<close>

theorem best_fit_total:
  assumes "wf_view b" "32 \<le> n"
  shows "\<exists>r. Bitmap_find_best_fit b n = Some (Inr r) \<and>
    (case r of Some s \<Rightarrow> free_window b n s | None \<Rightarrow> \<forall>s. \<not> free_window b n s)"
proof -
  have fw: "free_window (Bitmap_view b) = free_window b"
    by (simp add: fun_eq_iff free_window_def unset_range_def)
  show ?thesis
    using find_best_fit_spec [of "Bitmap_view b" n, unfolded fw] assms by (simp add: Bitmap_find_best_fit_def)
qed

theorem best_fit_total_witness:
  "\<exists>r. Bitmap_find_best_fit (Bitmap_of_data 0 (replicate 32 0) 256 False) 128 = Some (Inr r)"
proof -
  have "wf_view (Bitmap_of_data 0 (replicate 32 0) 256 False)"
    by (simp add: wf_view_def Bitmap_of_data_def BitmapView_size_in_bytes_def ceil_div_def)
  moreover have "(32::nat) \<le> 128" by simp
  ultimately show ?thesis using best_fit_total by blast
qed

text \<open>
  C9. \<open>find_best_fit\<close> for fewer than 32 bits may not end: on a view of three free
  bits before a full remainder of the word and a free word, the search for three bits cycles.
\<close>

theorem best_fit_hangs: "BitmapView_find_best_fit three_then_empty 3 = None"
  by (rule best_fit_diverges)

text \<open>
  C10. \<open>count_in_range\<close>, with its masked ends and its word-wise middle, returns the
  number of positions of the range that have the value.
\<close>

theorem count_in_range_exact:
  assumes "wf_view v" "start < bm_size v" "start + len \<le> bm_size v"
  shows "BitmapView_count_in_range v start len value
    = Inr (length (filter (\<lambda>i. bits v i = value) [start..<start + len]))"
  using assms by (rule count_in_range_spec)

theorem count_in_range_exact_witness:
  "BitmapView_count_in_range \<lparr>bm_addr = 1, bm_data = replicate 12 0x81, bm_size = 90\<rparr> 3 80 True =
   Inr (length (filter (\<lambda>i. bits \<lparr>bm_addr = 1, bm_data = replicate 12 0x81, bm_size = 90\<rparr> i = True) [3..<3 + 80]))"
  by (rule count_in_range_exact) (simp_all add: wf_view_def BitmapView_size_in_bytes_def ceil_div_def)

text \<open>
  C11. \<open>set_range\<close> of a range inside a bitmap gives the bits of the range the value
  and keeps all others, unless the range is not empty and ends exactly where the data block
  ends: then it accesses memory behind the block. The variant that verifies does the same when
  all bits of the range flip.
\<close>

theorem set_range_exact:
  assumes "wf_view b" "start < bm_size b" "start + len \<le> bm_size b" "chk \<longrightarrow> none_in x b start (start + len)"
  shows "if len \<noteq> 0 \<and> start + len = 8 * length (bm_data b) then Bitmap_set_range_t x chk b start len = Inl Out_Of_Bounds
    else \<exists>d. Bitmap_set_range_t x chk b start len = Inr (b\<lparr>bm_data := d\<rparr>) \<and> length d = length (bm_data b) \<and>
      (\<forall>i<8 * length d. bits (b\<lparr>bm_data := d\<rparr>) i \<longleftrightarrow> (if start \<le> i \<and> i < start + len then x else bits b i))"
  using set_range_total [OF assms] unfolding range_set_def .

theorem set_range_exact_witness:
  "\<exists>d. Bitmap_set_range_t True False (Bitmap_of_data 0 (replicate 5 0x11) 37 False) 3 30
    = Inr (Bitmap_of_data 0 (replicate 5 0x11) 37 False\<lparr>bm_data := d\<rparr>)"
proof -
  define b where "b = Bitmap_of_data 0 (replicate 5 0x11) 37 False"
  have b: "length (bm_data b) = 5" by (simp add: b_def Bitmap_of_data_def)
  have "wf_view b" "3 < bm_size b" "3 + 30 \<le> bm_size b" "False \<longrightarrow> none_in True b 3 (3 + 30)"
    by (simp_all add: b_def wf_view_def Bitmap_of_data_def BitmapView_size_in_bytes_def ceil_div_def)
  from set_range_exact [OF this] b show ?thesis unfolding b_def by auto
qed



text \<open>
  C13. \<open>Bitmap::grow\<close> to a size inside the old last byte fails its own check, and
  to exactly the end of that byte accesses memory behind the new block.
\<close>

theorem grow_within_last_byte:
  assumes "\<And>k. length (snd (kmalloc k)) = k" "wf_view b" "bm_addr b \<noteq> 0" "bm_size b < n" "n + 8 < 2 ^ 32"
    "bm_size b mod 8 \<noteq> 0" "n \<le> bm_size b + (8 - bm_size b mod 8)"
  shows "Bitmap_grow kmalloc b n x =
    Inl (if n < bm_size b + (8 - bm_size b mod 8) then Verify_Failed else Out_Of_Bounds)"
  using assms by (rule grow_within_byte)

theorem grow_within_last_byte_witness:
  "Bitmap_grow (\<lambda>k. (4096, replicate k 0)) (Bitmap_of_data 64 [0] 3 True) 5 False = Inl Verify_Failed"
  using grow_within_last_byte [of "\<lambda>k. (4096, replicate k 0)" "Bitmap_of_data 64 [0] 3 True" 5 False]
  by (simp add: wf_view_def Bitmap_of_data_def BitmapView_size_in_bytes_def ceil_div_def)

section \<open>Disk cache\<close>

text \<open>
  C14. The block cache is transparent: with a device that serves its blocks, any sequence of
  cached reads, cached writes and flushes of blocks other than block 0 returns, with the outputs
  and the final blocks of the same sequence on a plain array of blocks; recycling of entries and
  flushes forced by a full cache do not show.
\<close>

theorem cache_transparent:
  assumes "device_ok rd wr blk bs N" "bs < 2 ^ 32" "cache_inv blk bs N fs" "list_all (op_ok bs N) ops"
  shows "\<exists>fs'. run_cached rd wr fs ops = Some (Inr (fst (run_plain (block_view blk fs) ops), fs')) \<and>
    cache_inv blk bs N fs' \<and> block_view blk fs' = snd (run_plain (block_view blk fs) ops)"
  using assms by (rule run_cached_spec)

theorem cache_transparent_witness:
  "\<exists>fs'. run_cached mem_read mem_write small_fs
       [Write_Block 1 0 [7], Write_Block 2 0 [8], Write_Block 3 0 [9], Read_Block 4 0 1, Read_Block 1 0 1] =
     Some (Inr (fst (run_plain (mem_blk 1 (\<lambda>_. 0))
       [Write_Block 1 0 [7], Write_Block 2 0 [8], Write_Block 3 0 [9], Read_Block 4 0 1, Read_Block 1 0 1]), fs'))"
proof -
  have bs: "(1::nat) < 2 ^ 32" by simp
  have "list_all (op_ok 1 100)
      [Write_Block 1 0 [7], Write_Block 2 0 [8], Write_Block 3 0 [9], Read_Block 4 0 1, Read_Block 1 0 1]" by simp
  from cache_transparent [OF small_device bs small_fs_inv(1) this] show ?thesis unfolding small_fs_inv(2) by blast
qed







section \<open>Text\<close>

text \<open>
  C18. \<open>memmem\<close> ends and returns the offset of the first occurrence of the needle,
  or null when there is none, whichever of its three algorithms it takes, except for needles of
  31 bytes in longer haystacks: the bit-parallel search never finds them.
\<close>

theorem memmem_finds_first:
  "memmem haystack needle =
    Some (Inr (if length needle = 31 \<and> 31 < length haystack then None else first_occurrence haystack needle))"
  by (rule memmem_total)

text \<open>
  C19. Splitting a view at a separator, empty parts kept, never fails a check; joining the parts
  with the separator gives the view back, and no part contains the separator.
\<close>

theorem split_roundtrip:
  "\<exists>parts. StringView_split_view sep True s = Inr parts \<and> join [sep] parts = s \<and> list_all (\<lambda>p. sep \<notin> set p) parts"
  using split_view_join [of sep s] by (auto simp: list_all_iff)

text \<open>
  C20. \<open>StringUtils::trim\<close> on both sides removes exactly the longest prefix and the
  longest suffix made of the given characters.
\<close>

theorem trim_both_sides:
  assumes "length s < 2 ^ 32"
  shows "trim s cs TrimBoth = Inr (strip_right (\<lambda>c. c \<in> set cs) (strip_left (\<lambda>c. c \<in> set cs) s))"
  using assms by (rule trim_both)

theorem trim_both_sides_witness:
  "trim [0x20, 0x61, 0x20, 0x62, 0x20] [0x20] TrimBoth = Inr [0x61, 0x20, 0x62]"
  using trim_both_sides [of "[0x20, 0x61, 0x20, 0x62, 0x20]" "[0x20]"]
  by (simp add: strip_left_def strip_right_def)

text \<open>
  C21. \<open>StringUtils::convert_to_int\<close> returns the number an optional sign and
  decimal digits denote when it is in the range of the type, for every width, and nothing
  otherwise: no overflow on the way is missed, the least number of the type included. With
  \<open>TrimWhitespace::Yes\<close>, the default, whitespace at both ends is removed first;
  with \<open>TrimWhitespace::No\<close> the string is taken as it is.
\<close>

theorem convert_to_int_exact:
  assumes "length s < 2 ^ 32" "ws = (\<lambda>c. c \<in> set whitespace_characters)"
  shows "convert_to_int w s trim_ws =
     Inr (Option.bind (denotes True (if trim_ws then strip_right ws (strip_left ws s) else s))
       (checked_value (- (2 ^ (w - 1))) (2 ^ (w - 1) - 1)))"
  unfolding assms(2) using assms(1) by (rule convert_to_int_trimmed)

theorem convert_to_int_exact_witness:
  "convert_to_int 8 [0x20, 0x2D, 0x31, 0x32, 0x38, 0x0A] True = Inr (Some (- 128)) \<and>
   convert_to_int 8 [0x20, 0x31] False = Inr None"
proof -
  have "length [0x20, 0x2D, 0x31, 0x32, 0x38, 0x0A :: u8] < 2 ^ 32" "length [0x20, 0x31 :: u8] < 2 ^ 32" by simp_all
  from convert_to_int_exact [OF this(1) refl, of 8 True] convert_to_int_exact [OF this(2) refl, of 8 False]
  show ?thesis
    by (simp add: strip_left_def strip_right_def whitespace_characters_def denotes_def is_digit_char_def checked_value_def)
qed

text \<open>
  C22. \<open>String::replace\<close> of all occurrences, for needles of a length other than 31
  bytes, leaves a string without an occurrence as it is; it puts the replacement in the place of
  every occurrence and counts them when the occurrences do not overlap, with the result cut at
  its first NUL, since it is copied as a C string; and it aborts when occurrences overlap.
\<close>

theorem replace_all_occurrences:
  assumes "length needle \<noteq> 31" "length s < 2 ^ 32"
    and "ps = (if s = [] then [] else filter (occurs_at s needle) [0..<Suc (length s)])"
  shows "String_replace s needle r True = Some
    (if ps = [] then Inr (s, 0)
     else if apart (length needle) 0 ps then Inr (c_string (substitute s r (length needle) ps 0), length ps)
     else Inl Verify_Failed)"
  using assms by (rule replace_spec)

theorem replace_all_occurrences_witness:
  "String_replace [0x61, 0x2D, 0x62, 0x2D] [0x2D] [0x2B, 0x2B] True =
     Some (Inr ([0x61, 0x2B, 0x2B, 0x62, 0x2B, 0x2B], 2))"
proof -
  let ?s = "[0x61, 0x2D, 0x62, 0x2D] :: u8 list"
  have "[1, 3] = (if ?s = [] then [] else filter (occurs_at ?s [0x2D]) [0..<Suc (length ?s)])"
    by (simp add: occurs_at_def upt_rec)
  from replace_all_occurrences [OF _ _ this, of "[0x2B, 0x2B]"] show ?thesis by (simp add: c_string_def)
qed

section \<open>Codecs\<close>

text \<open>
  C23. Decoding the Base64 encoding of any bytes gives the bytes back.
\<close>

theorem base64_decodes_encoding: "decode_base64 (encode_base64 x) = Inr x"
  by (rule base64_roundtrip)

text \<open>
  C24. Reading a number in LEB128 form into an unsigned type that holds it, of any width of at
  least a byte, the promotion of narrow types to \<open>int\<close> included, gives the number
  and leaves the stream just after it, for a stream of less than 2^32 bytes with no error
  pending.
\<close>

theorem leb128_reads_encoding:
  fixes v :: "'a::len word"
  assumes "is_bytes s = pre @ leb128 (unat v) @ tail" "is_offset s = length pre" "length (is_bytes s) < 2 ^ 32"
    and "\<not> Stream_has_any_error s" "8 \<le> LENGTH('a)"
  shows "LEB128_read_unsigned s = Inr (True, v, s\<lparr>is_offset := length pre + length (leb128 (unat v))\<rparr>)"
  using assms by (rule LEB128_unsigned_roundtrip)

theorem leb128_reads_encoding_witness:
  "LEB128_read_unsigned ((InputMemoryStream_create [0x07, 0xAC, 0x02, 0x09])\<lparr>is_offset := 1\<rparr>)
    = Inr (True, 300 :: u32, (InputMemoryStream_create [0x07, 0xAC, 0x02, 0x09])\<lparr>is_offset := 3\<rparr>)"
proof -
  let ?s = "(InputMemoryStream_create [0x07, 0xAC, 0x02, 0x09])\<lparr>is_offset := 1\<rparr>"
  have leb: "leb128 (unat (300 :: u32)) = [0xAC, 0x02]" by (simp add: leb128.simps)
  have "is_bytes ?s = [0x07] @ leb128 (unat (300 :: u32)) @ [0x09]" "is_offset ?s = length [0x07 :: u8]"
    "length (is_bytes ?s) < 2 ^ 32" "\<not> Stream_has_any_error ?s" "8 \<le> LENGTH(32)"
    unfolding leb by (simp_all add: InputMemoryStream_create_def Stream_has_any_error_def)
  from leb128_reads_encoding [OF this] show ?thesis unfolding leb by simp
qed

text \<open>
  C25. Iterating over the UTF-8 that \<open>StringBuilder\<close> writes for code points up to
  0x10ffff gives the code points back, with no check failed.
\<close>

theorem utf8_decodes_encoding:
  assumes "list_all (\<lambda>c. c \<le> 0x10ffff) cs"
  shows "utf8_code_points (StringBuilder_append_utf32 [] cs) = Inr cs"
  using assms by (rule utf8_roundtrip)

theorem utf8_decodes_encoding_witness:
  "utf8_code_points (StringBuilder_append_utf32 [] [0x41, 0x20AC, 0x1F600]) = Inr [0x41, 0x20AC, 0x1F600]"
  using utf8_decodes_encoding [of "[0x41, 0x20AC, 0x1F600]"] by simp

text \<open>
  C26. The UTF-8 of scalar values, converted to UTF-16 and back by the conversions of the two
  views, is unchanged.
\<close>

theorem utf8_through_utf16:
  assumes "list_all is_unicode_scalar_value cs"
  shows "rbind (utf8_to_utf16 (StringBuilder_append_utf32 [] cs)) (\<lambda>us. Utf16View_to_utf8 us False) =
    Inr (StringBuilder_append_utf32 [] cs)"
  using assms by (rule utf8_utf16_utf8)

theorem utf8_through_utf16_witness:
  "rbind (utf8_to_utf16 (StringBuilder_append_utf32 [] [0x7A, 0x1F600])) (\<lambda>us. Utf16View_to_utf8 us False) =
    Inr (StringBuilder_append_utf32 [] [0x7A, 0x1F600])"
proof -
  have "list_all is_unicode_scalar_value [0x7A, 0x1F600]"
    by (simp add: is_unicode_scalar_value_def is_unicode_def is_unicode_surrogate_def)
  then show ?thesis by (rule utf8_through_utf16)
qed

section \<open>Paths and lexing\<close>

text \<open>
  C27. \<open>LexicalPath::canonicalized_path\<close> of a nonempty path without NUL never fails
  a check and returns the canonical form, the early return included: rooted as the path is, and
  made of the parts that no later \<open>..\<close> takes away. They are neither empty nor
  \<open>.\<close> and have \<open>..\<close> only at the front, and nowhere when rooted.
\<close>

theorem canonical_path_form:
  assumes "p \<noteq> []" "length p < 2 ^ 32" "0 \<notin> set p"
  shows "canonicalized_path (Some p) = Some (Inr (Some (render (rooted p) (resolve (rooted p) (path_parts p))))) \<and>
    normal_parts (rooted p) (resolve (rooted p) (path_parts p))"
  using canonicalized_path_spec [OF assms] canonical_parts_normal [OF assms(3)] canonical_parts_resolve [OF assms(3)]
  by (simp add: canonical_form_def)

theorem canonical_path_form_witness:
  "canonicalized_path (Some [0x2F, 0x61, 0x2F, 0x2E, 0x2E, 0x2F, 0x2E, 0x2F, 0x62]) = Some (Inr (Some [0x2F, 0x62]))"
proof -
  let ?p = "[0x2F, 0x61, 0x2F, 0x2E, 0x2E, 0x2F, 0x2E, 0x2F, 0x62] :: u8 list"
  have "rooted ?p" by (simp add: rooted_def)
  moreover have "path_parts ?p = [[0x61], dotdot, dot, [0x62]]" by (simp add: path_parts_def dot_def dotdot_def)
  then have "resolve True (path_parts ?p) = [[0x62]]" by (simp add: resolve_def dot_def dotdot_def)
  moreover have "?p \<noteq> []" "length ?p < 2 ^ 32" "0 \<notin> set ?p" by simp_all
  ultimately show ?thesis
    using canonical_path_form [of ?p] by (simp add: render_def slash_def join_def)
qed





text \<open>
  C30. \<open>consume_and_unescape_string\<close> unescapes characters from after the closing
  quote, not those of the string: a nonempty quoted string at the end of the input always
  aborts.
\<close>

theorem lexer_unescape_after_string:
  assumes "length body < 2 ^ 30" "is_quote q" "q \<notin> set body" "e \<notin> set body" "e \<noteq> q" "e \<noteq> 0" "body \<noteq> []"
  shows "consume_and_unescape_string (GenericLexer_create (q # body @ [q])) e = Inl Verify_Failed"
  using assms by (intro unescape_aborts) (simp_all add: lexer_ok_def unread_def GenericLexer_create_def)

theorem lexer_unescape_after_string_witness:
  "consume_and_unescape_string (GenericLexer_create [0x22, 0x61, 0x62, 0x22]) 0x5C = Inl Verify_Failed"
  using lexer_unescape_after_string [of "[0x61, 0x62]" "0x22" "0x5C"] by (simp add: is_quote_def is_any_of_def)

section \<open>Numbers and time\<close>

text \<open>
  C31. Constructing a \<open>Checked<T>\<close> from a value of any other integer type sets the
  overflow flag exactly when the value is not one of \<open>T\<close>; what is stored is always
  a value of \<open>T\<close>, the same one when it fits.
\<close>

theorem checked_conversion_exact:
  assumes "ct_bits T > 0" "ct_bits S > 0" "in_type S v"
  shows "(has_overflow (Checked_convert T S v) \<longleftrightarrow> \<not> in_type T v) \<and> in_type T (ck_value (Checked_convert T S v)) \<and>
    (in_type T v \<longrightarrow> ck_value (Checked_convert T S v) = v)"
  using within_range_iff [OF assms] wrap_in_type [OF assms(1)] wrap_id [OF assms(1)]
  by (simp add: Checked_convert_def has_overflow_def)

theorem checked_conversion_exact_witness:
  "has_overflow (Checked_convert u32_type i64_type (- 1))"
proof -
  have "ct_bits u32_type > 0" "ct_bits i64_type > 0" by (simp_all add: u32_type_def i64_type_def)
  moreover have "in_type i64_type (- 1)" unfolding i64_range by simp
  ultimately show ?thesis using checked_conversion_exact [of u32_type i64_type "- 1"] unfolding u32_range by simp
qed

text \<open>
  C32. After any sequence of additions, subtractions, multiplications and divisions a
  \<open>Checked\<close> integer holds the exact result without the flag when every exact
  intermediate result is in the range of its type, and has the flag set otherwise, division by
  zero included.
\<close>

theorem checked_operations_exact:
  assumes "ct_bits T > 0" "in_type T v" "list_all (\<lambda>op. in_type T (operand op)) ops"
  shows "case exact_run T ops v of
      Some r \<Rightarrow> checked_run T ops (Checked_of v) = Checked_of r \<and> in_type T r
    | None \<Rightarrow> has_overflow (checked_run T ops (Checked_of v)) \<and> in_type T (ck_value (checked_run T ops (Checked_of v)))"
  using assms by (rule checked_run_exact)

theorem checked_operations_exact_witness:
  "checked_run i32_type [Mul 3, Sub 7, Div (- 2)] (Checked_of 5) = Checked_of (- 4)"
proof -
  have "ct_bits i32_type > 0" by (simp add: i32_type_def)
  moreover have "in_type i32_type 5" "list_all (\<lambda>op. in_type i32_type (operand op)) [Mul 3, Sub 7, Div (- 2)]"
    unfolding i32_range by simp_all
  ultimately have "case exact_run i32_type [Mul 3, Sub 7, Div (- 2)] 5 of
      Some r \<Rightarrow> checked_run i32_type [Mul 3, Sub 7, Div (- 2)] (Checked_of 5) = Checked_of r \<and> in_type i32_type r
    | None \<Rightarrow> has_overflow (checked_run i32_type [Mul 3, Sub 7, Div (- 2)] (Checked_of 5)) \<and>
        in_type i32_type (ck_value (checked_run i32_type [Mul 3, Sub 7, Div (- 2)] (Checked_of 5)))"
    by (rule checked_operations_exact)
  moreover have "exact_run i32_type [Mul 3, Sub 7, Div (- 2)] 5 = Some (- 4)" by (simp add: i32_range)
  ultimately show ?thesis by simp
qed

text \<open>
  C33. The sum and the difference of two durations are exact to the nanosecond, or saturate at
  the least or the greatest duration when the exact result is out of range; nothing overflows on
  the way.
\<close>

theorem time_arithmetic_saturates:
  assumes "time_ok a" "time_ok b"
  shows "(\<exists>t. Time_plus a b = Inr t \<and> time_ok t \<and>
      time_ns t = clamp (time_ns Time_min) (time_ns Time_max) (time_ns a + time_ns b)) \<and>
    (\<exists>t. Time_minus a b = Inr t \<and> time_ok t \<and>
      time_ns t = clamp (time_ns Time_min) (time_ns Time_max) (time_ns a - time_ns b))"
  using time_plus_saturates [OF assms] time_minus_saturates [OF assms] by blast

theorem time_arithmetic_saturates_witness:
  "\<exists>t. Time_minus (Time_of 3 100) (Time_of 1 200) = Inr t \<and> time_ns t = 1999999900"
proof -
  have "time_ok (Time_of 3 100)" "time_ok (Time_of 1 200)" by (simp_all add: time_ok_def i64_range)
  from time_arithmetic_saturates [OF this] show ?thesis
    by (auto simp: time_ns_def clamp_def Time_min_def Time_max_def)
qed

text \<open>
  C34. The truncating conversions of a duration round toward zero, the others away from zero,
  and each saturates at the bounds of \<open>i64\<close> exactly when the rounded number is out
  of range.
\<close>

theorem time_conversions_round:
  assumes "time_ok t"
  shows "to_truncated_seconds t = Inr (time_ns t sdiv 1000000000) \<and>
    to_seconds t = Inr (clamp i64_min i64_max (round_away (time_ns t) 1000000000)) \<and>
    to_truncated_milliseconds t = Inr (clamp i64_min i64_max (time_ns t sdiv 1000000)) \<and>
    to_truncated_microseconds t = Inr (clamp i64_min i64_max (time_ns t sdiv 1000)) \<and>
    to_milliseconds t = Inr (clamp i64_min i64_max (round_away (time_ns t) 1000000)) \<and>
    to_microseconds t = Inr (clamp i64_min i64_max (round_away (time_ns t) 1000)) \<and>
    to_nanoseconds t = Inr (clamp i64_min i64_max (time_ns t))"
  by (intro conjI conversions_round [OF assms] second_conversions_round [OF assms])

theorem time_conversions_round_witness:
  "to_milliseconds (Time_of (- 1) 1) = Inr (- 1000) \<and> to_truncated_milliseconds (Time_of (- 1) 1) = Inr (- 999)"
proof -
  have t: "time_ok (Time_of (- 1) 1)" by (simp add: time_ok_def i64_range)
  show ?thesis using time_conversions_round [OF t] by (simp add: time_ns_def clamp_def round_away_def)
qed

text \<open>
  C35. For every date of the years 1 to 5,000,000 the day of the week is the count of days since
  the epoch, a Thursday, modulo seven: the closed formula of the one agrees with the loop and
  the table of the other. The loop over the years gives the exact number of days, and no
  computation overflows.
\<close>

theorem weekday_agrees_with_days:
  assumes "1 \<le> y" "y \<le> 5000000" "1 \<le> m" "m \<le> 12" "1 \<le> d" "d \<le> 31"
  shows "\<exists>n. years_to_days_since_epoch y = days_before_year y \<and> day_of_year y m d = Inr n \<and>
    day_of_week y m d = Inr ((years_to_days_since_epoch y + n + 4) mod 7)"
  using assms by (rule weekday_agrees)

theorem weekday_agrees_with_days_witness:
  "\<exists>n. day_of_year 2021 11 15 = Inr n \<and> day_of_week 2021 11 15 = Inr ((years_to_days_since_epoch 2021 + n + 4) mod 7)"
  using weekday_agrees_with_days [of 2021 11 15] by auto

section \<open>Containers\<close>

text \<open>
  C36. Every sequence of \<open>enqueue\<close>, \<open>dequeue\<close>,
  \<open>enqueue_begin\<close>, \<open>dequeue_end\<close>, \<open>clear\<close>,
  \<open>at\<close> of an index below the capacity, \<open>first\<close>, \<open>last\<close>,
  \<open>size\<close> and \<open>is_empty\<close> on a new \<open>CircularDeque\<close> of a
  capacity from 1 to 2^31 - 1 has the results of the same operations on a list that drops a
  value at the other end when it is full. Its check fails exactly when a value is taken from an
  empty one, and a free slot is used exactly when \<open>at\<close>, \<open>first\<close> or
  \<open>last\<close> name a value that is not there. Iteration is not among them.
\<close>

theorem ring_refines_list:
  assumes "0 < n" "n < 2 ^ 31" "run_sequence (list_ring n) ops [] = Some outcome"
  shows "case outcome of
      Inl e \<Rightarrow> run_sequence ring_step ops (CircularQueue_create n) = Some (Inl e)
    | Inr (results, xs) \<Rightarrow> \<exists>q. run_sequence ring_step ops (CircularQueue_create n) = Some (Inr (results, q)) \<and>
        ring_ok q \<and> contents q = xs"
  using ring.run_refines [of "CircularQueue_create n" n ops outcome] assms
  by (auto simp: create_ring split: sum.splits)

theorem ring_refines_list_witness:
  "\<exists>q. run_sequence ring_step [Enqueue (1 :: int), Enqueue 2, Enqueue 3, Dequeue, First, Enqueue_Begin 5, At 1]
      (CircularQueue_create 2) = Some (Inr ([Done, Done, Done, Value 2, Value 3, Done, Value 3], q)) \<and> ring_ok q \<and> contents q = [5, 3]"
proof -
  have "run_sequence (list_ring 2) [Enqueue (1 :: int), Enqueue 2, Enqueue 3, Dequeue, First, Enqueue_Begin 5, At 1] [] =
      Some (Inr ([Done, Done, Done, Value 2, Value 3, Done, Value 3], [5, 3]))" by simp
  from ring_refines_list [OF _ _ this] show ?thesis by simp
qed

text \<open>
  C37. Iterating over any \<open>CircularQueue\<close> compares a slot index with the size. It
  gives all values of a full queue, or from head 0; with the head at \<open>h\<close>, at most
  the size, it leaves out the last \<open>h\<close> values of a queue that is not full; and with
  the head behind the size, also when the queue is empty, it uses a slot that holds no value.
\<close>

theorem ring_iteration_skips:
  assumes "ring_ok q"
  shows "CircularQueue_iterate q = Some
    (if ring_size q = ring_capacity q then Inr (contents q)
     else if ring_head q \<le> ring_size q then Inr (take (ring_size q - ring_head q) (contents q))
     else Inl Undefined_Behaviour)"
  using assms by (rule iterate_spec)

theorem ring_iteration_skips_witness:
  "\<exists>q. run_sequence ring_step [Enqueue (1 :: int), Enqueue 2, Dequeue] (CircularQueue_create 4) =
      Some (Inr ([Done, Done, Value 1], q)) \<and> contents q = [2] \<and> CircularQueue_iterate q = Some (Inr [])"
proof -
  let ?q = "\<lparr>elements = [None, Some 2, None, None], ring_size = 1, ring_head = 1\<rparr> :: int ring"
  have slots: "replicate 4 None = [None, None, None, None :: int option]" by (simp add: numeral_eq_Suc)
  have run: "run_sequence ring_step [Enqueue (1 :: int), Enqueue 2, Dequeue] (CircularQueue_create 4) =
      Some (Inr ([Done, Done, Value 1], ?q))"
    by (simp add: CircularQueue_enqueue_def CircularQueue_dequeue_def CircularQueue_create_def CircularQueue_is_empty_def
          ring_index_def ring_capacity_def construct_slot_def destroy_slot_def object_at_def with_value_def
          read_at_def write_at_def usz_def slots)
  have "run_sequence (list_ring 4) [Enqueue (1 :: int), Enqueue 2, Dequeue] [] = Some (Inr ([Done, Done, Value 1], [2]))" by simp
  with ring.run_refines [of "CircularQueue_create 4" 4 "[Enqueue (1 :: int), Enqueue 2, Dequeue]"] run
  have "ring_ok ?q" "contents ?q = [2]" by (auto simp: create_ring)
  with run ring_iteration_skips [of ?q] show ?thesis by (auto simp: ring_capacity_def)
qed

text \<open>
  C38. Inserting elements into an empty \<open>BinaryHeap\<close> with room for them and taking
  the minimum as often gives the values of all of them, in the order of their keys, and leaves
  the heap empty.
\<close>

theorem binary_heap_sorts:
  assumes "length kvs \<le> length storage"
  shows "\<exists>h1 out h2. insert_all BinaryHeap_insert kvs (BinaryHeap_create storage) = Inr h1 \<and>
    pop_all BinaryHeap_pop_min (length kvs) h1 = Inr (map snd out, h2) \<and>
    bheap_ok h2 \<and> bheap_contents h2 = {#} \<and> mset out = mset kvs \<and> sorted (map fst out)"
  using binary_heap_queue.sorts [OF create_bheap(1,2), of kvs storage] assms create_bheap(3) [of storage] by simp

theorem binary_heap_sorts_witness:
  "\<exists>h1 out h2. insert_all BinaryHeap_insert [(3 :: int, 0 :: nat), (1, 1), (2, 2)] (BinaryHeap_create (replicate 4 (0, 0))) = Inr h1 \<and>
    pop_all BinaryHeap_pop_min 3 h1 = Inr (map snd out, h2) \<and> bheap_contents h2 = {#} \<and>
    mset out = mset [(3 :: int, 0 :: nat), (1, 1), (2, 2)] \<and> sorted (map fst out)"
proof -
  have "length [(3 :: int, 0 :: nat), (1, 1), (2, 2)] \<le> length (replicate 4 (0 :: int, 0 :: nat))" by simp
  from binary_heap_sorts [OF this] show ?thesis
    by (simp only: list.size add_0 add_0_right add_Suc_right numeral_3_eq_3 mset.simps) blast
qed

text \<open>
  C39. Both quick sorts, with any strict weak order as the comparison, return on every list of
  less than 2^31 elements, access no element outside it, and leave a permutation in which no
  element is below an earlier one. A binary search in it with an agreeing comparator finds an
  equivalent element exactly when there is one, and otherwise reports the last element below the
  needle as nearby, or the first element.
\<close>

theorem sorts_and_searches:
  assumes "strict_weak_order lt" "length xs < 2 ^ 31" "\<And>a b. cmp a b < 0 \<longleftrightarrow> lt a b" "\<And>a b. cmp a b > 0 \<longleftrightarrow> lt b a"
    and "qs = quick_sort_collection_with lt \<or> qs = (\<lambda>col. quick_sort_range_with lt col 0 (int (length col)))"
  shows "\<exists>ys r nearby. qs xs = Some (Inr ys) \<and> mset ys = mset xs \<and> sorted_wrt (\<lambda>a b. \<not> lt b a) ys \<and>
    binary_search cmp ys x = Inr (r, nearby) \<and>
    (case r of
       Some i \<Rightarrow> i < length ys \<and> \<not> lt x (ys ! i) \<and> \<not> lt (ys ! i) x \<and> nearby = i
     | None \<Rightarrow> (\<forall>y\<in>set ys. lt x y \<or> lt y x) \<and> nearby = length (takeWhile (\<lambda>y. lt y x) ys) - 1)"
  using assms(5) strict_weak_order.collection_search [OF assms(1-4)] strict_weak_order.range_search [OF assms(1-4)] by blast

theorem sorts_and_searches_witness:
  "\<exists>ys i. quick_sort_collection_with (\<lambda>a b. a < b) [3, 1, 2 :: int] = Some (Inr ys) \<and> mset ys = {#1, 2, 3#} \<and>
    i < length ys \<and> ys ! i = 2 \<and> binary_search DefaultComparator ys 2 = Inr (Some i, i)"
proof -
  have "length [3, 1, 2 :: int] < 2 ^ 31" by simp
  from sorts_and_searches [OF default_order.strict_weak_order_axioms this DefaultComparator_agrees disjI1 [OF refl], of 2]
  obtain ys r nearby where ys: "quick_sort_collection_with (\<lambda>a b. a < b) [3, 1, 2 :: int] = Some (Inr ys)"
      "mset ys = mset [3, 1, 2]" "binary_search DefaultComparator ys 2 = Inr (r, nearby)"
    and r: "case r of Some i \<Rightarrow> i < length ys \<and> \<not> 2 < ys ! i \<and> \<not> ys ! i < 2 \<and> nearby = i
      | None \<Rightarrow> (\<forall>y\<in>set ys. 2 < y \<or> y < 2) \<and> nearby = length (takeWhile (\<lambda>y. y < 2) ys) - 1" by auto
  have "2 \<in> set ys" using ys(2) by (metis list.set_intros(1) list.set_intros(2) set_mset_mset)
  then obtain i where "r = Some i" using r by (cases r) auto
  then show ?thesis using ys r by auto
qed

text \<open>
  C40. Every sequence of writes, reads of sizes below 2^32, discards, searches and error
  handling on a new \<open>DuplexMemoryStream\<close> has the results of the same operations on
  a list of bytes, across chunk borders and when the offsets wrap around, as long as never more
  than 2^32 - 4096 bytes are unread. A search for some bytes returns the offset of their first
  occurrence; the first search for no bytes ends the sequence, in a failed check.
\<close>

theorem duplex_stream_refines_list:
  assumes "run_sequence (list_stream (2 ^ 32 - chunk_size)) ops ([], False) = Some outcome"
  shows "case outcome of
      Inl e \<Rightarrow> run_sequence (duplex_step junk) ops DuplexMemoryStream_create = Some (Inl e)
    | Inr (results, xs, e) \<Rightarrow>
        \<exists>d. run_sequence (duplex_step junk) ops DuplexMemoryStream_create = Some (Inr (results, d)) \<and>
          duplex_ok d \<and> unread_bytes d = xs \<and> duplex_has_any_error d = e"
  using duplex.run_refines [OF create_duplex(1), of ops outcome junk, unfolded create_duplex(2)] assms
  by (auto simp: duplex_abs_def split: sum.splits)

theorem duplex_stream_refines_list_witness:
  "(\<exists>d. run_sequence (duplex_step (\<lambda>_ _. 0)) [Put [1, 2, 3], Get 2, Skip 4, Get 1, Handle, Find [3], Get 1] DuplexMemoryStream_create =
      Some (Inr ([Wrote 3, Got [1, 2], Skipped False, Got [], Handled True, Found (Some 0), Got [3]], d)) \<and>
    duplex_ok d \<and> unread_bytes d = [] \<and> \<not> duplex_has_any_error d) \<and>
   run_sequence (duplex_step (\<lambda>_ _. 0)) [Put [1], Find []] DuplexMemoryStream_create = Some (Inl Verify_Failed)"
proof -
  have "run_sequence (list_stream (2 ^ 32 - chunk_size)) [Put [1, 2, 3], Get 2, Skip 4, Get 1, Handle, Find [3], Get 1] ([], False) =
      Some (Inr ([Wrote 3, Got [1, 2], Skipped False, Got [], Handled True, Found (Some 0), Got [3]], [], False))"
    "run_sequence (list_stream (2 ^ 32 - chunk_size)) [Put [1], Find []] ([], False) = Some (Inl Verify_Failed)"
    by (simp_all add: chunk_size_def first_occurrence_def occurs_at_def)
  from duplex_stream_refines_list [OF this(1), of "\<lambda>_ _. 0"] duplex_stream_refines_list [OF this(2), of "\<lambda>_ _. 0"]
  show ?thesis by simp
qed

end
